(* ===== verification/Prelude.thy ===== *)
theory Prelude
  imports Main "HOL-Library.Word" "HOL-Library.Multiset"
begin

text \<open>
  What every component of the development shares: the collections its automation draws on,
  the shape of the C++ loops (a counted loop, a \<^verbatim>\<open>range for\<close> over a pair of iterators) with the
  laws that turn them into lists, and the interface of a forward iterator, stated once as a
  locale that the index containers, the span iterator and the boundary iterator interpret.
\<close>

named_theorems vec_simps \<open>unfolding and indexing rules of the vector operations\<close>
named_theorems loop_simps \<open>rules that replace a loop by the list it computes\<close>

type_synonym u32 = "32 word"
type_synonym u64 = "64 word"
type_synonym 'a vec = "'a list"

section \<open>Counted loops\<close>

text \<open>\<^verbatim>\<open>for(i = lo; i < hi; ++i) s = f(i, s);\<close>\<close>

definition for_upto :: "nat \<Rightarrow> nat \<Rightarrow> (nat \<Rightarrow> 's \<Rightarrow> 's) \<Rightarrow> 's \<Rightarrow> 's" where
  "for_upto lo hi f s = fold f [lo..<hi] s"

lemma for_upto_empty [simp]: "hi \<le> lo \<Longrightarrow> for_upto lo hi f s = s"
  by (simp add: for_upto_def)

lemma for_upto_Suc: "lo \<le> hi \<Longrightarrow> for_upto lo (Suc hi) f s = f hi (for_upto lo hi f s)"
  by (simp add: for_upto_def)

lemma for_upto_first: "lo < hi \<Longrightarrow> for_upto lo hi f s = for_upto (Suc lo) hi f (f lo s)"
  by (simp add: for_upto_def upt_rec)

lemma for_upto_invariant:
  assumes "P lo s" and "lo \<le> hi"
    and "\<And>i s. lo \<le> i \<Longrightarrow> i < hi \<Longrightarrow> P i s \<Longrightarrow> P (Suc i) (f i s)"
  shows "P hi (for_upto lo hi f s)"
proof -
  have "lo \<le> k \<Longrightarrow> k \<le> hi \<Longrightarrow> P k (for_upto lo k f s)" for k
  proof (induction k)
    case (Suc k)
    then show ?case
      using assms by (cases "lo = Suc k") (auto simp: for_upto_Suc)
  qed (use assms in auto)
  then show ?thesis using assms(2) by simp
qed

lemma for_upto_cong:
  assumes "lo = lo'" "hi = hi'" "s = s'" "\<And>i s. lo' \<le> i \<Longrightarrow> i < hi' \<Longrightarrow> f i s = g i s"
  shows "for_upto lo hi f s = for_upto lo' hi' g s'"
  unfolding for_upto_def assms(1-3) by (rule fold_cong) (use assms(4) in auto)

text \<open>A loop that assigns every component of a vector computes the vector of the values.\<close>

lemma for_upto_assign_take:
  assumes "k \<le> length r"
  shows "for_upto 0 k (\<lambda>i r. r[i := f i]) r = map f [0..<k] @ drop k r"
  using assms
proof (induction k)
  case (Suc k)
  then have "drop k r = r ! k # drop (Suc k) r"
    by (simp add: Cons_nth_drop_Suc)
  with Suc show ?case by (simp add: for_upto_Suc list_update_append)
qed simp

lemma for_upto_assign [loop_simps]:
  "length r = n \<Longrightarrow> for_upto 0 n (\<lambda>i r. r[i := f i]) r = map f [0..<n]"
  by (simp add: for_upto_assign_take)

lemma length_for_upto:
  assumes "\<And>i s. length (f i s) = length s"
  shows "length (for_upto lo hi f s) = length s"
  unfolding for_upto_def
proof -
  have "length (fold f xs s) = length s" for xs
    by (induction xs arbitrary: s) (simp_all add: assms)
  then show "length (fold f [lo..<hi] s) = length s" .
qed

lemma for_upto_const: "for_upto lo hi (\<lambda>i s. f s) s = (f ^^ (hi - lo)) s"
proof (cases "lo \<le> hi")
  case True
  then show ?thesis
  proof (induction hi rule: nat_induct_at_least)
    case (Suc hi)
    then show ?case by (simp add: for_upto_Suc Suc_diff_le)
  qed simp
qed simp

section \<open>Range-based loops over iterators\<close>

text \<open>
  \<^verbatim>\<open>for(it = begin; it != end; ++it) use(*it);\<close> as the list of the values it dereferences.
  \<open>None\<close> is the loop that never reaches \<^verbatim>\<open>end\<close>, so that terminating is part of every
  statement about a traversal.
\<close>

partial_function (option) range_for ::
  "('s \<Rightarrow> bool) \<Rightarrow> ('s \<Rightarrow> 's) \<Rightarrow> ('s \<Rightarrow> 'b) \<Rightarrow> 's \<Rightarrow> 'b list option" where
  "range_for at_end inc deref s =
     (if at_end s then Some []
      else Option.bind (range_for at_end inc deref (inc s)) (\<lambda>xs. Some (deref s # xs)))"

text \<open>
  \<^verbatim>\<open>for(it = begin; it != end;) use(*it++, ..., *it++);\<close> with \<open>k\<close> increments per turn, the end being
  compared only once per turn.
\<close>

partial_function (option) batch_for ::
  "nat \<Rightarrow> ('s \<Rightarrow> bool) \<Rightarrow> ('s \<Rightarrow> 's) \<Rightarrow> ('s \<Rightarrow> 'b) \<Rightarrow> 's \<Rightarrow> 'b list option" where
  "batch_for k at_end inc deref s =
     (if at_end s then Some []
      else Option.bind (batch_for k at_end inc deref ((inc ^^ k) s))
             (\<lambda>xs. Some (map (\<lambda>j. deref ((inc ^^ j) s)) [0..<k] @ xs)))"

lemma range_for_funpow:
  "range_for at_end inc deref s = Some xs \<Longrightarrow> k \<le> length xs
     \<Longrightarrow> range_for at_end inc deref ((inc ^^ k) s) = Some (drop k xs)
       \<and> map (\<lambda>j. deref ((inc ^^ j) s)) [0..<k] = take k xs"
proof (induction k)
  case (Suc k)
  let ?t = "(inc ^^ k) s"
  from Suc have t: "range_for at_end inc deref ?t = Some (drop k xs)"
    and v: "map (\<lambda>j. deref ((inc ^^ j) s)) [0..<k] = take k xs" by auto
  from Suc.prems have d: "drop k xs = xs ! k # drop (Suc k) xs" by (simp add: Cons_nth_drop_Suc)
  have "range_for at_end inc deref (inc ?t) = Some (drop (Suc k) xs) \<and> deref ?t = xs ! k"
    using t unfolding d by (subst (asm) range_for.simps) (auto split: if_splits bind_splits)
  then show ?case using v Suc.prems by (simp add: take_Suc_conv_app_nth)
qed simp

lemma batch_for_range_for:
  "range_for at_end inc deref s = Some xs \<Longrightarrow> k dvd length xs \<Longrightarrow> 0 < k
     \<Longrightarrow> batch_for k at_end inc deref s = Some xs"
proof (induction "length xs" arbitrary: s xs rule: less_induct)
  case less
  show ?case
  proof (cases "at_end s")
    case True
    then show ?thesis using less.prems(1) by (subst batch_for.simps, subst (asm) range_for.simps) simp
  next
    case False
    then have "xs \<noteq> []" using less.prems(1) by (subst (asm) range_for.simps) (auto split: bind_splits)
    then have k: "k \<le> length xs" using less.prems(2) by (simp add: dvd_imp_le)
    note r = range_for_funpow[OF less.prems(1) k]
    have "batch_for k at_end inc deref ((inc ^^ k) s) = Some (drop k xs)"
      using less.hyps[of "drop k xs"] r \<open>xs \<noteq> []\<close> less.prems(2,3) k by (simp add: dvd_diff_nat)
    then show ?thesis using False r by (subst batch_for.simps) simp
  qed
qed

text \<open>
  The interface of a C++ forward iterator as its client, the range-based loop, uses it. What
  the provider promises: under its invariant the values still to come are \<open>remaining s\<close>, the
  iterator compares equal to \<^verbatim>\<open>end\<close> exactly when none is left, and an increment drops the
  value the iterator points to.
\<close>

locale forward_iter =
  fixes at_end :: "'s \<Rightarrow> bool"
    and inc :: "'s \<Rightarrow> 's"
    and deref :: "'s \<Rightarrow> 'b"
    and inv :: "'s \<Rightarrow> bool"
    and remaining :: "'s \<Rightarrow> 'b list"
  assumes end_iff: "inv s \<Longrightarrow> at_end s \<longleftrightarrow> remaining s = []"
    and step: "inv s \<Longrightarrow> \<not> at_end s \<Longrightarrow> remaining s = deref s # remaining (inc s)"
    and inv_inc: "inv s \<Longrightarrow> \<not> at_end s \<Longrightarrow> inv (inc s)"
begin

lemma range_for_remaining: "inv s \<Longrightarrow> range_for at_end inc deref s = Some (remaining s)"
proof (induction "length (remaining s)" arbitrary: s)
  case 0
  then show ?case by (subst range_for.simps) (simp add: end_iff)
next
  case (Suc n)
  then have ne: "\<not> at_end s" by (auto simp: end_iff)
  then have "range_for at_end inc deref (inc s) = Some (remaining (inc s))"
    using Suc step inv_inc by auto
  then show ?case
    using ne Suc.prems by (subst range_for.simps) (simp add: step)
qed

lemma terminates: "inv s \<Longrightarrow> \<exists>xs. range_for at_end inc deref s = Some xs"
  by (simp add: range_for_remaining)

text \<open>Incrementing \<open>k\<close> times without looking at \<^verbatim>\<open>end\<close> is safe while \<open>k\<close> values are left.\<close>

lemma remaining_funpow:
  "inv s \<Longrightarrow> k \<le> length (remaining s)
     \<Longrightarrow> inv ((inc ^^ k) s) \<and> remaining ((inc ^^ k) s) = drop k (remaining s)"
proof (induction k)
  case (Suc k)
  let ?t = "(inc ^^ k) s"
  from Suc have t: "inv ?t" "remaining ?t = drop k (remaining s)" by auto
  with Suc.prems have ne: "\<not> at_end ?t" by (simp add: end_iff)
  with t show ?case
    using step[OF t(1) ne] inv_inc[OF t(1) ne] by (simp add: drop_Suc) (metis list.sel(3) tl_drop)
qed simp

lemma deref_funpow:
  assumes "inv s" "k < length (remaining s)"
  shows "deref ((inc ^^ k) s) = remaining s ! k"
proof -
  let ?t = "(inc ^^ k) s"
  from assms have t: "inv ?t" "remaining ?t = drop k (remaining s)"
    using remaining_funpow[of s k] by auto
  with assms have "\<not> at_end ?t" by (simp add: end_iff)
  from step[OF t(1) this] t assms show ?thesis
    by (metis Cons_nth_drop_Suc list.inject)
qed

end

section \<open>Lists\<close>

lemma map_nth_upt [simp]: "map ((!) xs) [0..<length xs] = xs"
  by (rule map_nth)

lemma map2_conv_map_nth:
  "length xs = length ys \<Longrightarrow> map2 f xs ys = map (\<lambda>i. f (xs ! i) (ys ! i)) [0..<length xs]"
  by (rule nth_equalityI) simp_all

lemma prod_list_pos_nat: "(\<forall>x \<in> set xs. 0 < x) \<Longrightarrow> 0 < prod_list (xs :: nat list)"
  by (induction xs) auto

lemma drop_upt_conv: "drop k [0..<n] = [k..<n]"
  by simp

lemma concat_map_upt_mult:
  "concat (map (\<lambda>i. map (\<lambda>j. f (i * m + j)) [0..<m]) [0..<n]) = map f [0..<n * m]"
proof (induction n)
  case (Suc n)
  have "[0..<Suc n * m] = [0..<n * m] @ map (\<lambda>j. n * m + j) [0..<m]"
    by (simp add: map_add_upt add.commute upt_add_eq_append[of 0] )
       (metis add.commute le_add1 le_add_same_cancel1 map_add_upt upt_add_eq_append zero_le)
  then show ?case using Suc by simp
qed simp

section \<open>Words and natural numbers\<close>

lemma unat_add_bound:
  "unat (a :: 'w::len word) + unat b < 2 ^ LENGTH('w) \<Longrightarrow> unat (a + b) = unat a + unat b"
  by (simp add: unat_word_ariths)

lemma unat_mult_bound:
  "unat (a :: 'w::len word) * unat b < 2 ^ LENGTH('w) \<Longrightarrow> unat (a * b) = unat a * unat b"
  by (simp add: unat_word_ariths)

lemma unat_sub_bound: "b \<le> a \<Longrightarrow> unat (a - b :: 'w::len word) = unat a - unat b"
  by (simp add: unat_sub)

section \<open>Downward loops and loops over two vectors\<close>

text \<open>\<^verbatim>\<open>for(i = hi; i > 0; i--) s = f(i, s);\<close>\<close>

definition for_downto :: "nat \<Rightarrow> (nat \<Rightarrow> 's \<Rightarrow> 's) \<Rightarrow> 's \<Rightarrow> 's" where
  "for_downto hi f s = fold f (rev [1..<Suc hi]) s"

lemma for_downto_0 [simp]: "for_downto 0 f s = s"
  by (simp add: for_downto_def)

lemma for_downto_Suc: "for_downto (Suc hi) f s = for_downto hi f (f (Suc hi) s)"
  by (simp add: for_downto_def)

lemma for_upto_shift: "for_upto 1 (Suc n) f s = for_upto 0 n (\<lambda>i. f (Suc i)) s"
  by (simp add: for_upto_def fold_map comp_def flip: map_Suc_upt del: upt_Suc)

lemma for_upto_zip:
  assumes "length xs = n" "length ys = n"
  shows "for_upto 0 n (\<lambda>i s. f (xs ! i) (ys ! i) s) s = fold (\<lambda>(x, y). f x y) (zip xs ys) s"
proof -
  have "zip xs ys = map (\<lambda>i. (xs ! i, ys ! i)) [0..<n]"
    using assms by (intro nth_equalityI) simp_all
  then show ?thesis by (simp add: for_upto_def fold_map comp_def)
qed

end
