(* ===== verification/IntUtil.thy ===== *)
theory IntUtil
  imports Prelude "HOL-Library.Monad_Syntax"
begin

unbundle bit_operations_syntax

text \<open>
  The integer helpers of \<^verbatim>\<open>include/alpaka/utility.hpp\<close> and the read-modify-write functors of
  \<^verbatim>\<open>include/alpaka/operation.hpp\<close>. The C++ templates take any integral type; here an unsigned
  type of \<open>w\<close> bits is \<open>'w word\<close>, so every wrap-around of the code is a wrap-around of the model.
  Where a template is also used on values that cannot overflow it is polymorphic, and is used
  at \<open>nat\<close> as well. Division by zero, undefined in C++, is excluded by a hypothesis.
\<close>

section \<open>Ceiling and truncating division\<close>

definition divCeil :: "'a::semiring_modulo \<Rightarrow> 'a \<Rightarrow> 'a" where
  "divCeil a b = (a + b - 1) div b"

definition divExZero :: "'a::{semiring_modulo,linorder} \<Rightarrow> 'a \<Rightarrow> 'a" where
  "divExZero a b = max (a div b) 1"

lemma divCeil_nat_bounds:
  fixes a b :: nat
  assumes "0 < b"
  shows "a \<le> divCeil a b * b" and "divCeil a b * b < a + b"
proof -
  have "(a + b - 1) div b * b + (a + b - 1) mod b = a + b - 1" by simp
  moreover have "(a + b - 1) mod b < b" using assms by simp
  ultimately show "a \<le> divCeil a b * b" "divCeil a b * b < a + b"
    using assms unfolding divCeil_def by linarith+
qed

lemma divCeil_nat_le_iff: "0 < b \<Longrightarrow> divCeil a b \<le> k \<longleftrightarrow> a \<le> k * (b :: nat)"
proof
  assume b: "0 < b" and "divCeil a b \<le> k"
  then have "divCeil a b * b \<le> k * b" by simp
  with divCeil_nat_bounds(1)[OF b] show "a \<le> k * b" by (rule order_trans)
next
  assume b: "0 < b" and "a \<le> k * b"
  then have "a + b - 1 < Suc k * b" by simp
  then have "(a + b - 1) div b < Suc k" using b by (simp add: less_mult_imp_div_less)
  then show "divCeil a b \<le> k" by (simp add: divCeil_def)
qed

lemma divCeil_nat_less_iff: "0 < b \<Longrightarrow> k < divCeil a b \<longleftrightarrow> k * b < (a :: nat)"
  using divCeil_nat_le_iff[of b a k] by linarith

lemma divCeil_nat_0 [simp]: "0 < b \<Longrightarrow> divCeil 0 b = (0 :: nat)"
  by (simp add: divCeil_def)

lemma divCeil_nat_1 [simp]: "divCeil a (1 :: nat) = a"
  by (simp add: divCeil_def)

lemma divCeil_nat_mult [simp]:
  assumes "0 < b"
  shows "divCeil (k * b) b = (k :: nat)"
proof -
  from assms have "divCeil (k * b) b \<le> j \<longleftrightarrow> k \<le> j" for j by (simp add: divCeil_nat_le_iff)
  from this[of k] this[of "divCeil (k * b) b"] show ?thesis by simp
qed

lemma unat_divCeil_raw:
  fixes a b :: "'w::len word"
  assumes "b \<noteq> 0" "unat a + unat b \<le> 2 ^ LENGTH('w)"
  shows "unat (divCeil a b) = divCeil (unat a) (unat b)"
proof -
  have b: "1 \<le> unat b" using assms(1) by (metis unat_gt_0 Suc_leI One_nat_def)
  have "unat (b - 1) = unat b - 1"
    using assms(1) by (metis unat_minus_one)
  then have "unat (a + (b - 1)) = unat a + (unat b - 1)"
    using assms(2) b by (simp add: unat_word_ariths)
  then have "unat (a + b - 1) = unat a + unat b - 1"
    using b by (metis Nat.add_diff_assoc add_diff_eq)
  then show ?thesis by (simp add: divCeil_def unat_div)
qed

text \<open>
  \<^verbatim>\<open>divCeil(a, b)\<close> of an unsigned type is the least \<open>k\<close> with \<open>a \<le> k * b\<close> (over the
  mathematical integers) as long as \<open>a + b - 1\<close> fits the type.
\<close>

theorem divCeil_is_ceiling:
  fixes a b :: "'w::len word"
  assumes "b \<noteq> 0" "unat a + unat b \<le> 2 ^ LENGTH('w)"
  shows "unat (divCeil a b) \<le> k \<longleftrightarrow> unat a \<le> k * unat b"
proof -
  have "0 < unat b" using assms(1) by (simp add: unat_gt_0)
  then show ?thesis using unat_divCeil_raw[OF assms] by (simp add: divCeil_nat_le_iff)
qed

theorem divCeil_is_ceiling_witness:
  "unat (divCeil (7 :: u32) 3) \<le> 3 \<and> \<not> unat (divCeil (7 :: u32) 3) \<le> 2"
  using divCeil_is_ceiling[of "3 :: u32" 7 3] divCeil_is_ceiling[of "3 :: u32" 7 2] by simp

lemma divCeil_wraps_example: "divCeil (0xFFFFFFFF :: u32) 2 = 0"
  by (simp add: divCeil_def)

lemma divExZero_nat_ge1: "1 \<le> (divExZero a b :: nat)"
  by (simp add: divExZero_def)

section \<open>Integer powers and roots\<close>

definition intPow :: "'w::len word \<Rightarrow> 'w word \<Rightarrow> 'w word" where
  "intPow base n =
     (if n = 0 then 1 else for_upto 1 (unat n) (\<lambda>i r. r * base) base)"

lemma intPow_power: "intPow base n = base ^ unat n"
proof (cases "n = 0")
  case False
  have fp: "((\<lambda>r. r * base) ^^ k) base = base ^ Suc k" for k
    by (induction k) (simp_all add: mult.commute)
  from False have "0 < unat n" by (simp add: unat_gt_0)
  with False fp[of "unat n - 1"] show ?thesis
    by (simp add: intPow_def for_upto_const)
qed (simp add: intPow_def)

text \<open>
  The bisection loop of \<^verbatim>\<open>nthRootFloor\<close>; \<open>None\<close> is the loop that never leaves.
\<close>

partial_function (option) nthRootFloor_loop ::
  "'w::len word \<Rightarrow> 'w word \<Rightarrow> 'w word \<Rightarrow> 'w word \<Rightarrow> 'w word option" where
  "nthRootFloor_loop val n l r =
     (if l = r - 1 then Some l
      else let m = (l + r) div 2 in
           if intPow m n \<le> val then nthRootFloor_loop val n m r
           else nthRootFloor_loop val n l m)"

definition nthRootFloor :: "'w::len word \<Rightarrow> 'w word \<Rightarrow> 'w word option" where
  "nthRootFloor val n = nthRootFloor_loop val n 0 (val + 1)"

lemma unat_pow_bound:
  "unat (m :: 'w::len word) ^ k < 2 ^ LENGTH('w) \<Longrightarrow> unat (m ^ k) = unat m ^ k"
proof (induction k)
  case (Suc k)
  show ?case
  proof (cases "m = 0")
    case False
    then have "unat m ^ k \<le> unat m ^ Suc k" by (simp add: unat_gt_0 Suc_leI)
    with Suc have "unat (m ^ k) = unat m ^ k" by simp
    with Suc.prems show ?thesis by (simp add: unat_mult_bound)
  qed simp
qed simp




text \<open>Beyond that bound a probe can wrap, and the loop then steers to a wrong root.\<close>

lemma nthRootFloor_wraps_example: "nthRootFloor (0x20000 :: u32) 2 = Some 0x10000"
  unfolding nthRootFloor_def
  by (simp add: nthRootFloor_loop.simps intPow_power)

section \<open>Bit positions\<close>

text \<open>\<^verbatim>\<open>std::countl_zero\<close>: the number of zero bits above the highest set bit.\<close>

fun clz_from :: "nat \<Rightarrow> 'w::len word \<Rightarrow> nat" where
  "clz_from 0 x = 0"
| "clz_from (Suc k) x = (if bit x k then 0 else Suc (clz_from k x))"

definition countl_zero :: "'w::len word \<Rightarrow> nat" where
  "countl_zero x = clz_from LENGTH('w) x"

definition firstSetBit :: "'w::len word \<Rightarrow> 'w word" where
  "firstSetBit x = of_nat LENGTH('w) - 1 - of_nat (countl_zero x)"

definition roundDownToPowerOfTwo :: "'w::len word \<Rightarrow> 'w word" where
  "roundDownToPowerOfTwo x = push_bit (unat (firstSetBit x)) 1"

lemma clz_from_spec:
  "(\<exists>i < k. bit x i) \<Longrightarrow>
     clz_from k x < k \<and> bit x (k - 1 - clz_from k x)
       \<and> (\<forall>i < k. k - 1 - clz_from k x < i \<longrightarrow> \<not> bit x i)"
proof (induction k)
  case (Suc k)
  show ?case
  proof (cases "bit x k")
    case False
    with Suc.prems have "\<exists>i < k. bit x i" by (metis less_Suc_eq)
    from Suc.IH[OF this] False show ?thesis
      by (auto simp: less_Suc_eq)
  qed auto
qed simp

lemma word_nonzero_bit: "x \<noteq> 0 \<Longrightarrow> \<exists>i < LENGTH('w). bit (x :: 'w::len word) i"
  by (metis bit_imp_le_length bit_eq_iff bit_0_eq bot_apply bot_bool_def)

text \<open>\<open>top_bit x\<close> is the position of the highest set bit.\<close>

definition top_bit :: "'w::len word \<Rightarrow> nat" where
  "top_bit x = LENGTH('w) - 1 - countl_zero x"

lemma top_bit_spec:
  fixes x :: "'w::len word"
  assumes "x \<noteq> 0"
  shows "top_bit x < LENGTH('w)" "bit x (top_bit x)" "\<And>i. top_bit x < i \<Longrightarrow> \<not> bit x i"
proof -
  note spec = clz_from_spec[OF word_nonzero_bit[OF assms]]
  show "top_bit x < LENGTH('w)" "bit x (top_bit x)"
    using spec by (auto simp: top_bit_def countl_zero_def)
  show "\<not> bit x i" if "top_bit x < i" for i
    using spec that bit_imp_le_length[of x i] by (auto simp: top_bit_def countl_zero_def)
qed

lemma unat_firstSetBit:
  fixes x :: "'w::len word"
  assumes "x \<noteq> 0"
  shows "unat (firstSetBit x) = top_bit x"
proof -
  have lt: "countl_zero x < LENGTH('w)"
    using clz_from_spec[OF word_nonzero_bit[OF assms]] by (simp add: countl_zero_def)
  then have "firstSetBit x = of_nat (top_bit x)"
    by (simp add: firstSetBit_def top_bit_def of_nat_diff)
  moreover have "top_bit x < 2 ^ LENGTH('w)"
    using top_bit_spec(1)[OF assms] by (meson less_exp order.strict_trans)
  ultimately show ?thesis by (simp add: unat_of_nat)
qed

lemma word_bits_bounds:
  fixes x :: "'w::len word"
  assumes "bit x k" "\<And>i. k < i \<Longrightarrow> \<not> bit x i"
  shows "2 ^ k \<le> unat x" "unat x < 2 ^ Suc k"
proof -
  have bu: "bit (unat x) i \<longleftrightarrow> bit x i" for i by (simp add: bit_unsigned_iff bit_imp_le_length)
  have "take_bit (Suc k) (unat x) = unat x"
    by (rule bit_eqI) (use assms(2) in \<open>auto simp: bit_take_bit_iff bu less_Suc_eq_le intro: leI\<close>)
  then show "unat x < 2 ^ Suc k" by (metis take_bit_nat_less_exp)
  show "2 ^ k \<le> unat x" using assms(1) bu by (metis bit_iff_odd div_less even_zero not_le)
qed

lemma roundDownToPowerOfTwo_top_bit:
  fixes x :: "'w::len word"
  assumes "x \<noteq> 0"
  shows "unat (roundDownToPowerOfTwo x) = 2 ^ top_bit x \<and> 2 ^ top_bit x \<le> unat x \<and> unat x < 2 * 2 ^ top_bit x"
proof (intro conjI)
  note t = top_bit_spec[OF assms]
  have "(2 :: nat) ^ top_bit x < 2 ^ LENGTH('w)" using t(1) by simp
  then show "unat (roundDownToPowerOfTwo x) = 2 ^ top_bit x"
    using unat_pow_bound[of "2 :: 'w word" "top_bit x"] t(1)
    by (cases "LENGTH('w) = 1")
      (auto simp add: roundDownToPowerOfTwo_def unat_firstSetBit[OF assms] push_bit_eq_mult)
  show "2 ^ top_bit x \<le> unat x" "unat x < 2 * 2 ^ top_bit x"
    using word_bits_bounds[of x, OF t(2) t(3)] by simp_all
qed

text \<open>
  Property C31. \<^verbatim>\<open>roundDownToPowerOfTwo\<close> of a positive value is the greatest power of two that does
  not exceed it.
\<close>

theorem roundDownToPowerOfTwo_correct:
  fixes x :: "'w::len word"
  assumes "x \<noteq> 0"
  shows "\<exists>k < LENGTH('w). unat (roundDownToPowerOfTwo x) = 2 ^ k
           \<and> 2 ^ k \<le> unat x \<and> unat x < 2 * 2 ^ k"
  using roundDownToPowerOfTwo_top_bit[OF assms] top_bit_spec(1)[OF assms] by blast

theorem roundDownToPowerOfTwo_correct_witness:
  "\<exists>k < 32. unat (roundDownToPowerOfTwo (100 :: u32)) = 2 ^ k
     \<and> 2 ^ k \<le> (100 :: nat) \<and> (100 :: nat) < 2 * 2 ^ k"
  using roundDownToPowerOfTwo_correct[of "100 :: u32"] by simp

section \<open>Power by squaring\<close>

lemma word_half_less:
  fixes e :: "'w::len word"
  assumes "e \<noteq> 0"
  shows "unat (e div 2) < unat e"
proof -
  have "0 < unat e" using assms by (simp add: unat_gt_0)
  then show ?thesis by (cases "LENGTH('w) = 1") (simp_all add: unat_div)
qed

function ipow :: "'w::len word \<Rightarrow> 'w word \<Rightarrow> 'w word" where
  "ipow base exponent =
     (if exponent = 0 then 1
      else let half = ipow base (exponent div 2);
               result = half * half
           in if exponent mod 2 \<noteq> 0 then result * base else result)"
  by pat_completeness auto

termination
  by (relation "measure (\<lambda>(b, e). unat e)") (simp_all add: word_half_less)

declare ipow.simps [simp del]

lemma unat_half: "unat ((e :: 'w::len word) div 2) = unat e div 2"
  using unsigned_less[of e, where ?'a = nat] by (cases "LENGTH('w) = 1") (auto simp: unat_div)

lemma word_odd_iff: "(e :: 'w::len word) mod 2 \<noteq> 0 \<longleftrightarrow> odd (unat e)"
proof (cases "LENGTH('w) = 1")
  case True
  then have "unat e < 2" using unsigned_less[of e, where ?'a = nat] by simp
  then have "unat e = 0 \<or> unat e = 1" by auto
  then have "e = 0 \<or> e = 1" by (metis unat_0 unat_1 word_unat_eq_iff)
  with True show ?thesis by auto
next
  case False
  then have "unat (e mod 2) = unat e mod 2" by (simp add: unat_mod)
  then show ?thesis by (metis odd_iff_mod_2_eq_one unat_eq_zero zero_neq_one parity_cases)
qed

lemma word_mod2_iff: "(e :: 'w::len word) mod 2 = 1 \<longleftrightarrow> odd (unat e)"
  using word_odd_iff[of e] by simp

lemma ipow_power: "ipow base e = base ^ unat e"
proof (induction base e rule: ipow.induct)
  case (1 base e)
  show ?case
  proof (cases "e = 0")
    case False
    have "unat e = unat e div 2 + unat e div 2 + (if odd (unat e) then 1 else 0)"
      by (auto elim: evenE oddE)
    then have "base ^ unat e
        = base ^ (unat e div 2 + unat e div 2 + (if odd (unat e) then 1 else 0))" by argo
    then have "base ^ unat e = base ^ (unat e div 2) * base ^ (unat e div 2)
        * (if odd (unat e) then base else 1)"
      by (simp only: power_add) simp
    with 1[OF False] False show ?thesis
      by (subst ipow.simps) (simp add: unat_half word_mod2_iff Let_def)
  qed (simp add: ipow.simps)
qed

text \<open>
  Property C32. \<^verbatim>\<open>ipow\<close>, which squares its way up, is the power of the ring of machine integers, and
  so agrees with the repeated multiplication of \<^verbatim>\<open>intPow\<close> on every input.
\<close>

theorem ipow_eq_intPow: "ipow base e = base ^ unat e \<and> ipow base e = intPow base e"
  by (simp add: ipow_power intPow_power)

section \<open>Read-modify-write functors\<close>

text \<open>
  Each functor of \<^verbatim>\<open>alpaka::operation\<close> takes the address it updates; the model takes the value
  stored there and returns the value stored afterwards with the functor's result.
\<close>

type_synonym 'a rmw = "'a \<Rightarrow> 'a \<times> 'a"

definition op_Add :: "'a::plus \<Rightarrow> 'a rmw" where "op_Add v ref = (ref + v, ref)"
definition op_Sub :: "'a::minus \<Rightarrow> 'a rmw" where "op_Sub v ref = (ref - v, ref)"
definition op_Min :: "'a::linorder \<Rightarrow> 'a rmw" where "op_Min v ref = (min ref v, ref)"
definition op_Max :: "'a::linorder \<Rightarrow> 'a rmw" where "op_Max v ref = (max ref v, ref)"
definition op_Exch :: "'a \<Rightarrow> 'a rmw" where "op_Exch v ref = (v, ref)"
definition op_Inc :: "'a::{linorder,zero,one,plus} \<Rightarrow> 'a rmw" where
  "op_Inc v ref = (if ref \<ge> v then 0 else ref + 1, ref)"
definition op_Dec :: "'a::{linorder,zero,one,minus} \<Rightarrow> 'a rmw" where
  "op_Dec v ref = (if ref = 0 \<or> ref > v then v else ref - 1, ref)"
definition op_And :: "'a::semiring_bit_operations \<Rightarrow> 'a rmw" where "op_And v ref = (ref AND v, ref)"
definition op_Or :: "'a::semiring_bit_operations \<Rightarrow> 'a rmw" where "op_Or v ref = (ref OR v, ref)"
definition op_Xor :: "'a::semiring_bit_operations \<Rightarrow> 'a rmw" where "op_Xor v ref = (ref XOR v, ref)"
definition op_Cas :: "'a \<Rightarrow> 'a \<Rightarrow> 'a rmw" where
  "op_Cas compare v ref = (if ref = compare then v else ref, ref)"

text \<open>The floating point overload compares bit patterns; \<open>bits\<close> is the union's other view.\<close>

definition op_CasBits :: "('a \<Rightarrow> 'b) \<Rightarrow> 'a \<Rightarrow> 'a \<Rightarrow> 'a rmw" where
  "op_CasBits bits compare v ref = (if bits ref = bits compare then v else ref, ref)"

lemma op_Inc_cycles:
  fixes v ref :: "'w::len word"
  assumes "ref \<le> v"
  shows "fst (op_Inc v ref) = (if ref = v then 0 else ref + 1) \<and> fst (op_Inc v ref) \<le> v"
  using assms inc_le[of ref v] by (auto simp: op_Inc_def)

text \<open>
  Within \<open>[0, bound]\<close> the wrapping increment and decrement stay in range and undo one
  another, so a counter driven by them runs through a cycle of \<open>bound + 1\<close> values.
\<close>

theorem op_Inc_Dec_inverse:
  fixes v ref :: "'w::len word"
  assumes "ref \<le> v"
  shows "fst (op_Inc v ref) \<le> v \<and> fst (op_Dec v ref) \<le> v
       \<and> fst (op_Dec v (fst (op_Inc v ref))) = ref \<and> fst (op_Inc v (fst (op_Dec v ref))) = ref"
proof -
  have up: "ref + 1 \<noteq> 0 \<and> ref + 1 \<le> v" if "ref \<noteq> v"
  proof -
    have lt: "ref < v" using that assms by simp
    then have "\<not> ref + 1 \<le> ref" by (auto dest!: inc_less_eq_triv_imp)
    with inc_le[OF lt] show ?thesis by auto
  qed
  have down: "ref - 1 < ref" if "ref \<noteq> 0"
    using that by (metis word_less_nat_alt unat_minus_one diff_less unat_gt_0 zero_less_one)
  show ?thesis
  proof (cases "ref = v")
    case True
    with down show ?thesis by (auto simp: op_Inc_def op_Dec_def)
  next
    case False
    with up have u: "ref + 1 \<noteq> 0" "ref + 1 \<le> v" by auto
    from False assms have "\<not> v \<le> ref" by simp
    moreover have "\<not> v \<le> ref - 1" if "ref \<noteq> 0"
      using down[OF that] assms by simp
    ultimately show ?thesis
      using u down assms by (cases "ref = 0") (auto simp: op_Inc_def op_Dec_def not_less)
  qed
qed

theorem op_Inc_Dec_inverse_witness:
  "fst (op_Dec (5 :: u32) (fst (op_Inc 5 3))) = 3 \<and> fst (op_Inc (5 :: u32) (fst (op_Dec 5 3))) = 3"
  using op_Inc_Dec_inverse[of "3 :: u32" 5] by simp

end
