(* ===== verification/VecModel.thy ===== *)
theory VecModel
  imports IntUtil
begin

unbundle bit_operations_syntax

text \<open>
  \<^verbatim>\<open>alpaka::Vec\<close> (\<^verbatim>\<open>include/alpaka/Vec.hpp\<close>) and the compile-time vectors of
  \<^verbatim>\<open>include/alpaka/CVec.hpp\<close>. A \<^verbatim>\<open>Vec<T, dim>\<close> is the list of its \<open>dim\<close> components, component
  \<open>0\<close> first, which the index code treats as the slowest dimension. The storage policy is not
  part of the value: \<^verbatim>\<open>ArrayStorage\<close> and \<^verbatim>\<open>detail::CVec\<close> hold the same components.
\<close>

section \<open>Construction and access\<close>

definition vec_generate :: "nat \<Rightarrow> (nat \<Rightarrow> 'a) \<Rightarrow> 'a vec" where
  "vec_generate dim generator = map generator [0..<dim]"

definition vec_fill :: "nat \<Rightarrow> 'a \<Rightarrow> 'a vec" where
  "vec_fill dim v = vec_generate dim (\<lambda>_. v)"

definition vec_x :: "'a vec \<Rightarrow> 'a" where "vec_x v = v ! (length v - 1)"
definition vec_y :: "'a vec \<Rightarrow> 'a" where "vec_y v = v ! (length v - 2)"
definition vec_z :: "'a vec \<Rightarrow> 'a" where "vec_z v = v ! (length v - 3)"
definition vec_w :: "'a vec \<Rightarrow> 'a" where "vec_w v = v ! (length v - 4)"

definition vec_back :: "'a vec \<Rightarrow> 'a" where "vec_back v = v ! (length v - 1)"

definition vec_revert :: "'a::zero vec \<Rightarrow> 'a vec" where
  "vec_revert v =
     for_upto 0 (length v) (\<lambda>i inverted. inverted[length v - 1 - i := v ! i])
       (replicate (length v) 0)"

definition vec_neg :: "'a::uminus vec \<Rightarrow> 'a vec" where
  "vec_neg v = vec_generate (length v) (\<lambda>i. - (v ! i))"

text \<open>\<^verbatim>\<open>pCast<T_To>\<close> converts component by component.\<close>

definition vec_pCast :: "('a \<Rightarrow> 'b) \<Rightarrow> 'a vec \<Rightarrow> 'b vec" where
  "vec_pCast cast input = vec_generate (length input) (\<lambda>idx. cast (input ! idx))"

section \<open>Shrinking, assigning, removing\<close>

definition vec_rshrink :: "nat \<Rightarrow> 'a::zero vec \<Rightarrow> 'a vec" where
  "vec_rshrink n v =
     for_upto 0 n (\<lambda>i result. result[n - 1 - i := v ! (length v - 1 - i)]) (replicate n 0)"

definition vec_eraseBack :: "'a::zero vec \<Rightarrow> 'a vec" where
  "vec_eraseBack v =
     for_upto 0 (length v - 1) (\<lambda>i result. result[i := v ! i]) (replicate (length v - 1) 0)"

definition vec_rshrinkFrom :: "nat \<Rightarrow> nat \<Rightarrow> 'a::zero vec \<Rightarrow> 'a vec" where
  "vec_rshrinkFrom n startIdx v =
     for_upto 0 n
       (\<lambda>i result. result[n - 1 - i := v ! ((length v + startIdx - i) mod length v)])
       (replicate n 0)"

definition vec_assign :: "nat \<Rightarrow> 'a vec \<Rightarrow> 'a \<Rightarrow> 'a vec" where
  "vec_assign elementIdx v val = v[elementIdx := val]"

text \<open>\<^verbatim>\<open>rAssign\<close> without an index writes the last component; with one it indexes from the front.\<close>

definition vec_rAssignAt :: "nat \<Rightarrow> 'a vec \<Rightarrow> 'a \<Rightarrow> 'a vec" where
  "vec_rAssignAt elementIdx v val = v[elementIdx := val]"

definition vec_rAssign :: "'a vec \<Rightarrow> 'a \<Rightarrow> 'a vec" where
  "vec_rAssign v val = vec_rAssignAt (length v - 1) v val"

definition vec_remove :: "nat \<Rightarrow> 'a::zero vec \<Rightarrow> 'a vec" where
  "vec_remove dimToRemove v =
     for_upto 0 (length v - 1)
       (\<lambda>i result. result[i := v ! (if i \<ge> dimToRemove then i + 1 else i)])
       (replicate (length v - 1) 0)"

section \<open>Reductions and comparisons\<close>

definition vec_product :: "'a::times vec \<Rightarrow> 'a" where
  "vec_product v = for_upto 1 (length v) (\<lambda>i result. result * v ! i) (v ! 0)"

definition vec_sum :: "'a::plus vec \<Rightarrow> 'a" where
  "vec_sum v = for_upto 1 (length v) (\<lambda>i result. result + v ! i) (v ! 0)"

definition vec_eq :: "'a vec \<Rightarrow> 'a vec \<Rightarrow> bool" where
  "vec_eq v rhs = for_upto 0 (length v) (\<lambda>i result. result \<and> v ! i = rhs ! i) True"

definition vec_neq :: "'a vec \<Rightarrow> 'a vec \<Rightarrow> bool" where
  "vec_neq v rhs = (\<not> vec_eq v rhs)"

definition vec_min :: "'a::{linorder,zero} vec \<Rightarrow> 'a vec \<Rightarrow> 'a vec" where
  "vec_min v rhs =
     for_upto 0 (length v) (\<lambda>d result. result[d := min (v ! d) (rhs ! d)])
       (replicate (length v) 0)"

text \<open>
  \<^verbatim>\<open>reduceRange\<close> splits the range at its midpoint and combines the halves; with SYCL it runs
  from the left instead.
\<close>

function vec_reduceRange :: "('a \<Rightarrow> 'a \<Rightarrow> 'a) \<Rightarrow> 'a vec \<Rightarrow> nat \<Rightarrow> nat \<Rightarrow> 'a" where
  "vec_reduceRange f v start stop =
     (let size = stop - start in
      if size \<le> 1 then v ! start
      else let mid = start + size div 2 in
           f (vec_reduceRange f v start mid) (vec_reduceRange f v mid stop))"
  by pat_completeness auto
termination
  by (relation "measure (\<lambda>(f, v, start, stop). stop - start)") auto

declare vec_reduceRange.simps [simp del]

definition vec_reduce :: "('a \<Rightarrow> 'a \<Rightarrow> 'a) \<Rightarrow> 'a vec \<Rightarrow> 'a" where
  "vec_reduce f v = vec_reduceRange f v 0 (length v)"

definition vec_reduceSycl :: "('a \<Rightarrow> 'a \<Rightarrow> 'a) \<Rightarrow> 'a vec \<Rightarrow> 'a" where
  "vec_reduceSycl f v = for_upto 1 (length v) (\<lambda>i result. f result (v ! i)) (v ! 0)"

section \<open>Swizzle and references\<close>

definition vec_swizzle :: "'a vec \<Rightarrow> nat list \<Rightarrow> 'a vec" where
  "vec_swizzle v sel = map (\<lambda>i. v ! i) sel"

text \<open>
  \<^verbatim>\<open>v.ref(sel) = w\<close>: the vector of references is assigned component by component, in order, so a
  repeated index keeps the last value written.
\<close>

definition vec_refAssign :: "'a vec \<Rightarrow> nat list \<Rightarrow> 'a vec \<Rightarrow> 'a vec" where
  "vec_refAssign v sel w = for_upto 0 (length sel) (\<lambda>i r. r[sel ! i := w ! i]) v"

text \<open>\<^verbatim>\<open>v.ref(sel) op= w\<close> reads and writes through the references.\<close>

definition vec_refUpdate :: "('a \<Rightarrow> 'a \<Rightarrow> 'a) \<Rightarrow> 'a vec \<Rightarrow> nat list \<Rightarrow> 'a vec \<Rightarrow> 'a vec" where
  "vec_refUpdate f v sel w = for_upto 0 (length sel) (\<lambda>i r. r[sel ! i := f (r ! (sel ! i)) (w ! i)]) v"

definition vec_assignSel :: "nat list \<Rightarrow> 'a vec \<Rightarrow> 'a vec \<Rightarrow> 'a vec" where
  "vec_assignSel sel v w = vec_refAssign v sel w"

section \<open>Element-wise operators\<close>

text \<open>The three operand shapes of \<^verbatim>\<open>ALPAKA_VECTOR_BINARY_OP\<close> and the two of the assignment operators.\<close>

definition vec_op :: "('a \<Rightarrow> 'b \<Rightarrow> 'c) \<Rightarrow> 'a vec \<Rightarrow> 'b vec \<Rightarrow> 'c vec" where
  "vec_op f lhs rhs = map (\<lambda>i. f (lhs ! i) (rhs ! i)) [0..<length lhs]"

definition vec_opS :: "('a \<Rightarrow> 'b \<Rightarrow> 'c) \<Rightarrow> 'a vec \<Rightarrow> 'b \<Rightarrow> 'c vec" where
  "vec_opS f lhs rhs = map (\<lambda>i. f (lhs ! i) rhs) [0..<length lhs]"

definition vec_Sop :: "('a \<Rightarrow> 'b \<Rightarrow> 'c) \<Rightarrow> 'a \<Rightarrow> 'b vec \<Rightarrow> 'c vec" where
  "vec_Sop f lhs rhs = map (\<lambda>i. f lhs (rhs ! i)) [0..<length rhs]"

definition vec_assignOp :: "('a \<Rightarrow> 'b \<Rightarrow> 'a) \<Rightarrow> 'a vec \<Rightarrow> 'b vec \<Rightarrow> 'a vec" where
  "vec_assignOp f v rhs = for_upto 0 (length v) (\<lambda>i r. r[i := f (r ! i) (rhs ! i)]) v"

definition vec_assignOpS :: "('a \<Rightarrow> 'b \<Rightarrow> 'a) \<Rightarrow> 'a vec \<Rightarrow> 'b \<Rightarrow> 'a vec" where
  "vec_assignOpS f v rhs = for_upto 0 (length v) (\<lambda>i r. r[i := f (r ! i) rhs]) v"

abbreviation "vec_add \<equiv> vec_op (+)"
abbreviation "vec_sub \<equiv> vec_op (-)"
abbreviation "vec_mul \<equiv> vec_op (*)"
abbreviation "vec_div \<equiv> vec_op (div)"
abbreviation "vec_mod \<equiv> vec_op (mod)"
abbreviation "vec_le \<equiv> vec_op (\<le>)"
abbreviation "vec_less \<equiv> vec_op (<)"

definition vec_divCeil :: "'a::semiring_modulo vec \<Rightarrow> 'a vec \<Rightarrow> 'a vec" where
  "vec_divCeil a b = vec_div (vec_sub (vec_add a b) (vec_fill (length a) 1)) b"

definition vec_divExZero :: "'a::{semiring_modulo,linorder} vec \<Rightarrow> 'a vec \<Rightarrow> 'a vec" where
  "vec_divExZero a b =
     (let tmp = vec_div a b in
      for_upto 0 (length a) (\<lambda>d tmp. tmp[d := max (tmp ! d) 1]) tmp)"

section \<open>What the loops compute\<close>

lemma vec_generate_nth [vec_simps, simp]:
  "i < n \<Longrightarrow> vec_generate n f ! i = f i" "length (vec_generate n f) = n"
  by (simp_all add: vec_generate_def)

lemma vec_fill_replicate: "vec_fill n v = replicate n v"
  by (simp add: vec_fill_def vec_generate_def map_replicate_trivial)

lemma vec_fill_nth [vec_simps, simp]: "i < n \<Longrightarrow> vec_fill n v ! i = v" "length (vec_fill n v) = n"
  by (simp_all add: vec_fill_replicate)

lemma vec_x_last: "v \<noteq> [] \<Longrightarrow> vec_x v = last v"
  by (simp add: vec_x_def last_conv_nth)

lemma vec_back_last: "v \<noteq> [] \<Longrightarrow> vec_back v = last v"
  by (simp add: vec_back_def last_conv_nth)

text \<open>A loop that writes its results from the back fills the vector as well.\<close>

lemma for_upto_assign_rev:
  assumes "length r = n"
  shows "for_upto 0 n (\<lambda>i r. r[n - 1 - i := f i]) r = rev (map f [0..<n])"
proof -
  have "k \<le> n \<Longrightarrow> for_upto 0 k (\<lambda>i r. r[n - 1 - i := f i]) r = take (n - k) r @ rev (map f [0..<k])" for k
  proof (induction k)
    case (Suc k)
    then have e: "n - k = Suc (n - Suc k)" by simp
    have "take (n - k) r = take (n - Suc k) r @ [r ! (n - Suc k)]"
      using Suc.prems assms by (simp add: e take_Suc_conv_app_nth)
    then show ?case
      using Suc assms by (simp add: for_upto_Suc list_update_append)
  qed (use assms in simp)
  from this[of n] assms show ?thesis by simp
qed

lemma vec_revert_rev [vec_simps, simp]: "vec_revert v = rev v"
  unfolding vec_revert_def by (subst for_upto_assign_rev) simp_all

lemma rev_map_upt_drop: "n \<le> length v \<Longrightarrow>
    rev (map (\<lambda>i. v ! (length v - 1 - i)) [0..<n]) = drop (length v - n) v"
  by (rule nth_equalityI) (simp_all add: rev_nth)

lemma vec_rshrink_drop [vec_simps]: "n \<le> length v \<Longrightarrow> vec_rshrink n v = drop (length v - n) v"
  unfolding vec_rshrink_def by (subst for_upto_assign_rev) (simp, rule rev_map_upt_drop)

lemma vec_eraseBack_butlast [vec_simps]: "vec_eraseBack v = butlast v"
  by (simp add: vec_eraseBack_def loop_simps butlast_conv_take list_eq_iff_nth_eq)

lemma vec_remove_split [vec_simps]:
  "k < length v \<Longrightarrow> vec_remove k v = take k v @ drop (Suc k) v"
  by (simp add: vec_remove_def loop_simps) (auto simp: list_eq_iff_nth_eq nth_append)

lemma length_vec_remove: "length (vec_remove k v) = length v - 1"
  by (simp add: vec_remove_def loop_simps)

lemma for_upto_fold_nth:
  "v \<noteq> [] \<Longrightarrow> for_upto 1 (length v) (\<lambda>i result. f result (v ! i)) (v ! 0) = foldl f (hd v) (tl v)"
proof (induction v rule: rev_induct)
  case (snoc x xs)
  show ?case
  proof (cases "xs = []")
    case False
    have "for_upto 1 (length xs) (\<lambda>i result. f result ((xs @ [x]) ! i)) ((xs @ [x]) ! 0)
        = for_upto 1 (length xs) (\<lambda>i result. f result (xs ! i)) (xs ! 0)"
      using False by (intro for_upto_cong) (auto simp: nth_append)
    with False snoc show ?thesis by (simp add: for_upto_Suc Suc_leI)
  qed simp
qed simp

lemma foldl_times_prod_list: "foldl (*) a xs = a * prod_list (xs :: 'a::comm_monoid_mult list)"
  by (induction xs arbitrary: a) (simp_all add: ac_simps)

lemma foldl_plus_sum_list: "foldl (+) a xs = a + sum_list (xs :: 'a::comm_monoid_add list)"
  by (induction xs arbitrary: a) (simp_all add: ac_simps)

lemma vec_product_prod_list [vec_simps]:
  "v \<noteq> [] \<Longrightarrow> vec_product v = prod_list (v :: 'a::comm_monoid_mult vec)"
  unfolding vec_product_def for_upto_fold_nth by (cases v) (simp_all add: foldl_times_prod_list)

lemma vec_sum_sum_list [vec_simps]:
  "v \<noteq> [] \<Longrightarrow> vec_sum v = sum_list (v :: 'a::comm_monoid_add vec)"
  unfolding vec_sum_def for_upto_fold_nth by (cases v) (simp_all add: foldl_plus_sum_list)

lemma vec_eq_iff [vec_simps]:
  assumes "length v = length rhs"
  shows "vec_eq v rhs \<longleftrightarrow> v = rhs"
proof -
  have "for_upto 0 k (\<lambda>i result. result \<and> v ! i = rhs ! i) True \<longleftrightarrow> (\<forall>i < k. v ! i = rhs ! i)" for k
    by (induction k) (auto simp: for_upto_Suc less_Suc_eq)
  with assms show ?thesis by (auto simp: vec_eq_def list_eq_iff_nth_eq)
qed

lemma vec_min_nth [vec_simps, simp]:
  "i < length v \<Longrightarrow> vec_min v w ! i = min (v ! i) (w ! i)" "length (vec_min v w) = length v"
  by (simp_all add: vec_min_def loop_simps)

lemma vec_op_nth [vec_simps, simp]:
  "i < length v \<Longrightarrow> vec_op f v w ! i = f (v ! i) (w ! i)" "length (vec_op f v w) = length v"
  by (simp_all add: vec_op_def)

lemma vec_opS_nth [vec_simps, simp]:
  "i < length v \<Longrightarrow> vec_opS f v s ! i = f (v ! i) s" "length (vec_opS f v s) = length v"
  by (simp_all add: vec_opS_def)

lemma vec_Sop_nth [vec_simps, simp]:
  "i < length v \<Longrightarrow> vec_Sop f s v ! i = f s (v ! i)" "length (vec_Sop f s v) = length v"
  by (simp_all add: vec_Sop_def)

lemma vec_op_map2: "length v = length w \<Longrightarrow> vec_op f v w = map2 f v w"
  by (simp add: vec_op_def map2_conv_map_nth)

lemma vec_op_Nil [simp]: "vec_op f [] w = []"
  by (simp add: vec_op_def)

lemma vec_op_Cons [simp]: "vec_op f (x # v) (y # w) = f x y # vec_op f v w"
  by (rule nth_equalityI) (simp_all add: nth_Cons split: nat.split)

lemma vec_assignOp_eq [vec_simps]: "vec_assignOp f v w = vec_op f v w"
proof -
  have "k \<le> length v \<Longrightarrow> for_upto 0 k (\<lambda>i r. r[i := f (r ! i) (w ! i)]) v
      = map (\<lambda>i. f (v ! i) (w ! i)) [0..<k] @ drop k v" for k
  proof (induction k)
    case (Suc k)
    then have "drop k v = v ! k # drop (Suc k) v" by (simp add: Cons_nth_drop_Suc)
    with Suc show ?case by (simp add: for_upto_Suc list_update_append nth_append)
  qed simp
  from this[of "length v"] show ?thesis by (simp add: vec_assignOp_def vec_op_def)
qed

lemma vec_divCeil_nth [vec_simps, simp]:
  "i < length a \<Longrightarrow> vec_divCeil a b ! i = divCeil (a ! i) (b ! i)"
  "length (vec_divCeil a b) = length a"
  by (simp_all add: vec_divCeil_def divCeil_def)

lemma vec_divExZero_nth:
  assumes "i < length a"
  shows "vec_divExZero a b ! i = divExZero (a ! i) (b ! i)"
proof -
  have "for_upto 0 k (\<lambda>d tmp. tmp[d := max (tmp ! d) 1]) t
      = map (\<lambda>d. max (t ! d) 1) [0..<k] @ drop k t" if "k \<le> length t" for k and t :: "'a vec"
    using that
  proof (induction k)
    case (Suc k)
    then have "drop k t = t ! k # drop (Suc k) t" by (simp add: Cons_nth_drop_Suc)
    with Suc show ?case by (simp add: for_upto_Suc list_update_append nth_append)
  qed simp
  with assms show ?thesis by (simp add: vec_divExZero_def Let_def divExZero_def)
qed

section \<open>Tree reduction\<close>

lemma foldl_assoc:
  assumes "\<And>a b c. f (f a b) c = f a (f b c)"
  shows "foldl f (f a b) xs = f a (foldl f b xs)"
  by (induction xs arbitrary: b) (simp_all add: assms)

lemma vec_reduceRange_foldl:
  assumes assoc: "\<And>a b c. f (f a b) c = f a (f b c)"
  shows "start < stop
     \<Longrightarrow> vec_reduceRange f v start stop = foldl f (v ! start) (map ((!) v) [Suc start..<stop])"
proof (induction "stop - start" arbitrary: start stop rule: less_induct)
  case less
  show ?case
  proof (cases "stop - start \<le> 1")
    case True
    with less.prems show ?thesis by (subst vec_reduceRange.simps) auto
  next
    case False
    define mid where "mid = start + (stop - start) div 2"
    have m: "start < mid" "mid < stop" using False by (auto simp: mid_def)
    have split: "[Suc start..<stop] = [Suc start..<mid] @ mid # [Suc mid..<stop]"
      using m by (metis Suc_leI upt_conv_Cons upt_add_eq_append le_add_diff_inverse less_imp_le)
    have "vec_reduceRange f v start stop
        = f (vec_reduceRange f v start mid) (vec_reduceRange f v mid stop)"
      using False by (subst vec_reduceRange.simps) (simp add: mid_def Let_def)
    also have "\<dots> = f (foldl f (v ! start) (map ((!) v) [Suc start..<mid]))
        (foldl f (v ! mid) (map ((!) v) [Suc mid..<stop]))"
      using m by (simp add: less.hyps)
    finally show ?thesis by (simp add: split foldl_assoc[of f, OF assoc])
  qed
qed

text \<open>
  Property C33. The tree reduction of \<^verbatim>\<open>Vec::reduce\<close> and the left-to-right loop that replaces it under
  SYCL agree for every associative operation, and both are the left fold over the components.
\<close>

theorem vec_reduce_tree_eq_loop:
  assumes "v \<noteq> []" and "\<And>a b c. f (f a b) c = f a (f b c)"
  shows "vec_reduce f v = foldl f (hd v) (tl v) \<and> vec_reduceSycl f v = vec_reduce f v"
proof -
  have "map ((!) v) [Suc 0..<length v] = tl v"
    using assms(1) by (cases v) (simp_all add: map_nth map_Suc_upt[symmetric] comp_def del: upt_Suc)
  then have "vec_reduce f v = foldl f (hd v) (tl v)"
    using assms vec_reduceRange_foldl[of f 0 "length v" v] by (simp add: vec_reduce_def hd_conv_nth)
  then show ?thesis
    using for_upto_fold_nth[OF assms(1), of f] by (simp add: vec_reduceSycl_def)
qed

theorem vec_reduce_tree_eq_loop_witness:
  "vec_reduce (+) [1, 2, 3, 4, 5 :: nat] = 15 \<and> vec_reduceSycl (+) [1, 2, 3, 4, 5 :: nat] = 15"
  using vec_reduce_tree_eq_loop[of "[1, 2, 3, 4, 5 :: nat]" "(+)"] by simp

section \<open>Assigning through a selection\<close>

lemma vec_refUpdate_nth:
  assumes "distinct sel" "set sel \<subseteq> {..<length v}" "length w = length sel"
  shows "length (vec_refUpdate f v sel w) = length v"
    and "k < length sel \<Longrightarrow> vec_refUpdate f v sel w ! (sel ! k) = f (v ! (sel ! k)) (w ! k)"
    and "i \<notin> set sel \<Longrightarrow> vec_refUpdate f v sel w ! i = v ! i"
proof -
  define r where "r k = for_upto 0 k (\<lambda>i r. r[sel ! i := f (r ! (sel ! i)) (w ! i)]) v" for k
  have len: "length (r k) = length v" for k
    unfolding r_def by (rule length_for_upto) simp
  have inv: "k \<le> length sel \<Longrightarrow> (\<forall>j < k. r k ! (sel ! j) = f (v ! (sel ! j)) (w ! j))
      \<and> (\<forall>i. i \<notin> set (take k sel) \<longrightarrow> r k ! i = v ! i)" for k
  proof (induction k)
    case (Suc k)
    then have k: "k < length sel" by simp
    have fresh: "sel ! k \<notin> set (take k sel)"
      using assms(1) k by (auto simp: in_set_conv_nth nth_eq_iff_index_eq)
    have step: "r (Suc k) = (r k)[sel ! k := f (v ! (sel ! k)) (w ! k)]"
      using Suc fresh by (simp add: r_def for_upto_Suc)
    have "sel ! k < length v" using assms(2) k nth_mem by fastforce
    moreover have "sel ! k \<noteq> sel ! j" if "j < k" for j
      using assms(1) k that by (simp add: nth_eq_iff_index_eq)
    ultimately show ?case
      using Suc k len[of k] by (auto simp: step less_Suc_eq take_Suc_conv_app_nth)
  qed (simp add: r_def)
  have res: "vec_refUpdate f v sel w = r (length sel)"
    by (simp add: vec_refUpdate_def r_def)
  show "length (vec_refUpdate f v sel w) = length v"
    and "k < length sel \<Longrightarrow> vec_refUpdate f v sel w ! (sel ! k) = f (v ! (sel ! k)) (w ! k)"
    and "i \<notin> set sel \<Longrightarrow> vec_refUpdate f v sel w ! i = v ! i"
    using inv[of "length sel"] len[of "length sel"] by (simp_all add: res)
qed

lemma vec_refAssign_eq: "vec_refAssign v sel w = vec_refUpdate (\<lambda>_ x. x) v sel w"
  by (simp add: vec_refAssign_def vec_refUpdate_def)

text \<open>
  Property C34. Assigning a vector through \<^verbatim>\<open>ref(sel)\<close> and swizzling with the same selection gives the
  assigned vector back, and no other component changes, when the selection has no repetition.
\<close>

theorem vec_assignSel_swizzle:
  assumes "distinct sel" "set sel \<subseteq> {..<length v}" "length w = length sel"
  shows "vec_swizzle (vec_assignSel sel v w) sel = w
       \<and> (\<forall>i. i \<notin> set sel \<longrightarrow> vec_assignSel sel v w ! i = v ! i)"
proof
  show "vec_swizzle (vec_assignSel sel v w) sel = w"
    by (rule nth_equalityI)
      (simp_all add: assms(3) vec_swizzle_def vec_assignSel_def vec_refAssign_eq vec_refUpdate_nth[OF assms])
  show "\<forall>i. i \<notin> set sel \<longrightarrow> vec_assignSel sel v w ! i = v ! i"
    using vec_refUpdate_nth(3)[OF assms] by (simp add: vec_assignSel_def vec_refAssign_eq)
qed

theorem vec_assignSel_swizzle_witness:
  "vec_swizzle (vec_assignSel [2, 0] [1, 2, 3 :: nat] [7, 8]) [2, 0] = [7, 8]"
  using vec_assignSel_swizzle[of "[2, 0]" "[1, 2, 3 :: nat]" "[7, 8]"] by simp

section \<open>Compile-time vectors\<close>

text \<open>
  \<^verbatim>\<open>detail::CVec::operator[]\<close> starts from the first value and folds over the others with a running
  index; an index that matches none of them leaves the first value.
\<close>

fun cvec_scan :: "nat \<Rightarrow> nat \<Rightarrow> 'a list \<Rightarrow> 'a \<Rightarrow> 'a" where
  "cvec_scan idx i [] result = result"
| "cvec_scan idx i (v # vs) result = (if idx = i then v else cvec_scan idx (Suc i) vs result)"

definition cvec_index :: "'a list \<Rightarrow> nat \<Rightarrow> 'a" where
  "cvec_index vs idx = (if length vs > 1 then cvec_scan idx 1 (tl vs) (hd vs) else hd vs)"

definition iotaCVec :: "nat \<Rightarrow> nat vec" where
  "iotaCVec dim = [0..<dim]"

fun fillCVec :: "nat \<Rightarrow> 'a \<Rightarrow> 'a vec" where
  "fillCVec dim val = (if dim \<le> 1 then [val] else fillCVec (dim - 1) val @ [val])"

declare fillCVec.simps [simp del]

definition cvec_combine :: "'a list \<Rightarrow> 'a list \<Rightarrow> 'a list" where
  "cvec_combine is1 is2 = is1 @ is2"

fun cvec_concatenate :: "'a list list \<Rightarrow> 'a list" where
  "cvec_concatenate [] = []"
| "cvec_concatenate [xs] = xs"
| "cvec_concatenate (first # rest) = cvec_combine first (cvec_concatenate rest)"

definition cvec_selectValue :: "bool \<Rightarrow> 'a \<Rightarrow> 'a list" where
  "cvec_selectValue pred v = (if pred then [] else [v])"

definition cvec_filterValues :: "('a \<Rightarrow> bool) \<Rightarrow> 'a list \<Rightarrow> 'a list" where
  "cvec_filterValues pred vs = cvec_concatenate (map (\<lambda>v. cvec_selectValue (pred v) v) vs)"

fun cvec_contains :: "'a list \<Rightarrow> 'a \<Rightarrow> bool" where
  "cvec_contains [] val = False"
| "cvec_contains (v # vs) val = (val = v \<or> cvec_contains vs val)"

definition cvec_filter :: "'a vec \<Rightarrow> 'a vec \<Rightarrow> 'a vec" where
  "cvec_filter left right = cvec_filterValues (cvec_contains right) left"

lemma cvec_scan_nth:
  "i \<le> idx \<Longrightarrow> cvec_scan idx i vs r = (if idx - i < length vs then vs ! (idx - i) else r)"
  by (induction idx i vs r rule: cvec_scan.induct) (auto simp: nth_Cons')

lemma cvec_scan_below: "idx < i \<Longrightarrow> cvec_scan idx i vs r = r"
  by (induction idx i vs r rule: cvec_scan.induct) auto

text \<open>Inside the bounds the compile-time vector indexes as an array does; outside it yields component 0.\<close>

lemma cvec_index_nth:
  "vs \<noteq> [] \<Longrightarrow> cvec_index vs idx = (if idx < length vs then vs ! idx else vs ! 0)"
  by (cases vs; cases idx) (auto simp: cvec_index_def cvec_scan_nth cvec_scan_below)

lemma fillCVec_replicate: "0 < dim \<Longrightarrow> fillCVec dim val = replicate dim val"
proof (induction dim val rule: fillCVec.induct)
  case (1 dim val)
  show ?case
  proof (cases "dim \<le> 1")
    case False
    with 1 have "fillCVec dim val = replicate (dim - 1) val @ [val]"
      by (subst fillCVec.simps) simp
    with False show ?thesis by (simp add: replicate_append_same flip: replicate_Suc)
  next
    case True
    with 1 have "dim = 1" by simp
    then show ?thesis by (simp add: fillCVec.simps)
  qed
qed

lemma cvec_concatenate_concat: "cvec_concatenate xss = concat xss"
  by (induction xss rule: cvec_concatenate.induct) (simp_all add: cvec_combine_def)

lemma cvec_contains_set: "cvec_contains vs val \<longleftrightarrow> val \<in> set vs"
  by (induction vs) auto

lemma cvec_filter_eq: "cvec_filter left right = filter (\<lambda>v. v \<notin> set right) left"
proof -
  have "concat (map (\<lambda>v. cvec_selectValue (P v) v) vs) = filter (\<lambda>v. \<not> P v) vs" for P :: "'a \<Rightarrow> bool" and vs
    by (induction vs) (simp_all add: cvec_selectValue_def)
  then show ?thesis
    by (simp add: cvec_filter_def cvec_filterValues_def cvec_concatenate_concat cvec_contains_set)
qed

lemma cvec_filter_iota_set: "set (cvec_filter (iotaCVec dim) sel) = {..<dim} - set sel"
  by (auto simp: cvec_filter_eq iotaCVec_def)

lemma cvec_filter_iota_distinct: "distinct (cvec_filter (iotaCVec dim) sel)"
  by (simp add: cvec_filter_eq iotaCVec_def)

lemma cvec_filter_iota_length:
  assumes "set sel \<subseteq> {..<dim}" "distinct sel"
  shows "length (cvec_filter (iotaCVec dim) sel) + length sel = dim"
proof -
  have "card ({..<dim} - set sel) = dim - card (set sel)"
    using assms(1) by (simp add: card_Diff_subset)
  moreover have "card (set sel) \<le> dim"
    using card_mono[OF _ assms(1)] by simp
  ultimately show ?thesis
    using distinct_card[OF cvec_filter_iota_distinct, of dim sel] distinct_card[OF assms(2)]
    by (simp add: cvec_filter_iota_set)
qed

text \<open>
  \<^verbatim>\<open>filter(left, right)\<close> keeps, in order, exactly the values of \<open>left\<close> that do not occur in
  \<open>right\<close>, so for dimension lists it is the complement used to find the dimensions not selected.
\<close>

theorem cvec_filter_complement:
  assumes "set sel \<subseteq> {..<dim}"
  shows "set (cvec_filter (iotaCVec dim) sel) = {..<dim} - set sel
       \<and> sorted (cvec_filter (iotaCVec dim) sel) \<and> distinct (cvec_filter (iotaCVec dim) sel)
       \<and> (distinct sel \<longrightarrow> length (cvec_filter (iotaCVec dim) sel) + length sel = dim)"
  using cvec_filter_iota_set cvec_filter_iota_distinct cvec_filter_iota_length[OF assms]
  by (simp add: cvec_filter_eq iotaCVec_def sorted_wrt_filter)

theorem cvec_filter_complement_witness:
  "set (cvec_filter (iotaCVec 4) [2, 0]) = {1, 3}"
proof -
  have "set (cvec_filter (iotaCVec 4) [2, 0]) = {..<4} - {2, 0}"
    using cvec_filter_complement[of "[2, 0]" 4] by simp
  also have "{..<4 :: nat} = {0, 1, 2, 3}"
    by (simp add: eval_nat_numeral lessThan_Suc insert_commute)
  finally show ?thesis by (simp add: insert_Diff_if)
qed

section \<open>Printing\<close>

text \<open>
  \<^verbatim>\<open>toString(separator, enclosings)\<close>, shared by vectors, index ranges and thread spaces: the parts
  joined by the separator between the first and the second character of \<open>enclosings\<close>, taken
  modulo its length.
\<close>

definition enclosing_at :: "nat \<Rightarrow> string \<Rightarrow> string" where
  "enclosing_at k enclosings =
     (if length enclosings > 0 then [enclosings ! (k mod length enclosings)] else [])"

fun join :: "string \<Rightarrow> string list \<Rightarrow> string" where
  "join sep [] = []"
| "join sep [p] = p"
| "join sep (p # ps) = p @ sep @ join sep ps"

definition enclosed :: "string \<Rightarrow> string list \<Rightarrow> string \<Rightarrow> string" where
  "enclosed sep parts enclosings =
     enclosing_at 0 enclosings @ join sep parts @ enclosing_at 1 enclosings"

definition vec_toString :: "('a \<Rightarrow> string) \<Rightarrow> string \<Rightarrow> string \<Rightarrow> 'a vec \<Rightarrow> string" where
  "vec_toString str separator enclosings v =
     enclosing_at 0 enclosings @ str (v ! 0)
       @ concat (map (\<lambda>i. separator @ str (v ! i)) [1..<length v]) @ enclosing_at 1 enclosings"

lemma vec_toString_enclosed:
  assumes "v \<noteq> []"
  shows "vec_toString str sep enc v = enclosed sep (map str v) enc"
proof -

  have tail: "p @ concat (map (\<lambda>p. sep @ p) ps) = join sep (p # ps)" for p ps
  proof (induction ps arbitrary: p)
    case (Cons q ps)
    show ?case by (simp add: Cons[of q, symmetric])
  qed simp
  have "map str v = str (v ! 0) # map (\<lambda>i. str (v ! i)) [1..<length v]"
    using assms by (intro nth_equalityI) (auto simp: nth_Cons')
  then have "join sep (map str v)
      = str (v ! 0) @ concat (map (\<lambda>p. sep @ p) (map (\<lambda>i. str (v ! i)) [1..<length v]))"
    using tail[of "str (v ! 0)" "map (\<lambda>i. str (v ! i)) [1..<length v]"] by simp
  then show ?thesis
    by (simp add: vec_toString_def enclosed_def comp_def)
qed

end
