(* ===== verification/Linear.thy ===== *)
theory Linear
  imports VecModel
begin

text \<open>
  Linear and multi-dimensional indices: \<^verbatim>\<open>linearize\<close> and \<^verbatim>\<open>mapToND\<close> of \<^verbatim>\<open>include/alpaka/Vec.hpp\<close>,
  the pitch computations of \<^verbatim>\<open>mem/DataPitches.hpp\<close>, the generator of
  \<^verbatim>\<open>mem/LinearizedIdxGenerator.hpp\<close> and the nested loops of \<^verbatim>\<open>meta/NdLoop.hpp\<close>. The operations are
  polymorphic, as the templates are: the theorems cover both the unbounded naturals and
  machine words, with the exact condition under which the two agree.
\<close>

section \<open>The code\<close>

text \<open>\<^verbatim>\<open>linearize(dim, idx)\<close> with \<open>dim\<close> one component shorter than \<open>idx\<close>.\<close>

definition linearizeReduced :: "'a::{plus,times} vec \<Rightarrow> 'a vec \<Rightarrow> 'a" where
  "linearizeReduced dim idx =
     for_upto 1 (length idx) (\<lambda>d linearIdx. linearIdx * dim ! (d - 1) + idx ! d) (idx ! 0)"

definition linearize :: "'a::{plus,times,zero} vec \<Rightarrow> 'a vec \<Rightarrow> 'a" where
  "linearize dim idx =
     (if length idx = 1 then vec_x idx
      else linearizeReduced (vec_rshrink (length dim - 1) dim) idx)"

definition pitchExtents :: "'a::semiring_modulo vec \<Rightarrow> 'a vec" where
  "pitchExtents extents =
     (let n = length extents; reducedDim = n - 1 in
      for_upto 1 (n - 1)
        (\<lambda>d p. p[reducedDim - 1 - d := extents ! (n - 1 - d) * p ! (reducedDim - d)])
        ((replicate reducedDim 0)[reducedDim - 1 := vec_back extents]))"

definition mapToND :: "'a::semiring_modulo vec \<Rightarrow> 'a \<Rightarrow> 'a vec" where
  "mapToND extents linearIdx =
     (let n = length extents in
      if n = 1 then [linearIdx]
      else let p = pitchExtents extents;
               (result, l) = for_upto 0 (n - 1)
                 (\<lambda>d (result, l). let q = l div p ! d in (result[d := q], l - p ! d * q))
                 (replicate n 0, linearIdx)
           in result[n - 1 := l])"

text \<open>
  In C++ the division is undefined when the pitch is zero, because an inner extent is or because the product of inner
  extents wraps to it. The checked loop gives \<open>None\<close> then; the users of \<^verbatim>\<open>mapToND\<close> below
  divide by extents that are not zero and use the unchecked one, which the two agree on.
\<close>

definition mapToND_checked :: "'a::semiring_modulo vec \<Rightarrow> 'a \<Rightarrow> 'a vec option" where
  "mapToND_checked extents linearIdx =
     (let n = length extents in
      if n = 1 then Some [linearIdx]
      else let p = pitchExtents extents in
           map_option (\<lambda>(result, l). result[n - 1 := l])
             (for_upto 0 (n - 1)
               (\<lambda>d s. case s of None \<Rightarrow> None
                  | Some (result, l) \<Rightarrow> if p ! d = 0 then None
                      else let q = l div p ! d in Some (result[d := q], l - p ! d * q))
               (Some (replicate n 0, linearIdx))))"

text \<open>The pitches in bytes of a contiguous array, and of one with a given row pitch.\<close>

definition calculatePitchesFromExtents :: "'a::semiring_modulo \<Rightarrow> 'a vec \<Rightarrow> 'a vec" where
  "calculatePitchesFromExtents sizeofElem extent =
     (let dim = length extent in
      for_downto (dim - 1) (\<lambda>i p. p[i - 1 := extent ! i * p ! i])
        ((replicate dim 0)[dim - 1 := sizeofElem]))"

definition calculatePitches :: "'a::semiring_modulo \<Rightarrow> 'a vec \<Rightarrow> 'a \<Rightarrow> 'a vec" where
  "calculatePitches sizeofElem extent rowPitchBytes =
     (let dim = length extent;
          p = (replicate dim 0)[dim - 1 := sizeofElem];
          p = p[dim - 2 := rowPitchBytes]
      in for_downto (dim - 2) (\<lambda>i p. p[i - 1 := extent ! i * p ! i]) p)"

text \<open>
  \<^verbatim>\<open>DataPitches\<close> drops the innermost pitch, which is always the element size; \<open>None\<close> is its
  failing assertion.
\<close>

definition dataPitches_store :: "'a::zero \<Rightarrow> 'a vec \<Rightarrow> 'a vec option" where
  "dataPitches_store sizeofElem pitchBytes =
     (if vec_back pitchBytes = sizeofElem then Some (vec_eraseBack pitchBytes) else None)"

definition dataPitches_getPitches :: "'a::zero \<Rightarrow> 'a vec \<Rightarrow> 'a vec" where
  "dataPitches_getPitches sizeofElem m_pitch =
     (for_upto 0 (length m_pitch) (\<lambda>d result. result[d := m_pitch ! d])
        (replicate (Suc (length m_pitch)) 0))[length m_pitch := sizeofElem]"

section \<open>Reference definitions\<close>

text \<open>The row-major offset of an index, and the index of an offset, by recursion on the extents.\<close>

fun lin :: "'a::comm_semiring_1 vec \<Rightarrow> 'a vec \<Rightarrow> 'a" where
  "lin (e # es) (i # is) = i * prod_list es + lin es is"
| "lin _ _ = 0"

fun unlin :: "'a::semiring_modulo vec \<Rightarrow> 'a \<Rightarrow> 'a vec" where
  "unlin [] l = []"
| "unlin [e] l = [l]"
| "unlin (e # e' # es) l =
     (l div prod_list (e' # es)) # unlin (e' # es) (l mod prod_list (e' # es))"

abbreviation in_extents :: "'a::ord vec \<Rightarrow> 'a vec \<Rightarrow> bool" where
  "in_extents idx ext \<equiv> list_all2 (<) idx ext"

text \<open>Every index of an extent, the last component running fastest.\<close>

fun all_idx :: "nat vec \<Rightarrow> nat vec list" where
  "all_idx [] = [[]]"
| "all_idx (e # es) = concat (map (\<lambda>i. map ((#) i) (all_idx es)) [0..<e])"

section \<open>The code computes the reference\<close>

lemma fold_horner:
  "length es = length is \<Longrightarrow>
     fold (\<lambda>(e, i) l. l * e + i) (zip es is) a = a * prod_list es + lin es (is :: 'a::comm_semiring_1 vec)"
  by (induction es "is" arbitrary: a rule: list_induct2) (simp_all add: algebra_simps)

lemma linearizeReduced_lin:
  assumes "length idx = Suc (length dim)"
  shows "linearizeReduced dim idx = lin (e # dim) (idx :: 'a::comm_semiring_1 vec)"
proof -
  obtain i "is" where idx: "idx = i # is" using assms by (cases idx) auto
  have "linearizeReduced dim idx
      = for_upto 0 (length is) (\<lambda>d l. l * dim ! d + is ! d) i"
    by (simp add: linearizeReduced_def idx for_upto_shift[simplified])
  also have "\<dots> = lin (e # dim) idx"
    using assms for_upto_zip[of dim "length is" "is" "\<lambda>e i l. l * e + i" i]
    by (simp add: idx fold_horner)
  finally show ?thesis .
qed

lemma linearize_lin:
  assumes "length dim = length idx" "idx \<noteq> []"
  shows "linearize dim idx = lin dim (idx :: 'a::comm_semiring_1 vec)"
proof -
  obtain e es where dim: "dim = e # es" using assms by (cases dim) auto
  show ?thesis
  proof (cases "length idx = 1")
    case True
    then obtain i where "idx = [i]" by (auto simp: length_Suc_conv)
    with dim assms True show ?thesis by (simp add: linearize_def vec_x_def)
  next
    case False
    with assms dim show ?thesis
      by (simp add: linearize_def vec_rshrink_drop linearizeReduced_lin)
  qed
qed

lemma pitchExtents_nth:
  assumes "length extents = n" "2 \<le> n"
  shows "length (pitchExtents extents) = n - 1"
    and "d < n - 1 \<Longrightarrow> pitchExtents extents ! d = prod_list (drop (Suc d) extents)"
proof -
  define step where
    "step = (\<lambda>d p. p[n - 1 - 1 - d := extents ! (n - 1 - d) * p ! (n - 1 - d)])"
  define p0 where "p0 = (replicate (n - 1) 0)[n - 1 - 1 := vec_back extents]"
  have pe: "pitchExtents extents = for_upto 1 (n - 1) step p0"
    using assms by (simp add: pitchExtents_def Let_def step_def p0_def)
  have inv: "1 \<le> k \<Longrightarrow> k \<le> n - 1 \<Longrightarrow> length (for_upto 1 k step p0) = n - 1
      \<and> (\<forall>j < k. for_upto 1 k step p0 ! (n - 2 - j) = prod_list (drop (n - 1 - j) extents))" for k
  proof (induction k)
    case (Suc k)
    have tl: "drop (n - 1) extents = [last extents]"
      using assms by (metis Cons_nth_drop_Suc One_nat_def Suc_diff_Suc Suc_le_lessD diff_Suc_less
          diff_zero drop_all last_conv_nth le_refl length_greater_0_conv less_le_trans zero_less_numeral)
    show ?case
    proof (cases "k = 0")
      case True
      have "vec_back extents = last extents"
        using assms by (intro vec_back_last) auto
      with True show ?thesis
        using assms tl by (simp add: p0_def numeral_2_eq_2)
    next
      case False
      let ?p = "for_upto 1 k step p0"
      from Suc False have IH: "length ?p = n - 1"
        "\<And>j. j < k \<Longrightarrow> ?p ! (n - 2 - j) = prod_list (drop (n - 1 - j) extents)" by auto
      have S: "for_upto 1 (Suc k) step p0 = step k ?p" using False by (simp add: for_upto_Suc)
      have at: "?p ! (n - 1 - k) = prod_list (drop (n - k) extents)"
        using IH(2)[of "k - 1"] False Suc.prems by (simp add: Suc_diff_Suc numeral_2_eq_2)
      have sk: "Suc (n - Suc k) = n - k" using Suc.prems by simp
      have dr: "drop (n - 1 - k) extents = extents ! (n - 1 - k) # drop (n - k) extents"
        using Cons_nth_drop_Suc[of "n - 1 - k" extents] Suc.prems assms(1) by (simp add: sk)
      have "step k ?p ! (n - 2 - j) = prod_list (drop (n - 1 - j) extents)" if "j < Suc k" for j
      proof (cases "j = k")
        case True
        have "step k ?p = ?p[n - 2 - k := prod_list (drop (n - 1 - k) extents)]"
          unfolding step_def at[unfolded step_def] dr by (simp add: numeral_2_eq_2)
        with True IH(1) Suc.prems show ?thesis by simp
      next
        case False
        with that Suc.prems have "n - 2 - j \<noteq> n - 1 - 1 - k" "j < k" by auto
        with IH(2) show ?thesis by (simp add: step_def)
      qed
      with IH(1) show ?thesis unfolding S by (simp add: step_def)
    qed
  qed simp
  show "length (pitchExtents extents) = n - 1"
    using inv[of "n - 1"] assms pe by simp
  show "pitchExtents extents ! d = prod_list (drop (Suc d) extents)" if "d < n - 1"
    using inv[of "n - 1"] assms pe that
    by (auto dest: spec[of _ "n - 2 - d"] simp: Suc_diff_Suc numeral_2_eq_2)
qed

lemma unlin_length [simp]: "length (unlin es l) = length es"
  by (induction es l rule: unlin.induct) simp_all

text \<open>
  The division loop of \<^verbatim>\<open>mapToND\<close> over the pitches still to come computes \<open>unlin\<close>.
\<close>

lemma mapToND_loop:
  assumes es: "length es = n" and p: "\<And>d. d < n - 1 \<Longrightarrow> p ! d = prod_list (drop (Suc d) es)"
    and body: "body = (\<lambda>d (r, l). let q = l div p ! d in (r[d := q], l - p ! d * q))"
  shows "k < n \<Longrightarrow> length r = n \<Longrightarrow>
    (case for_upto k (n - 1) body (r, l) of (r, l) \<Rightarrow> r[n - 1 := l])
      = take k r @ unlin (drop k es) (l :: 'a::semiring_modulo)"
proof (induction "n - 1 - k" arbitrary: k r l)
  case 0
  then have k: "k = n - 1" "Suc k = n" by simp_all
  have "drop k es = [es ! k]"
    using 0 es k Cons_nth_drop_Suc[of k es] by simp
  moreover have "r[k := l] = take k r @ [l]"
    using 0 k by (simp add: upd_conv_take_nth_drop)
  ultimately show ?case using k by simp
next
  case (Suc m)
  then have k: "k < n - 1" by simp
  let ?P = "prod_list (drop (Suc k) es)"
  have dk: "drop k es = es ! k # drop (Suc k) es" "drop (Suc k) es \<noteq> []"
    using k es by (simp_all add: Cons_nth_drop_Suc)
  have "for_upto k (n - 1) body (r, l) = for_upto (Suc k) (n - 1) body (r[k := l div ?P], l mod ?P)"
    using k by (simp add: for_upto_first body p Let_def minus_mult_div_eq_mod)
  moreover have "take (Suc k) (r[k := l div ?P]) = take k r @ [l div ?P]"
    using Suc.prems by (simp add: take_Suc_conv_app_nth)
  moreover have "unlin (drop k es) l = l div ?P # unlin (drop (Suc k) es) (l mod ?P)"
    using dk by (cases "drop (Suc k) es") simp_all
  ultimately show ?case
    using Suc.hyps(1)[of "Suc k" "r[k := l div ?P]" "l mod ?P"] Suc.hyps(2) Suc.prems k by simp
qed

lemma mapToND_unlin:
  assumes "extents \<noteq> []"
  shows "mapToND extents l = unlin extents l"
proof (cases "length extents = 1")
  case True
  then obtain e where "extents = [e]" by (auto simp: length_Suc_conv)
  then show ?thesis by (simp add: mapToND_def)
next
  case False
  with assms have n: "2 \<le> length extents" by (cases extents) (auto simp: Suc_le_eq)
  from False have "mapToND extents l
      = (case for_upto 0 (length extents - 1)
          (\<lambda>d (r, l). let q = l div pitchExtents extents ! d in (r[d := q], l - pitchExtents extents ! d * q))
          (replicate (length extents) 0, l) of (r, l) \<Rightarrow> r[length extents - 1 := l])"
    by (simp add: mapToND_def Let_def)
  also have "\<dots> = take 0 (replicate (length extents) 0) @ unlin (drop 0 extents) l"
    by (rule mapToND_loop[OF refl pitchExtents_nth(2)[OF refl n] refl]) (use assms in simp_all)
  finally show ?thesis by simp
qed

section \<open>Round trips\<close>

lemma lin_unlin: "es \<noteq> [] \<Longrightarrow> lin es (unlin es l) = l"
proof (induction es l rule: unlin.induct)
  case (3 e e' es l)
  then show ?case by (simp only: unlin.simps lin.simps) (metis div_mult_mod_eq list.distinct(1))
qed simp_all

lemma lin_less:
  "in_extents idx es \<Longrightarrow> lin es (idx :: nat vec) < prod_list es"
proof (induction idx es rule: list_all2_induct)
  case (Cons i "is" e es)
  then have "Suc i * prod_list es \<le> e * prod_list es" by (intro mult_le_mono1) simp
  with Cons show ?case by simp
qed simp

lemma unlin_lin:
  "in_extents idx es \<Longrightarrow> unlin es (lin es idx) = (idx :: nat vec)"
proof (induction idx es rule: list_all2_induct)
  case (Cons i "is" e es)
  have lt: "lin es is < prod_list es" using Cons by (simp add: lin_less)
  then have "(i * prod_list es + lin es is) div prod_list es = i" by simp
  with lt Cons show ?case by (cases es) simp_all
qed simp

lemma unlin_in_extents:
  "es \<noteq> [] \<Longrightarrow> l < prod_list es \<Longrightarrow> in_extents (unlin es l) (es :: nat vec)"
proof (induction es l rule: unlin.induct)
  case (3 e e' es l)
  have pos: "0 < prod_list (e' # es)" using "3.prems"(2) by (cases "prod_list (e' # es)") auto
  have "l div prod_list (e' # es) < e"
    using "3.prems"(2) pos by (simp add: less_mult_imp_div_less)
  moreover have "in_extents (unlin (e' # es) (l mod prod_list (e' # es))) (e' # es)"
    using pos by (intro "3.IH") simp_all
  ultimately show ?case by simp
qed simp_all

lemma for_upto_checked:
  "for_upto lo hi (\<lambda>d s. case s of None \<Rightarrow> None | Some s \<Rightarrow> if Q d then None else Some (f d s)) (Some s)
     = (if \<exists>d. lo \<le> d \<and> d < hi \<and> Q d then None else Some (for_upto lo hi f s))"
proof (induction hi)
  case (Suc hi)
  show ?case
  proof (cases "lo \<le> hi")
    case True
    then have "(\<exists>d. lo \<le> d \<and> d < Suc hi \<and> Q d) \<longleftrightarrow> (\<exists>d. lo \<le> d \<and> d < hi \<and> Q d) \<or> Q hi"
      by (metis less_Suc_eq)
    then show ?thesis
      by (cases "\<exists>d. lo \<le> d \<and> d < hi \<and> Q d"; cases "Q hi")
        (simp_all only: for_upto_Suc[OF True] Suc.IH option.case if_True if_False simp_thms)
  next
    case False
    then show ?thesis by (subst (1 2) for_upto_empty) auto
  qed
qed simp

lemma mapToND_checked_eq:
  assumes "extents \<noteq> []"
  shows "mapToND_checked extents l
    = (if \<exists>d. 0 < d \<and> d < length extents \<and> prod_list (drop d extents) = 0 then None else Some (mapToND extents l))"
proof (cases "length extents = 1")
  case True
  then show ?thesis by (simp add: mapToND_checked_def mapToND_def)
next
  case False
  let ?n = "length extents" and ?p = "pitchExtents extents"
  have n: "2 \<le> ?n" using False assms by (cases extents) (auto simp: Suc_le_eq)
  have ex: "(\<exists>d. 0 \<le> d \<and> d < ?n - 1 \<and> ?p ! d = 0) \<longleftrightarrow> (\<exists>d. 0 < d \<and> d < ?n \<and> prod_list (drop d extents) = 0)"
  proof
    assume "\<exists>d. 0 \<le> d \<and> d < ?n - 1 \<and> ?p ! d = 0"
    then obtain d where "d < ?n - 1" "?p ! d = 0" by blast
    then show "\<exists>d. 0 < d \<and> d < ?n \<and> prod_list (drop d extents) = 0"
      using pitchExtents_nth(2)[OF refl n, of d] by (intro exI[of _ "Suc d"]) auto
  next
    assume "\<exists>d. 0 < d \<and> d < ?n \<and> prod_list (drop d extents) = 0"
    then obtain d where "0 < d" "d < ?n" "prod_list (drop d extents) = 0" by blast
    then show "\<exists>d. 0 \<le> d \<and> d < ?n - 1 \<and> ?p ! d = 0"
      using pitchExtents_nth(2)[OF refl n, of "d - 1"] by (intro exI[of _ "d - 1"]) auto
  qed
  have body: "(\<lambda>d s. case s of None \<Rightarrow> None
         | Some (result, l) \<Rightarrow> if ?p ! d = 0 then None
             else let q = l div ?p ! d in Some (result[d := q], l - ?p ! d * q))
     = (\<lambda>d s. case s of None \<Rightarrow> None | Some s \<Rightarrow> if ?p ! d = 0 then None
             else Some (case s of (result, l) \<Rightarrow> let q = l div ?p ! d in (result[d := q], l - ?p ! d * q)))"
    by (intro ext) (simp add: Let_def split: option.split)
  show ?thesis
    using False unfolding mapToND_checked_def mapToND_def Let_def[of "length extents"] Let_def[of ?p] body
      for_upto_checked[of 0 "?n - 1" "\<lambda>d. ?p ! d = 0"] ex
    by (simp only: if_False option.map if_distrib[of "map_option _"] Let_def)
qed

text \<open>What is left of the linear index after each division, and the quotient.\<close>

lemma unlin_digits:
  "d < length es - 1 \<Longrightarrow>
     lin (drop (Suc d) es) (drop (Suc d) (unlin es l)) = lin (drop d es) (drop d (unlin es l)) mod prod_list (drop (Suc d) es)
     \<and> unlin es l ! d = lin (drop d es) (drop d (unlin es l)) div prod_list (drop (Suc d) es)"
proof (induction es l arbitrary: d rule: unlin.induct)
  case (3 e e' es l)
  show ?case
  proof (cases d)
    case 0
    have "lin (e # e' # es) (unlin (e # e' # es) l) = l" by (rule lin_unlin) simp
    moreover have "lin (e' # es) (unlin (e' # es) (l mod prod_list (e' # es))) = l mod prod_list (e' # es)"
      by (rule lin_unlin) simp
    ultimately show ?thesis unfolding 0 by (simp del: prod_list.Cons lin.simps(1))
  next
    case (Suc k)
    then show ?thesis using "3.IH"[of k] "3.prems" by (simp del: prod_list.Cons)
  qed
qed simp_all

text \<open>
  Property C24. For every unsigned index type and every extent and linear index, \<^verbatim>\<open>mapToND\<close> divides by zero exactly when a product of
  inner extents, computed in that type, is zero. Otherwise it returns the digits of the linear index:
  \<^verbatim>\<open>linearize\<close> of the result is the linear index, and of each tail of the result the remainder
  that the divisions by the pitches before it leave, of which the next component is the quotient.
\<close>

theorem linearize_mapToND:
  assumes "extents \<noteq> []"
  shows "case mapToND_checked extents (l :: 'a::semiring_modulo) of
      None \<Rightarrow> \<exists>d. 0 < d \<and> d < length extents \<and> prod_list (drop d extents) = 0
    | Some idx \<Rightarrow> idx = mapToND extents l \<and> length idx = length extents
        \<and> (\<forall>d. 0 < d \<and> d < length extents \<longrightarrow> prod_list (drop d extents) \<noteq> 0)
        \<and> linearize extents idx = l
        \<and> (\<forall>d < length extents - 1. let r = linearize (drop d extents) (drop d idx); p = prod_list (drop (Suc d) extents)
              in idx ! d = r div p \<and> linearize (drop (Suc d) extents) (drop (Suc d) idx) = r mod p)"
proof (cases "\<exists>d. 0 < d \<and> d < length extents \<and> prod_list (drop d extents) = 0")
  case True
  then show ?thesis by (simp add: mapToND_checked_eq[OF assms])
next
  case False
  let ?idx = "mapToND extents l"
  have u: "?idx = unlin extents l" by (rule mapToND_unlin[OF assms])
  have "linearize (drop d extents) (drop d ?idx) = lin (drop d extents) (drop d ?idx)" if "d < length extents" for d
    using that by (intro linearize_lin) (simp_all add: u)
  moreover from this[of 0] have "linearize extents ?idx = l" using assms by (simp add: u lin_unlin)
  ultimately show ?thesis
    using False unlin_digits[of _ extents l] u unfolding mapToND_checked_eq[OF assms]
    by (simp only: if_False option.case Let_def) (auto simp: less_diff_conv)
qed

theorem linearize_mapToND_witness:
  "mapToND_checked [3, 4, 5] (47 :: u32) = Some [2, 1, 2] \<and> linearize [3, 4, 5] [2, 1, 2 :: u32] = 47"
proof
  have c: "mapToND_checked [3, 4, 5] (47 :: u32) = Some [2, 1, 2]" by code_simp
  then show "mapToND_checked [3, 4, 5] (47 :: u32) = Some [2, 1, 2]" .
  show "linearize [3, 4, 5] [2, 1, 2 :: u32] = 47"
    using linearize_mapToND[of "[3, 4, 5]" "47 :: u32"] unfolding c option.case by blast
qed

lemma mapToND_wrapped_pitch_example: "mapToND_checked [2, 65536, 65536] (7 :: u32) = None"
  by code_simp

section \<open>The index space\<close>

lemma all_idx_unlin: "es \<noteq> [] \<Longrightarrow> all_idx es = map (unlin es) [0..<prod_list es]"
proof (induction es rule: induct_list012)
  case (2 e)
  have "concat (map (\<lambda>i. [[i]]) xs) = map (\<lambda>i. [i]) xs" for xs :: "nat list"
    by (induction xs) simp_all
  then show ?case by simp
next
  case (3 e e' es)
  let ?P = "prod_list (e' # es)"
  have "map ((#) i) (all_idx (e' # es)) = map (\<lambda>j. unlin (e # e' # es) (i * ?P + j)) [0..<?P]" for i
    by (simp only: "3.IH"(2)[OF list.distinct(2)] map_map)
      (rule map_cong[OF refl], simp del: prod_list.Cons)
  then have "all_idx (e # e' # es)
      = concat (map (\<lambda>i. map (\<lambda>j. unlin (e # e' # es) (i * ?P + j)) [0..<?P]) [0..<e])"
    by (simp only: all_idx.simps(2)[of e "e' # es"])
  also have "\<dots> = map (unlin (e # e' # es)) [0..<e * ?P]"
    by (rule concat_map_upt_mult)
  finally show ?case by simp
qed simp

lemma length_all_idx: "length (all_idx es) = prod_list es"
  by (induction es) (simp_all add: length_concat comp_def sum_list_triv)

lemma set_all_idx: "set (all_idx es) = {idx. in_extents idx es}"
proof (induction es)
  case (Cons e es)
  have "idx \<in> set (all_idx (e # es)) \<longleftrightarrow> in_extents idx (e # es)" for idx
    by (cases idx) (auto simp: Cons.IH image_iff)
  then show ?case by blast
qed simp

lemma distinct_all_idx: "distinct (all_idx es)"
proof (induction es)
  case (Cons e es)
  have "distinct (concat (map (\<lambda>i. map ((#) i) (all_idx es)) [0..<n]))" for n
    using Cons by (induction n) (auto simp: distinct_map)
  then show ?case by simp
qed simp

text \<open>
  Property C25. \<^verbatim>\<open>mapToND\<close> is a bijection from the linear indices below the product of the extents to
  the multi-dimensional indices inside them, and enumerates them with the last component
  running fastest; \<^verbatim>\<open>linearize\<close> is its inverse.
\<close>

theorem mapToND_enumerates:
  assumes "extents \<noteq> []"
  shows "map (mapToND extents) [0..<prod_list extents] = all_idx extents
       \<and> distinct (all_idx extents) \<and> set (all_idx extents) = {idx. in_extents idx extents}
       \<and> (\<forall>idx. in_extents idx extents \<longrightarrow> mapToND extents (linearize extents idx) = idx)"
proof (intro conjI allI impI)
  show "map (mapToND extents) [0..<prod_list extents] = all_idx extents"
    using assms by (simp add: all_idx_unlin mapToND_unlin)
  fix idx assume "in_extents idx extents"
  moreover from this assms have "length extents = length idx" "idx \<noteq> []"
    by (auto simp: list_all2_lengthD)
  ultimately show "mapToND extents (linearize extents idx) = idx"
    using assms by (simp add: mapToND_unlin linearize_lin unlin_lin)
qed (simp_all add: distinct_all_idx set_all_idx)

theorem mapToND_enumerates_witness:
  "map (mapToND [2, 3 :: nat]) [0..<6] = [[0, 0], [0, 1], [0, 2], [1, 0], [1, 1], [1, 2]]"
  using mapToND_enumerates[of "[2, 3]"] by (simp add: upt_rec)

section \<open>Machine words\<close>

lemma unat_factor_bound:
  assumes "(w :: 'w::len word) \<noteq> 0" "unat w * p < B"
  shows "p < B"
proof -
  have "0 < unat w" using assms(1) by (simp add: unat_gt_0)
  then have "p \<le> unat w * p" by (cases "unat w") auto
  from le_less_trans[OF this assms(2)] show ?thesis .
qed

lemma unat_prod_list:
  "prod_list (map unat ws) < 2 ^ LENGTH('w) \<Longrightarrow> (\<forall>w \<in> set ws. w \<noteq> 0)
     \<Longrightarrow> unat (prod_list ws :: 'w::len word) = prod_list (map unat ws)"
proof (induction ws)
  case (Cons w ws)
  have b: "unat w * prod_list (map unat ws) < 2 ^ LENGTH('w)" using Cons.prems(1) by simp
  have "w \<noteq> 0" using Cons.prems(2) by simp
  from unat_factor_bound[OF this b] have "unat (prod_list ws) = prod_list (map unat ws)"
    using Cons.IH Cons.prems(2) by simp
  with unat_mult_bound[of w "prod_list ws"] b show ?case by simp
qed simp

lemma in_extents_nonzero: "in_extents idx es \<Longrightarrow> \<forall>e \<in> set es. (e :: 'w::len word) \<noteq> 0"
  by (induction idx es rule: list_all2_induct) auto

lemma in_extents_unat: "in_extents idx es \<longleftrightarrow> in_extents (map unat idx) (map unat (es :: 'w::len word vec))"
  by (auto simp: list_all2_conv_all_nth word_less_nat_alt)

lemma unat_lin:
  fixes es :: "'w::len word vec"
  assumes "in_extents idx es" "prod_list (map unat es) < 2 ^ LENGTH('w)"
  shows "unat (lin es idx) = lin (map unat es) (map unat idx)"
  using assms
proof (induction idx es rule: list_all2_induct)
  case (Cons i "is" e es)
  have nz: "\<forall>w \<in> set es. w \<noteq> 0" using Cons(2) by (rule in_extents_nonzero)
  have b: "unat e * prod_list (map unat es) < 2 ^ LENGTH('w)" using Cons.prems by simp
  have "e \<noteq> 0" using Cons(1) by auto
  from unat_factor_bound[OF this b] have b': "prod_list (map unat es) < 2 ^ LENGTH('w)" .
  have "in_extents (i # is) (e # es)" using Cons(1,2) by simp
  then have "lin (map unat (e # es)) (map unat (i # is)) < prod_list (map unat (e # es))"
    by (intro lin_less) (simp only: in_extents_unat)
  with b have all: "unat i * prod_list (map unat es) + lin (map unat es) (map unat is) < 2 ^ LENGTH('w)"
    by simp
  have p: "unat (prod_list es) = prod_list (map unat es)" by (rule unat_prod_list[OF b' nz])
  have IH: "unat (lin es is) = lin (map unat es) (map unat is)" using Cons.IH b' by simp
  have "unat (i * prod_list es) = unat i * prod_list (map unat es)"
    using unat_mult_bound[of i "prod_list es"] all p by simp
  with unat_add_bound[of "i * prod_list es" "lin es is"] all IH show ?case by simp
qed simp

lemma unat_unlin:
  fixes es :: "'w::len word vec"
  assumes "\<forall>e \<in> set (tl es). e \<noteq> 0" "prod_list (map unat (tl es)) < 2 ^ LENGTH('w)"
  shows "map unat (unlin es l) = unlin (map unat es) (unat l)"
  using assms
proof (induction es l rule: unlin.induct)
  case (3 e e' es l)
  have b: "unat e' * prod_list (map unat es) < 2 ^ LENGTH('w)" using "3.prems"(2) by simp
  have "e' \<noteq> 0" using "3.prems"(1) by simp
  note b' = unat_factor_bound[OF this b]
  have P: "unat (prod_list (e' # es)) = prod_list (map unat (e' # es))"
    using "3.prems" by (intro unat_prod_list) simp_all
  have IH: "map unat (unlin (e' # es) (l mod prod_list (e' # es)))
      = unlin (map unat (e' # es)) (unat (l mod prod_list (e' # es)))"
    using "3.prems"(1) b' by (intro "3.IH") simp_all
  show ?case
    by (simp only: unlin.simps list.map IH unat_div unat_mod P[unfolded list.map])
qed simp_all

text \<open>
  Property C26. On unsigned machine integers \<^verbatim>\<open>linearize\<close> and \<^verbatim>\<open>mapToND\<close> are the mathematical maps, with
  no wrap-around, as soon as the number of elements of the index space fits the index type.
\<close>

theorem linearize_mapToND_word:
  fixes es :: "'w::len word vec"
  assumes "es \<noteq> []" "prod_list (map unat es) < 2 ^ LENGTH('w)" "in_extents idx es"
  shows "unat (linearize es idx) = linearize (map unat es) (map unat idx)
       \<and> unat (linearize es idx) < prod_list (map unat es)
       \<and> map unat (mapToND es l) = mapToND (map unat es) (unat l)"
proof -
  have len: "length es = length idx" "idx \<noteq> []"
    using assms by (auto dest: list_all2_lengthD)
  have nz: "\<forall>e \<in> set es. e \<noteq> 0" using assms(3) by (rule in_extents_nonzero)
  obtain e es' where es: "es = e # es'" using assms(1) by (cases es) auto
  have "e \<noteq> 0" "unat e * prod_list (map unat es') < 2 ^ LENGTH('w)"
    using nz es assms(2) by simp_all
  then have b: "prod_list (map unat (tl es)) < 2 ^ LENGTH('w)"
    using es unat_factor_bound by simp
  have "map unat (unlin es l) = unlin (map unat es) (unat l)"
    using nz es b by (intro unat_unlin) auto
  moreover have "unat (lin es idx) = lin (map unat es) (map unat idx)"
    using assms by (intro unat_lin)
  moreover have "lin (map unat es) (map unat idx) < prod_list (map unat es)"
    using assms(3) by (intro lin_less) (simp only: in_extents_unat)
  ultimately show ?thesis
    using assms(1) len by (simp add: linearize_lin mapToND_unlin)
qed

theorem linearize_mapToND_word_witness:
  "unat (linearize [1000, 1000, 1000 :: u32] [999, 999, 999]) < 1000000000"
  using linearize_mapToND_word[of "[1000, 1000, 1000 :: u32]" "[999, 999, 999]" 0,
      THEN conjunct2, THEN conjunct1]
  by simp

section \<open>Pitches\<close>

lemma for_downto_chain_all:
  fixes p e :: "'a::comm_semiring_1 vec"
  defines "st \<equiv> \<lambda>(i :: nat) p. p[i - 1 := e ! i * p ! i]"
  assumes "length p = n" "k < n"
  shows "length (for_downto k st p) = n
      \<and> (\<forall>d \<le> k. for_downto k st p ! d = prod_list (map ((!) e) [Suc d..<Suc k]) * p ! k)
      \<and> (\<forall>d > k. for_downto k st p ! d = p ! d)"
  using assms(2,3)
proof (induction k arbitrary: p)
  case (Suc k)
  let ?q = "p[k := e ! Suc k * p ! Suc k]"
  have S: "for_downto (Suc k) st p = for_downto k st ?q"
    by (simp add: for_downto_Suc st_def)
  have q: "length ?q = n" "k < n" "?q ! k = e ! Suc k * p ! Suc k" "\<And>d. k < d \<Longrightarrow> ?q ! d = p ! d"
    using Suc.prems by auto
  note IH = Suc.IH[OF q(1,2)]
  have "for_downto k st ?q ! d = prod_list (map ((!) e) [Suc d..<Suc (Suc k)]) * p ! Suc k"
    if "d \<le> Suc k" for d
  proof (cases "d = Suc k")
    case True
    with IH q(4) show ?thesis by simp
  next
    case False
    with that IH q(3) show ?thesis by (simp add: ac_simps)
  qed
  with IH q(4) show ?case by (simp add: S)
qed simp

lemma for_downto_chain:
  fixes p :: "'a::comm_semiring_1 vec"
  assumes "length p = n" "k < n"
  shows "length (for_downto k (\<lambda>i p. p[i - 1 := e ! i * p ! i]) p) = n"
    and "d \<le> k \<Longrightarrow> for_downto k (\<lambda>i p. p[i - 1 := e ! i * p ! i]) p ! d
          = prod_list (map ((!) e) [Suc d..<Suc k]) * p ! k"
    and "k < d \<Longrightarrow> for_downto k (\<lambda>i p. p[i - 1 := e ! i * p ! i]) p ! d = p ! d"
  using for_downto_chain_all[OF assms, of e] by blast+

lemma map_nth_upt_drop: "map ((!) e) [d..<length e] = drop d e"
  by (metis drop_map drop_upt map_nth add_0)

lemma calculatePitchesFromExtents_nth:
  assumes "extent \<noteq> []"
  shows "length (calculatePitchesFromExtents s extent) = length extent"
    and "d < length extent \<Longrightarrow>
      calculatePitchesFromExtents s extent ! d = prod_list (drop (Suc d) extent) * s"
proof -
  let ?p = "(replicate (length extent) 0)[length extent - 1 := s]"
  have n: "length extent - 1 < length extent" using assms by simp
  have e: "Suc (length extent - 1) = length extent" using assms by simp
  note c = for_downto_chain[where p = ?p and e = extent, OF _ n]
  show "length (calculatePitchesFromExtents s extent) = length extent"
    using c(1) by (simp add: calculatePitchesFromExtents_def Let_def)
  show "calculatePitchesFromExtents s extent ! d = prod_list (drop (Suc d) extent) * s"
    if "d < length extent"
    using c(2)[of d] that assms
    by (simp add: calculatePitchesFromExtents_def Let_def map_nth_upt_drop e del: upt_Suc)
qed

lemma calculatePitches_nth:
  assumes "2 \<le> length extent"
  shows "length (calculatePitches s extent rowPitch) = length extent"
    and "calculatePitches s extent rowPitch ! (length extent - 1) = s"
    and "d \<le> length extent - 2 \<Longrightarrow> calculatePitches s extent rowPitch ! d
           = prod_list (map ((!) extent) [Suc d..<length extent - 1]) * rowPitch"
proof -
  let ?n = "length extent"
  let ?p = "((replicate ?n 0)[?n - 1 := s])[?n - 2 := rowPitch]"
  have n: "?n - 2 < ?n" "Suc (?n - 2) = ?n - 1" "?n - 2 < ?n - 1" using assms by auto
  note c = for_downto_chain[where p = ?p and e = extent, OF _ n(1)]
  have def: "calculatePitches s extent rowPitch
      = for_downto (?n - 2) (\<lambda>i p. p[i - 1 := extent ! i * p ! i]) ?p"
    by (simp add: calculatePitches_def Let_def)
  show "length (calculatePitches s extent rowPitch) = ?n" using c(1) by (simp add: def)
  show "calculatePitches s extent rowPitch ! (?n - 1) = s"
    using c(3)[of "?n - 1"] n by (simp add: def)
  show "calculatePitches s extent rowPitch ! d
      = prod_list (map ((!) extent) [Suc d..<?n - 1]) * rowPitch" if "d \<le> ?n - 2"
    using c(2)[of d] that n by (simp add: def del: upt_Suc)
qed

lemma dataPitches_roundtrip:
  assumes "pitchBytes \<noteq> []" "last pitchBytes = s"
  shows "map_option (dataPitches_getPitches s) (dataPitches_store s pitchBytes) = Some pitchBytes"
proof -
  have "for_upto 0 (length m) (\<lambda>d r. r[d := m ! d]) (replicate (Suc (length m)) 0) = m @ [0]"
    for m :: "'a::zero vec"
    using for_upto_assign_take[of "length m" "replicate (Suc (length m)) 0" "(!) m"]
    by (simp only: length_replicate le_Suc_eq drop_replicate map_nth simp_thms) simp
  moreover have "vec_back pitchBytes = s" using assms vec_back_last by metis
  ultimately show ?thesis
    using assms by (simp add: dataPitches_getPitches_def dataPitches_store_def vec_eraseBack_butlast
        append_butlast_last_id[symmetric] del: append_butlast_last_id length_butlast)
       (metis append_butlast_last_id list_update_length)
qed

lemma pitches_lin:
  assumes "extent \<noteq> []" "length idx = length extent"
  shows "(\<Sum>d\<leftarrow>[0..<length extent]. idx ! d * calculatePitchesFromExtents s extent ! d)
       = lin extent idx * (s :: 'a::semiring_modulo)"
proof -
  have "(\<Sum>d\<leftarrow>[0..<length es]. is ! d * (prod_list (drop (Suc d) es) * s)) = lin es is * s"
    if "length is = length es" for es "is" :: "'a vec"
    using that
  proof (induction es arbitrary: "is")
    case (Cons e es)
    then obtain i is' where i: "is = i # is'" by (cases "is") auto
    have "(\<Sum>d\<leftarrow>[0..<length (e # es)]. is ! d * (prod_list (drop (Suc d) (e # es)) * s))
        = i * (prod_list es * s) + (\<Sum>d\<leftarrow>[0..<length es]. is' ! d * (prod_list (drop (Suc d) es) * s))"
      by (simp only: list.size upt_conv_Cons[of 0] i)
         (simp add: comp_def upt_conv_Cons flip: map_Suc_upt del: upt_Suc)
    then show ?case using Cons i by (simp add: algebra_simps)
  qed simp
  moreover have "(\<Sum>d\<leftarrow>[0..<length extent]. idx ! d * calculatePitchesFromExtents s extent ! d)
      = (\<Sum>d\<leftarrow>[0..<length extent]. idx ! d * (prod_list (drop (Suc d) extent) * s))"
    by (intro arg_cong[of _ _ sum_list] map_cong refl)
      (simp add: calculatePitchesFromExtents_nth(2)[OF assms(1)])
  ultimately show ?thesis
    using assms by simp
qed

text \<open>
  Property C27. The pitches computed from the extents are the row-major strides in bytes: weighting an
  index with them gives the element size times its linear index, for every integer type.
\<close>

theorem calculatePitches_row_major:
  assumes "extent \<noteq> []" "length idx = length extent"
  shows "(\<Sum>d\<leftarrow>[0..<length extent]. idx ! d * calculatePitchesFromExtents s extent ! d)
       = linearize extent idx * (s :: 'a::semiring_modulo)"
proof -
  have "idx \<noteq> []" using assms by auto
  then show ?thesis using pitches_lin[OF assms] linearize_lin assms(2) by metis
qed

theorem calculatePitches_row_major_witness:
  "(\<Sum>d\<leftarrow>[0..<length [2, 3, 4 :: nat]].
      [1, 2, 3] ! d * calculatePitchesFromExtents 8 [2, 3, 4 :: nat] ! d)
     = linearize [2, 3, 4] [1, 2, 3] * 8"
  by (rule calculatePitches_row_major) simp_all

section \<open>Nested loops\<close>

text \<open>
  \<^verbatim>\<open>ndLoopImpl\<close>: one loop per dimension of the index sequence, the index vector shared and mutated,
  the body called with it at the innermost level. The caller's state is threaded as \<open>s\<close>.
\<close>

fun ndLoopImpl :: "nat list \<Rightarrow> nat vec \<Rightarrow> nat vec \<Rightarrow> (nat vec \<Rightarrow> 's \<Rightarrow> 's) \<Rightarrow> 's \<Rightarrow> nat vec \<times> 's" where
  "ndLoopImpl [] idx extent f s = (idx, f idx s)"
| "ndLoopImpl (d # ds) idx extent f s =
     (let (idx, s) = for_upto 0 (extent ! d)
            (\<lambda>i (idx, s). ndLoopImpl ds (idx[d := i]) extent f s) (idx, s)
      in (idx[d := extent ! d], s))"

definition ndLoop :: "nat list \<Rightarrow> nat vec \<Rightarrow> nat vec \<Rightarrow> (nat vec \<Rightarrow> 's \<Rightarrow> 's) \<Rightarrow> 's \<Rightarrow> nat vec \<times> 's" where
  "ndLoop indexSequence idx extent f s = ndLoopImpl indexSequence idx extent f s"

definition ndLoopIncIdx :: "nat vec \<Rightarrow> (nat vec \<Rightarrow> 's \<Rightarrow> 's) \<Rightarrow> 's \<Rightarrow> 's" where
  "ndLoopIncIdx extent f s =
     snd (ndLoop [0..<length extent] (vec_fill (length extent) 0) extent f s)"

text \<open>
  The loop nest below level \<open>k\<close> leaves the outer index components alone and calls the body with
  every completion of them, the last component running fastest.
\<close>

lemma ndLoopImpl_fold:
  assumes "length idx = n" "length extent = n" "k \<le> n"
  shows "length (fst (ndLoopImpl [k..<n] idx extent f s)) = n
    \<and> take k (fst (ndLoopImpl [k..<n] idx extent f s)) = take k idx
    \<and> snd (ndLoopImpl [k..<n] idx extent f s) = fold (\<lambda>t. f (take k idx @ t)) (all_idx (drop k extent)) s"
  using assms
proof (induction "n - k" arbitrary: k idx s)
  case 0
  then show ?case by simp
next
  case (Suc m)
  then have k: "k < n" by simp
  note outer = Suc.hyps Suc.prems
  let ?body = "\<lambda>i (idx, s). ndLoopImpl [Suc k..<n] (idx[k := i]) extent f s"
  let ?tails = "all_idx (drop (Suc k) extent)"
  have loop: "length (fst (for_upto 0 j ?body (idx, s))) = n
      \<and> take k (fst (for_upto 0 j ?body (idx, s))) = take k idx
      \<and> snd (for_upto 0 j ?body (idx, s))
        = fold (\<lambda>t. f (take k idx @ t)) (concat (map (\<lambda>i. map ((#) i) ?tails) [0..<j])) s" for j
  proof (induction j)
    case 0
    then show ?case using Suc.prems by simp
  next
    case (Suc j)
    obtain idx' s' where p: "for_upto 0 j ?body (idx, s) = (idx', s')" by fastforce
    with Suc have idx': "length idx' = n" "take k idx' = take k idx" by auto
    have S: "for_upto 0 (Suc j) ?body (idx, s) = ndLoopImpl [Suc k..<n] (idx'[k := j]) extent f s'"
      by (simp add: for_upto_Suc p)
    have tk: "take (Suc k) (idx'[k := j]) = take k idx @ [j]"
      using idx' k by (simp add: take_Suc_conv_app_nth)
    note IH = outer(1)[of "Suc k" "idx'[k := j]" s']
    have ih: "length (fst (ndLoopImpl [Suc k..<n] (idx'[k := j]) extent f s')) = n"
      "take (Suc k) (fst (ndLoopImpl [Suc k..<n] (idx'[k := j]) extent f s')) = take k idx @ [j]"
      "snd (ndLoopImpl [Suc k..<n] (idx'[k := j]) extent f s')
        = fold (\<lambda>t. f (take k idx @ j # t)) ?tails s'"
      using IH outer(2,4) idx' k by (auto simp: tk)
    let ?r = "fst (ndLoopImpl [Suc k..<n] (idx'[k := j]) extent f s')"
    have "take k ?r = take k (take (Suc k) ?r)" by (simp add: take_take min_def)
    also have "\<dots> = take k idx" using outer(3) k by (simp only: ih(2)) simp
    finally have "take k ?r = take k idx" .
    with ih show ?case
      using Suc.IH p by (simp add: S fold_map comp_def)
  qed
  obtain idx' s' where p: "for_upto 0 (extent ! k) ?body (idx, s) = (idx', s')" by fastforce
  have "[k..<n] = k # [Suc k..<n]" using k by (simp add: upt_conv_Cons)
  moreover have "drop k extent = extent ! k # drop (Suc k) extent"
    using Suc.prems k by (simp add: Cons_nth_drop_Suc)
  ultimately show ?case
    using loop[of "extent ! k"] p by simp
qed

lemma ndLoop_extent_index:
  assumes "length idx = length extent"
  shows "snd (ndLoop [0..<length extent] idx extent f s) = fold f (all_idx extent) s"
  using ndLoopImpl_fold[OF assms refl, of 0 f s] by (simp add: ndLoop_def)

text \<open>
  Property C28. The nested loop calls its body exactly with the indices that \<^verbatim>\<open>mapToND\<close> enumerates, in that
  order: looping over the linear range and looping over the dimensions are the same traversal.
\<close>

theorem ndLoopIncIdx_eq_linear_loop:
  assumes "extent \<noteq> []"
  shows "ndLoopIncIdx extent f s
       = for_upto 0 (prod_list extent) (\<lambda>l. f (mapToND extent l)) s"
proof -
  have "all_idx extent = map (mapToND extent) [0..<prod_list extent]"
    using assms by (simp add: all_idx_unlin mapToND_unlin)
  then show ?thesis
    by (simp add: ndLoopIncIdx_def ndLoop_extent_index vec_fill_def for_upto_def fold_map comp_def)
qed

theorem ndLoopIncIdx_eq_linear_loop_witness:
  "ndLoopIncIdx [2, 2] (\<lambda>i s. s @ [i]) []
     = for_upto 0 4 (\<lambda>l s. s @ [mapToND [2, 2] l]) []"
  using ndLoopIncIdx_eq_linear_loop[of "[2, 2]" "\<lambda>i s. s @ [i]" "[]"] by simp

end
