(* ===== verification/IdxSpace.thy ===== *)
theory IdxSpace
  imports Linear
begin

text \<open>
  Index ranges (\<^verbatim>\<open>mem/IdxRange.hpp\<close>), thread spaces (\<^verbatim>\<open>mem/ThreadSpace.hpp\<close>), the position of a
  thread in its block and grid (\<^verbatim>\<open>onAcc/internal/interfaceImpl.hpp\<close>), worker groups
  (\<^verbatim>\<open>onAcc/WorkerGroup.hpp\<close>), lazy ranges and domain specifications. The arithmetic is that of the
  index type \<open>'a\<close>: a machine word or the naturals, for which the theorems are stated.
\<close>

section \<open>Index ranges\<close>

record 'a IdxRange =
  ir_begin :: "'a vec"
  ir_end :: "'a vec"
  ir_stride :: "'a vec"

definition idxRange3 :: "'a vec \<Rightarrow> 'a vec \<Rightarrow> 'a vec \<Rightarrow> 'a IdxRange" where
  "idxRange3 b e s = \<lparr>ir_begin = b, ir_end = e, ir_stride = s\<rparr>"

definition idxRange2 :: "'a::one vec \<Rightarrow> 'a vec \<Rightarrow> 'a IdxRange" where
  "idxRange2 b e = \<lparr>ir_begin = b, ir_end = e, ir_stride = vec_fill (length e) 1\<rparr>"

definition idxRange1 :: "'a::{zero,one} vec \<Rightarrow> 'a IdxRange" where
  "idxRange1 extent =
     \<lparr>ir_begin = vec_fill (length extent) 0, ir_end = extent, ir_stride = vec_fill (length extent) 1\<rparr>"

definition range_modulo :: "'a::times IdxRange \<Rightarrow> 'a vec \<Rightarrow> 'a IdxRange" where
  "range_modulo r rhs = idxRange3 (ir_begin r) (ir_end r) (vec_mul (ir_stride r) rhs)"

definition range_shift_up :: "'a::plus IdxRange \<Rightarrow> 'a vec \<Rightarrow> 'a IdxRange" where
  "range_shift_up r rhs = idxRange3 (vec_add (ir_begin r) rhs) (vec_add (ir_end r) rhs) (ir_stride r)"

definition range_shift_down :: "'a::minus IdxRange \<Rightarrow> 'a vec \<Rightarrow> 'a IdxRange" where
  "range_shift_down r rhs = idxRange3 (vec_sub (ir_begin r) rhs) (vec_sub (ir_end r) rhs) (ir_stride r)"

definition range_distance :: "'a::minus IdxRange \<Rightarrow> 'a vec" where
  "range_distance r = vec_sub (ir_end r) (ir_begin r)"

definition range_pCast :: "('a \<Rightarrow> 'b) \<Rightarrow> 'a IdxRange \<Rightarrow> 'b IdxRange" where
  "range_pCast c r = idxRange3 (vec_pCast c (ir_begin r)) (vec_pCast c (ir_end r)) (vec_pCast c (ir_stride r))"

definition range_toString :: "('a \<Rightarrow> string) \<Rightarrow> string \<Rightarrow> string \<Rightarrow> 'a IdxRange \<Rightarrow> string" where
  "range_toString str separator enclosings r =
     (let s = vec_toString str '','' ''{}'' in
      enclosing_at 0 enclosings @ s (ir_begin r) @ separator @ s (ir_end r) @ separator
        @ s (ir_stride r) @ enclosing_at 1 enclosings)"

section \<open>Thread spaces\<close>

record 'a ThreadSpace =
  ts_threadIdx :: "'a vec"
  ts_threadCount :: "'a vec"

definition threadSpace :: "'a vec \<Rightarrow> 'a vec \<Rightarrow> 'a ThreadSpace" where
  "threadSpace idx cnt = \<lparr>ts_threadIdx = idx, ts_threadCount = cnt\<rparr>"

lemma threadSpace_sel [simp]:
  "ts_threadIdx (threadSpace idx cnt) = idx" "ts_threadCount (threadSpace idx cnt) = cnt"
  by (simp_all add: threadSpace_def)

definition threadSpace_get :: "nat \<Rightarrow> 'a ThreadSpace \<Rightarrow> 'a vec" where
  "threadSpace_get i ts = (if i = 0 then ts_threadIdx ts else ts_threadCount ts)"

definition threadSpace_pCast :: "('a \<Rightarrow> 'b) \<Rightarrow> 'a ThreadSpace \<Rightarrow> 'b ThreadSpace" where
  "threadSpace_pCast c ts = threadSpace (vec_pCast c (ts_threadIdx ts)) (vec_pCast c (ts_threadCount ts))"

definition threadSpace_toString :: "('a \<Rightarrow> string) \<Rightarrow> string \<Rightarrow> string \<Rightarrow> 'a ThreadSpace \<Rightarrow> string" where
  "threadSpace_toString str separator enclosings ts =
     (let s = vec_toString str '','' ''{}'' in
      enclosing_at 0 enclosings @ s (ts_threadIdx ts) @ separator @ s (ts_threadCount ts)
        @ enclosing_at 1 enclosings)"

text \<open>
  \<^verbatim>\<open>mapTo\<close>: the dimensions that are not selected are folded, one after the other, onto the slowest
  selected one: first all thread indices, then all thread counts.
\<close>

definition mapTo_foldIdx :: "nat \<Rightarrow> 'a::{plus,times,zero} vec \<Rightarrow> nat \<Rightarrow> 'a vec \<Rightarrow> 'a vec" where
  "mapTo_foldIdx slow numThreads d threadIndex =
     (let old = threadIndex ! d; threadIndex = threadIndex[d := 0]
      in threadIndex[slow := threadIndex ! slow + old * numThreads ! slow])"

definition mapTo_foldCount :: "nat \<Rightarrow> nat \<Rightarrow> 'a::{times,one} vec \<Rightarrow> 'a vec" where
  "mapTo_foldCount slow d numThreads =
     (let old = numThreads ! d; numThreads = numThreads[d := 1]
      in numThreads[slow := numThreads ! slow * old])"

definition threadSpace_mapTo :: "nat list \<Rightarrow> 'a::semiring_1 ThreadSpace \<Rightarrow> 'a ThreadSpace" where
  "threadSpace_mapTo selection ts =
     (if length (ts_threadIdx ts) \<le> length selection then ts
      else let notSelectedDims = cvec_filter (iotaCVec (length (ts_threadIdx ts))) selection;
               slow = selection ! 0;
               threadIndex = for_upto 0 (length notSelectedDims)
                 (\<lambda>x. mapTo_foldIdx slow (ts_threadCount ts) (notSelectedDims ! x)) (ts_threadIdx ts);
               numThreads = for_upto 0 (length notSelectedDims)
                 (\<lambda>x. mapTo_foldCount slow (notSelectedDims ! x)) (ts_threadCount ts)
           in threadSpace threadIndex numThreads)"

section \<open>The accelerator as index queries see it\<close>

datatype api = Host | Cuda
datatype deviceKind = Cpu | NumaCpu | Gpu
datatype origin = Origin_thread | Origin_warp | Origin_block | Origin_grid
datatype work_unit = Unit_threads | Unit_warps | Unit_blocks

record 'a acc =
  acc_api :: api
  acc_deviceKind :: deviceKind
  acc_warpSize :: 'a
  acc_hwLane :: 'a \<comment> \<open>the lane register of the hardware, read on CUDA devices only\<close>
  acc_threadIdx :: "'a vec"
  acc_threadCount :: "'a vec"
  acc_blockIdx :: "'a vec"
  acc_blockCount :: "'a vec"

definition warp_getLaneIdx :: "'a::zero acc \<Rightarrow> 'a" where
  "warp_getLaneIdx acc = (case acc_api acc of Host \<Rightarrow> 0 | Cuda \<Rightarrow> acc_hwLane acc)"

definition warp_getWarpIdx :: "'a::semiring_modulo acc \<Rightarrow> 'a" where
  "warp_getWarpIdx acc =
     (case acc_api acc of Host \<Rightarrow> 0
      | Cuda \<Rightarrow> linearize (acc_threadCount acc) (acc_threadIdx acc) div acc_warpSize acc)"

text \<open>\<open>None\<close> stands for a combination without an overload, which does not compile.\<close>

fun getExtentsOf :: "'a::semiring_modulo acc \<Rightarrow> origin \<Rightarrow> work_unit \<Rightarrow> 'a vec option" where
  "getExtentsOf acc Origin_warp Unit_threads = Some [acc_warpSize acc]"
| "getExtentsOf acc Origin_block Unit_threads = Some (acc_threadCount acc)"
| "getExtentsOf acc Origin_block Unit_warps =
     Some [divCeil (vec_product (acc_threadCount acc)) (acc_warpSize acc)]"
| "getExtentsOf acc Origin_grid Unit_blocks = Some (acc_blockCount acc)"
| "getExtentsOf acc Origin_grid Unit_warps =
     (let linearNumWarpsInBlock =
            vec_product [divCeil (vec_product (acc_threadCount acc)) (acc_warpSize acc)];
          linearNumBlocks = vec_product (acc_blockCount acc)
      in Some [linearNumBlocks * linearNumWarpsInBlock])"
| "getExtentsOf acc Origin_grid Unit_threads =
     Some (vec_mul (acc_blockCount acc) (acc_threadCount acc))"
| "getExtentsOf acc Origin_thread Unit_threads = Some (fillCVec (length (acc_threadCount acc)) 1)"
| "getExtentsOf acc _ _ = None"

fun getIdxWithin :: "'a::semiring_modulo acc \<Rightarrow> origin \<Rightarrow> work_unit \<Rightarrow> 'a vec option" where
  "getIdxWithin acc Origin_warp Unit_threads = Some [warp_getLaneIdx acc]"
| "getIdxWithin acc Origin_block Unit_threads = Some (acc_threadIdx acc)"
| "getIdxWithin acc Origin_block Unit_warps = Some [warp_getWarpIdx acc]"
| "getIdxWithin acc Origin_grid Unit_threads =
     Some (vec_add (vec_mul (acc_threadCount acc) (acc_blockIdx acc)) (acc_threadIdx acc))"
| "getIdxWithin acc Origin_grid Unit_warps =
     (let linearBlockIdx = linearize (acc_blockCount acc) (acc_blockIdx acc);
          linearNumWarpsInBlock =
            vec_product [divCeil (vec_product (acc_threadCount acc)) (acc_warpSize acc)]
      in Some (vec_Sop (+) (linearBlockIdx * linearNumWarpsInBlock) [warp_getWarpIdx acc]))"
| "getIdxWithin acc Origin_grid Unit_blocks = Some (acc_blockIdx acc)"
| "getIdxWithin acc Origin_thread Unit_threads = Some (fillCVec (length (acc_threadIdx acc)) 0)"
| "getIdxWithin acc _ _ = None"

section \<open>Worker groups, lazy ranges and domains\<close>

datatype 'a WorkerGroup =
    WG_vectors "'a vec" "'a vec" bool \<comment> \<open>thread index, number of threads, multi-dimensional\<close>
  | WG_lazy origin work_unit bool

fun workerGroup_getThreadSpace :: "'a::semiring_modulo WorkerGroup \<Rightarrow> 'a acc \<Rightarrow> 'a ThreadSpace option" where
  "workerGroup_getThreadSpace (WG_vectors threadIdx numThreads multiDimensional) acc =
     Some (if \<not> multiDimensional
           then threadSpace [linearize numThreads threadIdx] [vec_product numThreads]
           else threadSpace threadIdx numThreads)"
| "workerGroup_getThreadSpace (WG_lazy origin unit' multiDimensional) acc =
     Option.bind (getIdxWithin acc origin unit') (\<lambda>idx.
     Option.bind (getExtentsOf acc origin unit') (\<lambda>extent.
       Some (if \<not> multiDimensional then threadSpace [linearize extent idx] [vec_product extent]
             else threadSpace idx extent)))"

definition worker_threadsInGrid :: "'a WorkerGroup" where "worker_threadsInGrid = WG_lazy Origin_grid Unit_threads True"
definition worker_blocksInGrid :: "'a WorkerGroup" where "worker_blocksInGrid = WG_lazy Origin_grid Unit_blocks True"
definition worker_threadsInBlock :: "'a WorkerGroup" where "worker_threadsInBlock = WG_lazy Origin_block Unit_threads True"
definition worker_linearThreadsInWarp :: "'a WorkerGroup" where "worker_linearThreadsInWarp = WG_lazy Origin_warp Unit_threads True"
definition worker_linearThreadsInBlock :: "'a WorkerGroup" where "worker_linearThreadsInBlock = WG_lazy Origin_block Unit_threads False"
definition worker_linearThreadsInGrid :: "'a WorkerGroup" where "worker_linearThreadsInGrid = WG_lazy Origin_grid Unit_threads False"
definition worker_linearWarpsInBlock :: "'a WorkerGroup" where "worker_linearWarpsInBlock = WG_lazy Origin_block Unit_warps True"
definition worker_linearWarpsInGrid :: "'a WorkerGroup" where "worker_linearWarpsInGrid = WG_lazy Origin_grid Unit_warps True"
definition worker_linearBlocksInGrid :: "'a WorkerGroup" where "worker_linearBlocksInGrid = WG_lazy Origin_grid Unit_blocks False"
definition worker_allThreads :: "'a WorkerGroup" where "worker_allThreads = WG_lazy Origin_thread Unit_threads True"

definition workerGroup_getThreadIdx :: "'a::semiring_modulo WorkerGroup \<Rightarrow> 'a acc \<Rightarrow> 'a vec option" where
  "workerGroup_getThreadIdx wg acc = map_option ts_threadIdx (workerGroup_getThreadSpace wg acc)"

definition workerGroup_getThreadCount :: "'a::semiring_modulo WorkerGroup \<Rightarrow> 'a acc \<Rightarrow> 'a vec option" where
  "workerGroup_getThreadCount wg acc = map_option ts_threadCount (workerGroup_getThreadSpace wg acc)"

datatype 'a range_spec =
    Range_given "'a IdxRange"
  | Range_fn "'a acc \<Rightarrow> 'a vec"
  | Range_lazy origin work_unit bool

fun rangeSpec_getIdxRange :: "'a::semiring_modulo range_spec \<Rightarrow> 'a acc \<Rightarrow> 'a IdxRange option" where
  "rangeSpec_getIdxRange (Range_given r) acc = Some r"
| "rangeSpec_getIdxRange (Range_fn extentFn) acc = Some (idxRange1 (extentFn acc))"
| "rangeSpec_getIdxRange (Range_lazy origin unit' multiDimensional) acc =
     map_option
       (\<lambda>extent. if \<not> multiDimensional then idxRange1 [vec_product extent] else idxRange1 extent)
       (getExtentsOf acc origin unit')"

record 'a DomainSpec =
  ds_threadGroup :: "'a WorkerGroup + 'a ThreadSpace"
  ds_idxRange :: "'a range_spec"

definition domainSpec_getIdxRange :: "'a::semiring_modulo DomainSpec \<Rightarrow> 'a acc \<Rightarrow> 'a IdxRange option" where
  "domainSpec_getIdxRange d acc = rangeSpec_getIdxRange (ds_idxRange d) acc"

definition domainSpec_getThreadSpace :: "'a::semiring_modulo DomainSpec \<Rightarrow> 'a acc \<Rightarrow> 'a ThreadSpace option" where
  "domainSpec_getThreadSpace d acc =
     (case ds_threadGroup d of Inl wg \<Rightarrow> workerGroup_getThreadSpace wg acc | Inr ts \<Rightarrow> Some ts)"

section \<open>Bijections between index spaces\<close>

lemma in_extents_nth: "in_extents idx ext \<longleftrightarrow> length idx = length ext \<and> (\<forall>i < length ext. idx ! i < ext ! i)"
  by (auto simp: list_all2_conv_all_nth)

text \<open>
  An injective map between two index spaces of the same size hits every index exactly once.
\<close>

lemma mset_map_all_idx:
  assumes "inj_on f {t. in_extents t N}" "\<And>t. in_extents t N \<Longrightarrow> in_extents (f t) E"
    and "prod_list N = prod_list E"
  shows "mset (map f (all_idx N)) = mset (all_idx E)"
proof -
  have d: "distinct (map f (all_idx N))"
    using assms(1) by (simp add: distinct_map distinct_all_idx set_all_idx)
  have sub: "set (map f (all_idx N)) \<subseteq> set (all_idx E)"
    using assms(2) by (auto simp: set_all_idx)
  have "card (set (map f (all_idx N))) = card (set (all_idx E))"
    using distinct_card[OF d] distinct_card[OF distinct_all_idx[of E]] assms(3)
    by (simp add: length_all_idx)
  with sub have "set (map f (all_idx N)) = set (all_idx E)"
    by (intro card_subset_eq) simp_all
  then show ?thesis
    using set_eq_iff_mset_eq_distinct[OF d distinct_all_idx] by blast
qed

lemma mset_map_product_all_idx:
  assumes "inj_on f ({b. in_extents b B} \<times> {t. in_extents t T})"
    and "\<And>b t. in_extents b B \<Longrightarrow> in_extents t T \<Longrightarrow> in_extents (f (b, t)) E"
    and "prod_list B * prod_list T = prod_list E"
  shows "mset (map f (List.product (all_idx B) (all_idx T))) = mset (all_idx E)"
proof -
  let ?l = "List.product (all_idx B) (all_idx T)"
  have d: "distinct (map f ?l)"
    using assms(1) by (simp add: distinct_map distinct_product distinct_all_idx set_all_idx)
  have sub: "set (map f ?l) \<subseteq> set (all_idx E)"
    using assms(2) by (auto simp: set_all_idx)
  have "card (set (map f ?l)) = card (set (all_idx E))"
    using distinct_card[OF d] distinct_card[OF distinct_all_idx[of E]] assms(3)
    by (simp add: length_all_idx)
  with sub have "set (map f ?l) = set (all_idx E)"
    by (intro card_subset_eq) simp_all
  then show ?thesis
    using set_eq_iff_mset_eq_distinct[OF d distinct_all_idx] by blast
qed

lemma prod_list_vec_mul:
  "length xs = length ys \<Longrightarrow> prod_list (vec_mul xs ys) = prod_list xs * (prod_list ys :: nat)"
  by (induction xs ys rule: list_induct2) (simp_all add: vec_op_map2)

section \<open>Every thread of the grid has its own index\<close>

lemma grid_index_less: "b < B \<Longrightarrow> t < T \<Longrightarrow> T * b + t < B * (T :: nat)"
proof -
  assume "b < B" "t < T"
  then have "T * b + t < T * Suc b" by simp
  also have "\<dots> \<le> T * B" using \<open>b < B\<close> by (intro mult_le_mono2) simp
  finally show ?thesis by (simp add: mult.commute)
qed

lemma grid_index_inj:
  assumes "t < T" "t' < T" "T * b + t = T * b' + (t' :: nat)"
  shows "b = b' \<and> t = t'"
proof -
  from assms(3) have "(T * b + t) div T = (T * b' + t') div T" "(T * b + t) mod T = (T * b' + t') mod T"
    by simp_all
  with assms(1,2) show ?thesis by simp
qed

lemma worker_threadsInGrid_nth:
  assumes "length (acc_blockIdx acc) = n" "length (acc_threadIdx acc) = n"
    "length (acc_threadCount acc) = n" "length (acc_blockCount acc) = n"
  shows "workerGroup_getThreadSpace worker_threadsInGrid acc
     = Some (threadSpace
         (map (\<lambda>i. acc_threadCount acc ! i * acc_blockIdx acc ! i + acc_threadIdx acc ! i) [0..<n])
         (vec_mul (acc_blockCount acc) (acc_threadCount acc)))"
proof -
  have "vec_add (vec_mul (acc_threadCount acc) (acc_blockIdx acc)) (acc_threadIdx acc)
      = map (\<lambda>i. acc_threadCount acc ! i * acc_blockIdx acc ! i + acc_threadIdx acc ! i) [0..<n]"
    using assms by (intro nth_equalityI) (simp_all add: vec_op_def)
  then show ?thesis by (simp add: worker_threadsInGrid_def)
qed

lemma grid_indices_mset:
  assumes "length B = length T"
  shows "mset (map (\<lambda>(b, t). the (workerGroup_getThreadIdx worker_threadsInGrid
                (a\<lparr>acc_blockIdx := b, acc_threadIdx := t, acc_blockCount := B, acc_threadCount := T\<rparr>)))
              (List.product (all_idx B) (all_idx T)))
         = mset (all_idx (vec_mul B (T :: nat vec)))"
    (is "mset (map ?f _) = _")
proof -
  let ?n = "length T"
  have f: "?f (b, t) = map (\<lambda>i. T ! i * b ! i + t ! i) [0..<?n]"
    if "length b = ?n" "length t = ?n" for b t
    using that assms by (simp add: workerGroup_getThreadIdx_def worker_threadsInGrid_nth threadSpace_def)
  show ?thesis
  proof (rule mset_map_product_all_idx)
    show "inj_on ?f ({b. in_extents b B} \<times> {t. in_extents t T})"
    proof (rule inj_onI)
      fix x y
      assume x: "x \<in> {b. in_extents b B} \<times> {t. in_extents t T}"
        and y: "y \<in> {b. in_extents b B} \<times> {t. in_extents t T}" and eq: "?f x = ?f y"
      obtain b t b' t' where p: "x = (b, t)" "y = (b', t')" by fastforce
      with x y have 1: "in_extents b B" "in_extents t T" "in_extents b' B" "in_extents t' T" by auto
      from eq p have 2: "?f (b, t) = ?f (b', t')" by (simp only:)
      note len = 1[THEN list_all2_lengthD]
      have "T ! i * b ! i + t ! i = T ! i * b' ! i + t' ! i" if "i < ?n" for i
        using 2 f[of b t] f[of b' t'] len that assms by simp
      moreover have "t ! i < T ! i" "t' ! i < T ! i" if "i < ?n" for i
        using 1 that by (simp_all add: in_extents_nth)
      ultimately have "b ! i = b' ! i \<and> t ! i = t' ! i" if "i < ?n" for i
        using that grid_index_inj by blast
      then have "b = b'" "t = t'" using len assms by (simp_all add: list_eq_iff_nth_eq)
      then show "x = y" by (simp add: p)
    qed
    fix b t assume 1: "in_extents b B" "in_extents t T"
    note len = 1[THEN list_all2_lengthD]
    show "in_extents (?f (b, t)) (vec_mul B T)"
      using 1 len assms by (subst f) (auto simp: in_extents_nth vec_op_def intro: grid_index_less)
  qed (use assms in \<open>simp add: prod_list_vec_mul\<close>)
qed

text \<open>
  The worker group of all threads of a grid numbers them without gap or repetition: over all
  blocks and all threads of a block, the indices are those of the index space
  \<^verbatim>\<open>blockCount * threadCount\<close>, each exactly once, and every thread reports that extent.
\<close>

theorem threadsInGrid_enumerates:
  assumes "length B = length T"
  shows "mset (map (\<lambda>(b, t). the (workerGroup_getThreadIdx worker_threadsInGrid
                (a\<lparr>acc_blockIdx := b, acc_threadIdx := t, acc_blockCount := B, acc_threadCount := T\<rparr>)))
              (List.product (all_idx B) (all_idx T)))
         = mset (all_idx (vec_mul B T))
       \<and> workerGroup_getThreadCount worker_threadsInGrid (a\<lparr>acc_blockCount := B, acc_threadCount := T\<rparr>)
           = Some (vec_mul B (T :: nat vec))"
  using grid_indices_mset[OF assms]
  by (simp add: workerGroup_getThreadCount_def worker_threadsInGrid_def threadSpace_def)

theorem threadsInGrid_enumerates_witness:
  "workerGroup_getThreadCount worker_threadsInGrid
     (\<lparr>acc_api = Host, acc_deviceKind = Cpu, acc_warpSize = 1, acc_hwLane = 0, acc_threadIdx = [0, 0],
       acc_threadCount = [2, 4], acc_blockIdx = [0, 0], acc_blockCount = [3, 5]\<rparr>) = Some [6, 20 :: nat]"
  using threadsInGrid_enumerates[of "[3, 5]" "[2, 4]"
    "\<lparr>acc_api = Host, acc_deviceKind = Cpu, acc_warpSize = 1, acc_hwLane = 0, acc_threadIdx = [0, 0],
       acc_threadCount = [2, 4], acc_blockIdx = [0, 0], acc_blockCount = [3, 5]\<rparr>"]
  by (simp add: vec_op_def)

section \<open>Selecting dimensions\<close>

lemma threadSpace_mapTo_full:
  "length t \<le> length sel \<Longrightarrow> threadSpace_mapTo sel (threadSpace t N) = threadSpace t N"
  by (simp add: threadSpace_mapTo_def threadSpace_def)

text \<open>With one dimension \<open>d\<close> left out, the fold adds its index, scaled, to the slowest selected one.\<close>

lemma threadSpace_mapTo_one:
  assumes "length t = Suc (length sel)" "distinct sel" "set sel \<subseteq> {..<length t}"
  obtains d where "d < length t" "d \<notin> set sel" "{..<length t} = insert d (set sel)"
    and "\<And>u. length u = length t \<Longrightarrow> threadSpace_mapTo sel (threadSpace u N)
          = threadSpace (u[d := 0, sel ! 0 := u[d := 0] ! (sel ! 0) + u ! d * N ! (sel ! 0)])
              (N[d := 1, sel ! 0 := N[d := 1] ! (sel ! 0) * (N ! d :: 'a::semiring_1)])"
proof -
  let ?ns = "cvec_filter (iotaCVec (length t)) sel"
  have "length ?ns = 1"
    using cvec_filter_iota_length[OF assms(3,2)] assms(1) by simp
  then obtain d where d: "?ns = [d]" by (auto simp: length_Suc_conv)
  then have s: "{..<length t} - set sel = {d}"
    using cvec_filter_iota_set[of "length t" sel] by simp
  show ?thesis
  proof (rule that[of d])
    show "d < length t" "d \<notin> set sel" "{..<length t} = insert d (set sel)"
      using s assms(3) by auto
    fix u :: "'a vec" assume "length u = length t"
    then show "threadSpace_mapTo sel (threadSpace u N)
          = threadSpace (u[d := 0, sel ! 0 := u[d := 0] ! (sel ! 0) + u ! d * N ! (sel ! 0)])
              (N[d := 1, sel ! 0 := N[d := 1] ! (sel ! 0) * N ! d])"
      using assms(1) d by (simp add: threadSpace_mapTo_def threadSpace_def for_upto_def
          mapTo_foldIdx_def mapTo_foldCount_def Let_def)
  qed
qed

text \<open>The selected components of the mapped index and count.\<close>

definition mapped_idx :: "nat list \<Rightarrow> nat vec \<Rightarrow> nat vec \<Rightarrow> nat vec" where
  "mapped_idx sel N t = vec_swizzle (ts_threadIdx (threadSpace_mapTo sel (threadSpace t N))) sel"

definition mapped_count :: "nat list \<Rightarrow> nat vec \<Rightarrow> nat vec" where
  "mapped_count sel N = vec_swizzle (ts_threadCount (threadSpace_mapTo sel (threadSpace N N))) sel"

lemma prod_list_swizzle:
  "distinct sel \<Longrightarrow> prod_list (vec_swizzle v sel) = (\<Prod>i\<in>set sel. v ! i :: nat)"
  by (simp add: vec_swizzle_def prod.distinct_set_conv_list)

lemma prod_list_prod: "prod_list v = (\<Prod>i<length v. v ! i :: nat)"
  by (metis prod.distinct_set_conv_list distinct_upt map_nth set_upt atLeast0LessThan)

lemma mapTo_full_bij:
  assumes "distinct sel" "set sel = {..<length N}"
  shows "mset (map (mapped_idx sel N) (all_idx N)) = mset (all_idx (mapped_count sel N))"
proof -
  have len: "length sel = length N"
    using distinct_card[OF assms(1)] assms(2) by simp
  have f: "mapped_idx sel N t = vec_swizzle t sel" if "length t = length N" for t
    using that len by (simp add: mapped_idx_def threadSpace_mapTo_full)
  have c: "mapped_count sel N = vec_swizzle N sel"
    using len by (simp add: mapped_count_def threadSpace_mapTo_full)
  show ?thesis
  proof (rule mset_map_all_idx)
    show "inj_on (mapped_idx sel N) {t. in_extents t N}"
    proof (rule inj_onI, simp only: mem_Collect_eq)
      fix t u assume 1: "in_extents t N" "in_extents u N" and 2: "mapped_idx sel N t = mapped_idx sel N u"
      note l = 1[THEN list_all2_lengthD]
      with 2 have "\<forall>i \<in> set sel. t ! i = u ! i" by (simp add: f vec_swizzle_def)
      with l assms(2) show "t = u" by (simp add: list_eq_iff_nth_eq)
    qed
    show "in_extents (mapped_idx sel N t) (mapped_count sel N)" if t: "in_extents t N" for t
    proof -
      have "\<forall>i \<in> set sel. t ! i < N ! i" using t assms(2) by (simp add: in_extents_nth)
      then show ?thesis
        using list_all2_lengthD[OF t] by (simp add: f c vec_swizzle_def list_all2_map1 list_all2_map2 list_all2_same)
    qed
    show "prod_list N = prod_list (mapped_count sel N)"
      using assms by (simp only: c prod_list_swizzle) (simp add: prod_list_prod)
  qed
qed

lemma mapTo_one_bij:
  assumes "length N = Suc (length sel)" "distinct sel" "set sel \<subseteq> {..<length N}" "sel \<noteq> []"
  shows "mset (map (mapped_idx sel N) (all_idx N)) = mset (all_idx (mapped_count sel N))"
proof -
  let ?s = "sel ! 0"
  obtain d where d: "d < length N" "d \<notin> set sel" "{..<length N} = insert d (set sel)"
    and m: "\<And>u. length u = length N \<Longrightarrow> threadSpace_mapTo sel (threadSpace u N)
          = threadSpace (u[d := 0, ?s := u[d := 0] ! ?s + u ! d * N ! ?s])
              (N[d := 1, ?s := N[d := 1] ! ?s * N ! d])"
    using threadSpace_mapTo_one[OF assms(1-3)] by metis
  have s: "?s \<in> set sel" "?s < length N" "?s \<noteq> d"
    using assms(3,4) d(2) by (auto simp: in_set_conv_nth subset_iff)
  have f: "mapped_idx sel N t = map (\<lambda>i. if i = ?s then t ! ?s + t ! d * N ! ?s else t ! i) sel"
    if "length t = length N" for t
    using that s d(2) assms(3)
    by (simp add: mapped_idx_def m vec_swizzle_def nth_list_update cong: if_cong) (metis nth_list_update_neq)
  have c: "mapped_count sel N = map (\<lambda>i. if i = ?s then N ! ?s * N ! d else N ! i) sel"
    using s d(2) assms(3)
    by (simp add: mapped_count_def m vec_swizzle_def nth_list_update cong: if_cong) (metis nth_list_update_neq)
  have less: "x + y * N ! ?s < N ! ?s * N ! d" if "x < N ! ?s" "y < N ! d" for x y
    using grid_index_less[OF that(2) that(1)] by (simp add: mult.commute add.commute)
  show ?thesis
  proof (rule mset_map_all_idx)
    show "inj_on (mapped_idx sel N) {t. in_extents t N}"
    proof (rule inj_onI, simp only: mem_Collect_eq)
      fix t u assume 1: "in_extents t N" "in_extents u N" and 2: "mapped_idx sel N t = mapped_idx sel N u"
      note l = 1[THEN list_all2_lengthD]
      have 3: "\<forall>i \<in> set sel. (if i = ?s then t ! ?s + t ! d * N ! ?s else t ! i)
          = (if i = ?s then u ! ?s + u ! d * N ! ?s else u ! i)"
        using 2 l by (simp add: f)
      have "N ! ?s * t ! d + t ! ?s = N ! ?s * u ! d + u ! ?s"
        using bspec[OF 3 s(1)] by (simp add: ac_simps)
      moreover have "t ! ?s < N ! ?s" "u ! ?s < N ! ?s" using 1 s by (simp_all add: in_extents_nth)
      ultimately have "t ! d = u ! d \<and> t ! ?s = u ! ?s" by (intro grid_index_inj)
      with 3 have "\<forall>i \<in> insert d (set sel). t ! i = u ! i" by (auto split: if_splits)
      with l d(3) show "t = u" by (simp add: list_eq_iff_nth_eq flip: d(3))
    qed
    show "in_extents (mapped_idx sel N t) (mapped_count sel N)" if t: "in_extents t N" for t
    proof -
      have lt: "t ! i < N ! i" if "i < length N" for i using t that by (simp add: in_extents_nth)
      have "\<forall>i \<in> set sel. (if i = ?s then t ! ?s + t ! d * N ! ?s else t ! i)
          < (if i = ?s then N ! ?s * N ! d else N ! i)"
        using lt less s d(1) assms(3) by (auto intro: less)
      then show ?thesis
        using list_all2_lengthD[OF t] by (simp add: f c list_all2_map1 list_all2_map2 list_all2_same)
    qed
    show "prod_list N = prod_list (mapped_count sel N)"
    proof -
      have "prod_list (mapped_count sel N) = (\<Prod>i\<in>set sel. if i = ?s then N ! ?s * N ! d else N ! i)"
        using assms(2) by (simp add: c prod.distinct_set_conv_list)
      also have "\<dots> = N ! ?s * N ! d * (\<Prod>i\<in>set sel - {?s}. N ! i)"
        using s(1) by (subst prod.remove[of _ ?s]) (auto intro!: prod.cong)
      also have "\<dots> = N ! d * (\<Prod>i\<in>set sel. N ! i)"
        using s(1) by (simp add: prod.remove[of _ ?s] ac_simps)
      also have "\<dots> = (\<Prod>i\<in>insert d (set sel). N ! i)"
        using d(2) by simp
      finally show ?thesis by (simp add: prod_list_prod d(3))
    qed
  qed
qed

lemma mapTo_bij:
  assumes "distinct sel" "set sel \<subseteq> {..<length N}" "length N \<le> Suc (length sel)" "sel \<noteq> []"
  shows "mset (map (mapped_idx sel N) (all_idx N)) = mset (all_idx (mapped_count sel N))"
proof -
  have "length sel \<le> length N"
    using card_mono[OF _ assms(2)] distinct_card[OF assms(1)] by simp
  then consider "length sel = length N" | "length N = Suc (length sel)" using assms(3) by linarith
  then show ?thesis
  proof cases
    case 1
    then have "set sel = {..<length N}"
      using assms(1,2) distinct_card[OF assms(1)] by (intro card_subset_eq) simp_all
    then show ?thesis by (rule mapTo_full_bij[OF assms(1)])
  next
    case 2
    then show ?thesis using assms(1,2,4) by (rule mapTo_one_bij)
  qed
qed

lemma prod_mapped_count:
  assumes "distinct sel" "set sel \<subseteq> {..<length N}" "length N \<le> Suc (length sel)" "sel \<noteq> []"
  shows "prod_list (mapped_count sel N) = prod_list N"
  using arg_cong[OF mapTo_bij[OF assms], of size] by (simp add: length_all_idx)

text \<open>The dimensions left out have index 0 and count 1 after the mapping, whatever the thread.\<close>

lemma mapTo_left_out:
  assumes "distinct sel" "set sel \<subseteq> {..<length N}" "length N \<le> Suc (length sel)" "sel \<noteq> []"
    and "length t = length N"
  shows "length (ts_threadIdx (threadSpace_mapTo sel (threadSpace t N))) = length N"
    and "i < length N \<Longrightarrow> i \<notin> set sel \<Longrightarrow> ts_threadIdx (threadSpace_mapTo sel (threadSpace t N)) ! i = (0 :: nat)"
    and "ts_threadCount (threadSpace_mapTo sel (threadSpace t N)) = ts_threadCount (threadSpace_mapTo sel (threadSpace N N))"
    and "length (ts_threadCount (threadSpace_mapTo sel (threadSpace N N))) = length N"
proof -
  have "length sel \<le> length N"
    using card_mono[OF _ assms(2)] distinct_card[OF assms(1)] by simp
  then consider "length N \<le> length sel" | "length N = Suc (length sel)" using assms(3) by linarith
  then have "length (ts_threadIdx (threadSpace_mapTo sel (threadSpace t N))) = length N
    \<and> (\<forall>i < length N. i \<notin> set sel \<longrightarrow> ts_threadIdx (threadSpace_mapTo sel (threadSpace t N)) ! i = 0)
    \<and> ts_threadCount (threadSpace_mapTo sel (threadSpace t N)) = ts_threadCount (threadSpace_mapTo sel (threadSpace N N))
    \<and> length (ts_threadCount (threadSpace_mapTo sel (threadSpace N N))) = length N"
  proof cases
    case 1
    moreover have "set sel = {..<length N}"
      using 1 \<open>length sel \<le> length N\<close> assms(1,2) distinct_card[OF assms(1)] by (intro card_subset_eq) simp_all
    ultimately show ?thesis using assms(5) by (simp add: threadSpace_mapTo_full)
  next
    case 2
    obtain d where d: "d < length N" "{..<length N} = insert d (set sel)"
      and m: "\<And>u. length u = length N \<Longrightarrow> threadSpace_mapTo sel (threadSpace u N)
          = threadSpace (u[d := 0, sel ! 0 := u[d := 0] ! (sel ! 0) + u ! d * N ! (sel ! 0)])
              (N[d := 1, sel ! 0 := N[d := 1] ! (sel ! 0) * N ! d])"
      using threadSpace_mapTo_one[OF 2 assms(1,2)] by metis
    have "i = d" if "i < length N" "i \<notin> set sel" for i using that d(2) by blast
    moreover have "sel ! 0 \<in> set sel" using assms(4) by simp
    ultimately show ?thesis
      using assms(5) d(1) by (simp add: m) (metis nth_list_update_eq nth_list_update_neq)
  qed
  then show "length (ts_threadIdx (threadSpace_mapTo sel (threadSpace t N))) = length N"
    and "i < length N \<Longrightarrow> i \<notin> set sel \<Longrightarrow> ts_threadIdx (threadSpace_mapTo sel (threadSpace t N)) ! i = (0 :: nat)"
    and "ts_threadCount (threadSpace_mapTo sel (threadSpace t N)) = ts_threadCount (threadSpace_mapTo sel (threadSpace N N))"
    and "length (ts_threadCount (threadSpace_mapTo sel (threadSpace N N))) = length N"
    by blast+
qed

text \<open>
  Property C19. \<^verbatim>\<open>mapTo\<close> renumbers the threads without collision when at most one dimension is left out:
  over all threads, the selected components run through the mapped index space exactly once.
\<close>

theorem mapTo_bijective:
  assumes "distinct sel" "set sel \<subseteq> {..<length N}" "length N \<le> Suc (length sel)" "sel \<noteq> []"
  shows "mset (map (\<lambda>t. vec_swizzle (ts_threadIdx (threadSpace_mapTo sel (threadSpace t N))) sel) (all_idx N))
       = mset (all_idx (vec_swizzle (ts_threadCount (threadSpace_mapTo sel (threadSpace N N))) sel))"
  using mapTo_bij[OF assms] by (simp add: mapped_count_def mapped_idx_def[abs_def])

theorem mapTo_bijective_witness:
  "mset (map (\<lambda>t. vec_swizzle (ts_threadIdx (threadSpace_mapTo [1] (threadSpace t [2, 3]))) [1]) (all_idx [2, 3]))
     = mset (all_idx [6])"
proof -
  have "vec_swizzle (ts_threadCount (threadSpace_mapTo [1] (threadSpace [2, 3] [2, 3]))) [1] = [6 :: nat]"
    by code_simp
  then show ?thesis using mapTo_bijective[of "[1]" "[2, 3]"] by simp
qed

text \<open>
  With two dimensions left out two threads collide, and slots stay unused: the loop over the
  indices scales every index by the same, not yet updated, thread count.
\<close>

lemma mapTo_collision_example:
  "map (\<lambda>t. vec_swizzle (ts_threadIdx (threadSpace_mapTo [0] (threadSpace t [1, 2, 2]))) [0]) (all_idx [1, 2, 2])
     = [[0], [1], [1], [2 :: nat]]
   \<and> vec_swizzle (ts_threadCount (threadSpace_mapTo [0] (threadSpace [0, 0, 0] [1, 2, 2]))) [0] = [4 :: nat]"
  by code_simp

end
