(* ===== verification/Odometer.thy ===== *)
theory Odometer
  imports IdxSpace
begin

text \<open>
  What the index iterators share: arithmetic progressions and their partition among workers,
  strided or in chunks, and the odometer, a vector of digits of which the last runs fastest,
  each with its own start, step and bound. \<^verbatim>\<open>TiledIdxContainer::ConstIterator\<close>,
  \<^verbatim>\<open>MdForwardIter\<close> and the boundary iterator all step an odometer.
\<close>

section \<open>Progressions\<close>

text \<open>The values \<open>c, c + s, c + 2 * s, ...\<close> below \<open>e\<close>.\<close>

definition progression :: "nat \<Rightarrow> nat \<Rightarrow> nat \<Rightarrow> nat list" where
  "progression e s c = map (\<lambda>k. c + k * s) [0..<divCeil (e - c) s]"

lemma progression_empty [simp]: "e \<le> c \<Longrightarrow> progression e s c = []"
  by (cases "s = 0") (simp_all add: progression_def divCeil_def)

lemma progression_eq_Nil_iff: "0 < s \<Longrightarrow> progression e s c = [] \<longleftrightarrow> e \<le> c"
  using divCeil_nat_less_iff[of s 0 "e - c"] by (auto simp: progression_def)

lemma progression_step:
  assumes "0 < s" "c < e"
  shows "progression e s c = c # progression e s (c + s)"
proof -
  have "divCeil (e - c) s = Suc (divCeil (e - (c + s)) s)"
  proof (cases "e - c \<le> s")
    case True
    then have "divCeil (e - c) s \<le> 1" using assms divCeil_nat_le_iff[of s "e - c" 1] by simp
    moreover have "0 < divCeil (e - c) s" using assms divCeil_nat_less_iff[of s 0 "e - c"] by simp
    ultimately show ?thesis using True assms(1) by (simp add: divCeil_def)
  next
    case False
    then have "e - c + s - 1 = e - (c + s) + s - 1 + s" using assms by simp
    then have "divCeil (e - c) s = (e - (c + s) + s - 1 + s) div s" by (simp add: divCeil_def)
    also have "\<dots> = Suc (divCeil (e - (c + s)) s)"
      using assms(1) by (simp only: div_add_self2 divCeil_def)
    finally show ?thesis .
  qed
  then have "progression e s c = map (\<lambda>k. c + k * s) (0 # map Suc [0..<divCeil (e - (c + s)) s])"
    by (simp add: progression_def upt_conv_Cons map_Suc_upt del: upt_Suc)
  then show ?thesis by (simp add: progression_def comp_def add.assoc)
qed

lemma set_progression:
  "0 < s \<Longrightarrow> x \<in> set (progression e s c) \<longleftrightarrow> c \<le> x \<and> x < e \<and> s dvd x - c"
proof -
  assume s: "0 < s"
  have "x \<in> set (progression e s c) \<longleftrightarrow> (\<exists>k. x = c + k * s \<and> k * s < e - c)"
    using s by (auto simp: progression_def divCeil_nat_less_iff)
  also have "\<dots> \<longleftrightarrow> c \<le> x \<and> x < e \<and> s dvd x - c"
  proof
    assume "c \<le> x \<and> x < e \<and> s dvd x - c"
    then obtain k where "x - c = k * s" "c \<le> x" "x < e" by (auto simp: dvd_def mult.commute)
    then have "x = c + k * s" "k * s < e - c" by simp_all
    then show "\<exists>k. x = c + k * s \<and> k * s < e - c" by blast
  qed auto
  finally show ?thesis .
qed

lemma sorted_distinct_progression: "0 < s \<Longrightarrow> sorted_wrt (<) (progression e s c)"
  by (simp add: progression_def sorted_wrt_map)

text \<open>Strided workers: the values with remainder \<open>k\<close> modulo \<open>T\<close> belong to worker \<open>k\<close>.\<close>

lemma progression_filter:
  assumes "k < T"
  shows "progression E T k = filter (\<lambda>x. x mod T = k) [0..<E]"
proof (rule sorted_distinct_set_unique)
  have T: "0 < T" using assms by simp
  note s = sorted_distinct_progression[OF T, of E k]
  show "sorted (progression E T k)" "distinct (progression E T k)"
    using s by (auto simp: strict_sorted_iff)
  show "set (progression E T k) = set (filter (\<lambda>x. x mod T = k) [0..<E])"
  proof (rule set_eqI)
    fix x
    have "k \<le> x \<and> T dvd x - k \<longleftrightarrow> x mod T = k"
      using assms mod_eq_dvd_iff_nat[of k x T] mod_less_eq_dividend[of x T] mod_less[OF assms] by auto
    then show "x \<in> set (progression E T k) \<longleftrightarrow> x \<in> set (filter (\<lambda>x. x mod T = k) [0..<E])"
      using T by (auto simp: set_progression)
  qed
qed (simp_all add: sorted_wrt_filter)

lemma mset_concat_filter_key:
  "mset (concat (map (\<lambda>k. filter (\<lambda>x. f x = k) xs) [0..<T])) = mset (filter (\<lambda>x. f x < T) xs)"
proof (induction T)
  case (Suc T)
  have "mset (filter (\<lambda>x. f x < Suc T) xs) = mset (filter (\<lambda>x. f x < T) xs) + mset (filter (\<lambda>x. f x = T) xs)"
    by (induction xs) auto
  with Suc show ?case by simp
qed simp

lemma strided_partition:
  assumes "0 < T"
  shows "mset (concat (map (progression E T) [0..<T])) = mset [0..<E]"
proof -
  have "map (progression E T) [0..<T] = map (\<lambda>k. filter (\<lambda>x. x mod T = k) [0..<E]) [0..<T]"
    by (rule map_cong[OF refl]) (simp add: progression_filter)
  moreover have "filter (\<lambda>x. x mod T < T) [0..<E] = [0..<E]"
    using assms by (simp add: filter_id_conv)
  ultimately show ?thesis
    using mset_concat_filter_key[of "\<lambda>x. x mod T" "[0..<E]" T] by (simp only:)
qed

text \<open>Chunked workers: worker \<open>k\<close> gets \<open>E div T\<close> values, and one more while there is a remainder.\<close>

definition chunk_start :: "nat \<Rightarrow> nat \<Rightarrow> nat \<Rightarrow> nat" where
  "chunk_start E T k = k * (E div T) + min k (E mod T)"

lemma chunk_start_mono: "j \<le> k \<Longrightarrow> chunk_start E T j \<le> chunk_start E T k"
  by (auto simp: chunk_start_def intro!: add_mono mult_le_mono1)

lemma chunk_start_end: "0 < T \<Longrightarrow> chunk_start E T T = E"
  by (simp add: chunk_start_def min_def) (metis div_mult_mod_eq less_imp_le mod_less_divisor mult.commute not_le)

lemma chunk_start_le: "0 < T \<Longrightarrow> k \<le> T \<Longrightarrow> chunk_start E T k \<le> E"
  using chunk_start_mono[of k T E T] chunk_start_end by simp

lemma upt_append: "i \<le> j \<Longrightarrow> j \<le> k \<Longrightarrow> [i..<j] @ [j..<k] = [i..<k]"
  by (metis le_Suc_ex upt_add_eq_append)

lemma concat_chunks:
  "(\<And>j k. j \<le> k \<Longrightarrow> f j \<le> f k) \<Longrightarrow> concat (map (\<lambda>k. [f k..<f (Suc k)]) [0..<T]) = [f 0..<f T]"
proof (induction T)
  case (Suc T)
  have "f 0 \<le> f T" "f T \<le> f (Suc T)" using Suc.prems by simp_all
  moreover have "concat (map (\<lambda>k. [f k..<f (Suc k)]) [0..<T]) = [f 0..<f T]"
    using Suc.prems by (rule Suc.IH)
  ultimately show ?case by (simp add: upt_append)
qed simp

lemma contiguous_partition:
  assumes "0 < T"
  shows "concat (map (\<lambda>k. [chunk_start E T k..<chunk_start E T (Suc k)]) [0..<T]) = [0..<E]"
  using concat_chunks[of "chunk_start E T" T] chunk_start_mono chunk_start_end[OF assms]
  by (simp add: chunk_start_def)

section \<open>Products\<close>

lemma all_idx_product: "all_idx es = product_lists (map (\<lambda>e. [0..<e]) es)"
  by (induction es) simp_all

lemma product_lists_Nil: "[] \<in> set xss \<Longrightarrow> product_lists xss = []"
  by (induction xss) auto

lemma mset_concat_map_cong:
  "(\<And>x. x \<in> set xs \<Longrightarrow> mset (f x) = mset (g x)) \<Longrightarrow> mset (concat (map f xs)) = mset (concat (map g xs))"
  by (induction xs) auto

lemma mset_concat_swap:
  "mset (concat (map (\<lambda>x. concat (map (\<lambda>y. f x y) ys)) xs))
     = mset (concat (map (\<lambda>y. concat (map (\<lambda>x. f x y) xs)) ys))"
proof (induction xs)
  case (Cons x xs)
  have "mset (concat (map (\<lambda>y. f x y @ concat (map (\<lambda>x. f x y) xs)) ys))
      = mset (concat (map (f x) ys)) + mset (concat (map (\<lambda>y. concat (map (\<lambda>x. f x y) xs)) ys))"
    by (induction ys) simp_all
  with Cons show ?case by simp
next
  case Nil
  have "concat (map (\<lambda>y. []) ys) = []" by (induction ys) simp_all
  then show ?case by simp
qed

lemma mset_concat_map_sum: "mset (concat (map f xs)) = sum_mset (image_mset (\<lambda>x. mset (f x)) (mset xs))"
  by (induction xs) simp_all

lemma mset_concat_map_mset:
  "mset xs = mset ys \<Longrightarrow> mset (concat (map f xs)) = mset (concat (map f ys))"
  by (simp only: mset_concat_map_sum)

lemma concat_concat_map: "concat (concat xss) = concat (map concat xss)"
  by (induction xss) simp_all

text \<open>
  If in every dimension the lists of the workers partition that dimension, then the products
  of the workers partition the product of the dimensions.
\<close>

lemma product_partition:
  assumes "\<forall>(c, P, Q) \<in> set items. mset (concat (map P [0..<c])) = mset Q"
  shows "mset (concat (map (\<lambda>u. product_lists (map2 (\<lambda>(c, P, Q) i. P i) items u)) (all_idx (map fst items))))
       = mset (product_lists (map (\<lambda>(c, P, Q). Q) items))"
  using assms
proof (induction items)
  case (Cons item items)
  obtain c P Q where item: "item = (c, P, Q)" by (cases item)
  let ?us = "all_idx (map fst items)"
  let ?p = "\<lambda>u. product_lists (map2 (\<lambda>(c, P, Q) i. P i) items u)"
  let ?R = "product_lists (map (\<lambda>(c, P, Q). Q) items)"
  have IH: "mset (concat (map ?p ?us)) = mset ?R" using Cons by simp
  have row: "mset (concat (map (\<lambda>u. map ((#) x) (?p u)) ?us)) = mset (map ((#) x) ?R)" for x
    using arg_cong[OF IH, of "image_mset ((#) x)"] by (simp add: map_concat comp_def flip: mset_map)
  have inner: "mset (concat (map (\<lambda>u. concat (map (\<lambda>x. map ((#) x) (?p u)) (P i))) ?us))
      = mset (concat (map (\<lambda>x. map ((#) x) ?R) (P i)))" for i
    by (subst mset_concat_swap) (rule mset_concat_map_cong, rule row)
  have "mset (concat (map (\<lambda>u. product_lists (map2 (\<lambda>(c, P, Q) i. P i) (item # items) u)) (all_idx (map fst (item # items)))))
      = mset (concat (map (\<lambda>i. concat (map (\<lambda>u. concat (map (\<lambda>x. map ((#) x) (?p u)) (P i))) ?us)) [0..<c]))"
    by (simp add: item map_concat comp_def concat_concat_map)
  also have "\<dots> = mset (concat (map (\<lambda>i. concat (map (\<lambda>x. map ((#) x) ?R) (P i))) [0..<c]))"
    by (rule mset_concat_map_cong) (rule inner)
  also have "\<dots> = mset (concat (map (\<lambda>x. map ((#) x) ?R) (concat (map P [0..<c]))))"
    by (simp add: map_concat comp_def concat_concat_map)
  also have "\<dots> = mset (concat (map (\<lambda>x. map ((#) x) ?R) Q))"
    using Cons.prems item by (intro mset_concat_map_mset) simp
  finally show ?case by (simp add: item)
qed simp

section \<open>The odometer\<close>

text \<open>A digit is its first value, its step and its bound.\<close>

type_synonym digit = "nat \<times> nat \<times> nat"

definition digit_values :: "digit \<Rightarrow> nat list" where
  "digit_values d = (case d of (f, s, e) \<Rightarrow> progression e s f)"

definition odo_all :: "digit list \<Rightarrow> nat vec list" where
  "odo_all ds = product_lists (map digit_values ds)"

text \<open>What is left, the current reading included.\<close>

fun odo_rest :: "digit list \<Rightarrow> nat vec \<Rightarrow> nat vec list" where
  "odo_rest [] cs = [[]]"
| "odo_rest ((f, s, e) # ds) (c # cs) =
     (if c < e
      then map ((#) c) (odo_rest ds cs) @ concat (map (\<lambda>x. map ((#) x) (odo_all ds)) (progression e s (c + s)))
      else [])"
| "odo_rest ds [] = []"

text \<open>
  The increment as the iterators write it: from digit \<open>k - 1\<close> down, add the step; a digit that
  reaches its bound restarts and carries, the slowest one never restarts.
\<close>

fun odo_inc :: "nat vec \<Rightarrow> nat vec \<Rightarrow> nat vec \<Rightarrow> nat \<Rightarrow> nat vec \<Rightarrow> nat vec" where
  "odo_inc fs ss es 0 cs = cs"
| "odo_inc fs ss es (Suc k) cs =
     (let cs = cs[k := cs ! k + ss ! k] in
      if k \<ge> 1 \<and> cs ! k \<ge> es ! k then odo_inc fs ss es k (cs[k := fs ! k]) else cs)"

text \<open>The same increment by recursion on the digits, with an explicit carry.\<close>

fun wrap_inc :: "digit list \<Rightarrow> nat vec \<Rightarrow> bool \<times> nat vec" where
  "wrap_inc ((f, s, e) # ds) (c # cs) =
     (let (carry, cs') = wrap_inc ds cs in
      if carry then (if c + s \<ge> e then (True, f # cs') else (False, (c + s) # cs'))
      else (False, c # cs'))"
| "wrap_inc ds cs = (True, [])"

fun top_inc :: "digit list \<Rightarrow> nat vec \<Rightarrow> nat vec" where
  "top_inc ((f, s, e) # ds) (c # cs) =
     (let (carry, cs') = wrap_inc ds cs in (if carry then c + s else c) # cs')"
| "top_inc ds cs = []"

lemma wrap_inc_append:
  "length ds = length cs \<Longrightarrow> wrap_inc (ds @ ds') (cs @ cs') =
     (let (carry, t') = wrap_inc ds' cs' in
      if carry then (let (c, t) = wrap_inc ds cs in (c, t @ t')) else (False, cs @ t'))"
proof (induction ds cs rule: list_induct2)
  case Nil
  then show ?case by (cases "wrap_inc ds' cs'") simp
next
  case (Cons d ds c cs)
  then show ?case
    by (cases d; cases "wrap_inc ds' cs'"; cases "wrap_inc ds cs") auto
qed

lemma length_wrap_inc [simp]: "length ds = length cs \<Longrightarrow> length (snd (wrap_inc ds cs)) = length cs"
  by (induction ds cs rule: list_induct2) (auto simp: split_beta)

lemma odo_inc_top:
  assumes "length ds = length cs" "1 \<le> k" "k \<le> length cs"
  shows "odo_inc (map fst ds) (map (fst \<circ> snd) ds) (map (snd \<circ> snd) ds) k cs
       = top_inc (take k ds) (take k cs) @ drop k cs"
  using assms
proof (induction k arbitrary: cs)
  case (Suc k)
  obtain f s e where d: "ds ! k = (f, s, e)" by (cases "ds ! k")
  have k: "k < length cs" "k < length ds" using Suc.prems by auto
  have sn: "take (Suc k) ds = take k ds @ [(f, s, e)]" "take (Suc k) cs = take k cs @ [cs ! k]"
    using k d by (simp_all add: take_Suc_conv_app_nth)
  show ?case
  proof (cases "k = 0")
    case True
    then obtain c cs' where "cs = c # cs'" using k by (cases cs) auto
    with True sn d k show ?thesis by simp
  next
    case False
    obtain d0 dr where tds: "take k ds = d0 # dr" using False k by (cases "take k ds") auto
    obtain c0 cr where tcs: "take k cs = c0 # cr" using False k by (cases "take k cs") auto
    have l: "length dr = length cr" using arg_cong[OF tds, of length] arg_cong[OF tcs, of length] k by simp
    obtain f0 s0 e0 where d0: "d0 = (f0, s0, e0)" by (cases d0)
    show ?thesis
    proof (cases "cs ! k + s \<ge> e")
      case True
      let ?cs = "cs[k := f]"
      have "odo_inc (map fst ds) (map (fst \<circ> snd) ds) (map (snd \<circ> snd) ds) (Suc k) cs
          = odo_inc (map fst ds) (map (fst \<circ> snd) ds) (map (snd \<circ> snd) ds) k ?cs"
        using True False d k by simp
      also have "\<dots> = top_inc (take k ds) (take k ?cs) @ drop k ?cs"
        using Suc False by (intro Suc.IH) auto
      also have "drop k ?cs = f # drop (Suc k) cs"
        using k by (metis Cons_nth_drop_Suc drop_update_cancel length_list_update lessI nth_list_update_eq)
      finally show ?thesis
        using True l by (simp add: sn tds tcs d0 wrap_inc_append split_beta)
    next
      case False': False
      have "odo_inc (map fst ds) (map (fst \<circ> snd) ds) (map (snd \<circ> snd) ds) (Suc k) cs = cs[k := cs ! k + s]"
        using False False' d k by simp
      also have "\<dots> = take k cs @ (cs ! k + s) # drop (Suc k) cs"
        using k by (simp add: upd_conv_take_nth_drop)
      finally have r: "odo_inc (map fst ds) (map (fst \<circ> snd) ds) (map (snd \<circ> snd) ds) (Suc k) cs
        = take k cs @ (cs ! k + s) # drop (Suc k) cs" .
      show ?thesis
        unfolding r using False' l by (simp add: sn tds tcs d0 wrap_inc_append split_beta)
    qed
  qed
qed simp

definition odo_valid :: "digit list \<Rightarrow> nat vec \<Rightarrow> bool" where
  "odo_valid ds cs = list_all2 (\<lambda>(f, s, e) c. 0 < s \<and> f < e \<and> c < e) ds cs"

lemma odo_rest_first: "\<forall>(f, s, e) \<in> set ds. 0 < s \<Longrightarrow> odo_rest ds (map fst ds) = odo_all ds"
  by (induction ds) (auto simp: odo_all_def digit_values_def progression_step)

lemma wrap_inc_rest:
  "odo_valid ds cs \<Longrightarrow>
     (case wrap_inc ds cs of
        (True, cs') \<Rightarrow> cs' = map fst ds \<and> odo_rest ds cs = [cs]
      | (False, cs') \<Rightarrow> odo_valid ds cs' \<and> odo_rest ds cs = cs # odo_rest ds cs')"
  unfolding odo_valid_def
proof (induction ds cs rule: list_all2_induct)
  case (Cons d ds c cs)
  obtain f s e where d: "d = (f, s, e)" by (cases d)
  from Cons(1) d have 1: "0 < s" "f < e" "c < e" by auto
  have pos: "\<forall>(f, s, e) \<in> set ds. 0 < s" using Cons(2) by (fastforce simp: list_all2_conv_all_nth in_set_conv_nth)
  note first = odo_rest_first[OF pos]
  obtain carry cs' where w: "wrap_inc ds cs = (carry, cs')" by fastforce
  show ?case
  proof (cases carry)
    case True
    with Cons.IH w have IH: "cs' = map fst ds" "odo_rest ds cs = [cs]" by simp_all
    have valid: "list_all2 (\<lambda>(f, s, e) c. 0 < s \<and> f < e \<and> c < e) ds (map fst ds)"
      using Cons(2) by (fastforce simp: list_all2_conv_all_nth)
    show ?thesis
      using 1 True w IH first valid d progression_step[of s "c + s" e]
      by (auto simp: odo_rest_first simp del: progression_step)
  next
    case False
    with Cons.IH w have "list_all2 (\<lambda>(f, s, e) c. 0 < s \<and> f < e \<and> c < e) ds cs'"
      "odo_rest ds cs = cs # odo_rest ds cs'" by simp_all
    with 1 False w d show ?thesis by simp
  qed
qed simp

text \<open>
  One increment drops exactly the current reading from what is left; after the last reading the
  slowest digit has reached its bound.
\<close>

lemma top_inc_rest:
  assumes "odo_valid (d # ds) (c # cs)"
  shows "odo_rest (d # ds) (c # cs) = (c # cs) # odo_rest (d # ds) (top_inc (d # ds) (c # cs))"
    and "length (top_inc (d # ds) (c # cs)) = length (c # cs)"
    and "\<exists>c' cs'. top_inc (d # ds) (c # cs) = c' # cs' \<and> odo_valid ds cs'"
proof -
  obtain f s e where d: "d = (f, s, e)" by (cases d)
  from assms d have 1: "0 < s" "f < e" "c < e" and v: "odo_valid ds cs" by (auto simp: odo_valid_def)
  have pos: "\<forall>(f, s, e) \<in> set ds. 0 < s"
    using v by (fastforce simp: odo_valid_def list_all2_conv_all_nth in_set_conv_nth)
  have valid: "odo_valid ds (map fst ds)"
    using v by (fastforce simp: odo_valid_def list_all2_conv_all_nth)
  obtain carry cs' where w: "wrap_inc ds cs = (carry, cs')" by fastforce
  have len: "length ds = length cs" using v by (simp add: odo_valid_def list_all2_lengthD)
  note R = wrap_inc_rest[OF v]
  show "odo_rest (d # ds) (c # cs) = (c # cs) # odo_rest (d # ds) (top_inc (d # ds) (c # cs))"
    using 1 w R d odo_rest_first[OF pos] progression_step[of s "c + s" e]
    by (cases carry; cases "c + s < e") auto
  show "length (top_inc (d # ds) (c # cs)) = length (c # cs)"
    using w d length_wrap_inc[OF len] by simp
  show "\<exists>c' cs'. top_inc (d # ds) (c # cs) = c' # cs' \<and> odo_valid ds cs'"
    using w d R valid by (cases carry) auto
qed

end
