(* ===== verification/FlatIdx.thy ===== *)
theory FlatIdx
  imports Odometer
begin

text \<open>
  \<^verbatim>\<open>FlatIdxContainer\<close> (\<^verbatim>\<open>mem/FlatIdxContainer.hpp\<close>): a worker's share of an index range as a forward
  range over linear indices, strided or in contiguous chunks. The theorems say which indices a
  worker visits and that the workers of a thread space share the range without gap or overlap.
\<close>

datatype idxLayout = Strided | Contiguous

record 'a idxContainer =
  ic_range :: "'a IdxRange"
  ic_threadSpace :: "'a ThreadSpace"
  ic_layout :: idxLayout
  ic_select :: "nat list"

definition idxContainer :: "'a IdxRange \<Rightarrow> 'a ThreadSpace \<Rightarrow> idxLayout \<Rightarrow> nat list \<Rightarrow> 'a idxContainer" where
  "idxContainer r ts l sel = \<lparr>ic_range = r, ic_threadSpace = ts, ic_layout = l, ic_select = sel\<rparr>"

lemma idxContainer_sel [simp]:
  "ic_range (idxContainer r ts l sel) = r" "ic_threadSpace (idxContainer r ts l sel) = ts"
  "ic_layout (idxContainer r ts l sel) = l" "ic_select (idxContainer r ts l sel) = sel"
  by (simp_all add: idxContainer_def)

text \<open>\<^verbatim>\<open>container[iterDir]\<close> re-targets the container to other dimensions.\<close>

definition flat_select :: "'a idxContainer \<Rightarrow> nat list \<Rightarrow> 'a idxContainer" where
  "flat_select c iterDir = idxContainer (ic_range c) (ic_threadSpace c) (ic_layout c) iterDir"

section \<open>The iterator\<close>

record 'a flatIter =
  fi_offsetMD :: "'a vec"
  fi_current :: 'a
  fi_end :: 'a
  fi_stride :: 'a
  fi_extentMD :: "'a vec"
  fi_strideMD :: "'a vec"

definition flatIter :: "'a vec \<Rightarrow> 'a \<Rightarrow> 'a \<Rightarrow> 'a \<Rightarrow> 'a vec \<Rightarrow> 'a vec \<Rightarrow> 'a flatIter" where
  "flatIter offsetMD current stride stop extentMD strideMD =
     \<lparr>fi_offsetMD = offsetMD, fi_current = current, fi_end = stop, fi_stride = stride,
      fi_extentMD = extentMD, fi_strideMD = strideMD\<rparr>"

definition flat_deref :: "nat list \<Rightarrow> 'a::semiring_modulo flatIter \<Rightarrow> 'a vec" where
  "flat_deref sel it =
     vec_refUpdate (+) (fi_offsetMD it) sel
       (vec_mul (mapToND (fi_extentMD it) (fi_current it)) (fi_strideMD it))"

definition flat_inc :: "'a::plus flatIter \<Rightarrow> 'a flatIter" where
  "flat_inc it = it\<lparr>fi_current := fi_current it + fi_stride it\<rparr>"

definition flat_post_inc :: "'a::plus flatIter \<Rightarrow> 'a flatIter \<times> 'a flatIter" where
  "flat_post_inc it = (it, flat_inc it)"

definition flat_eq :: "nat list \<Rightarrow> 'a::semiring_modulo flatIter \<Rightarrow> 'a flatIter \<Rightarrow> bool" where
  "flat_eq sel it other = vec_eq (flat_deref sel it) (flat_deref sel other)"

text \<open>Comparison with the end, which is only the bound of the linear index.\<close>

definition flat_at_end :: "'a::ord \<Rightarrow> 'a flatIter \<Rightarrow> bool" where
  "flat_at_end stop it = (fi_current it \<ge> stop)"

definition flat_begin :: "'a::{semiring_modulo,linorder} idxContainer \<Rightarrow> 'a flatIter" where
  "flat_begin c =
     (let sel = ic_select c; r = ic_range c;
          mapped = threadSpace_mapTo sel (ic_threadSpace c);
          threadIdx = ts_threadIdx mapped; numThreads = ts_threadCount mapped;
          groupOffset = vec_mul threadIdx (ir_stride r);
          groupOffset = vec_refUpdate (-) groupOffset sel (vec_swizzle groupOffset sel);
          begin' = vec_add (ir_begin r) groupOffset;
          strideMD = vec_swizzle (ir_stride r) sel;
          extentMD = vec_divCeil (vec_swizzle (range_distance r) sel) strideMD
      in case ic_layout c of
        Strided \<Rightarrow>
          (let linearCurrent = linearize (vec_swizzle numThreads sel) (vec_swizzle threadIdx sel);
               linearStride = vec_product (vec_swizzle numThreads sel)
           in flatIter begin' linearCurrent linearStride (vec_product extentMD) extentMD strideMD)
      | Contiguous \<Rightarrow>
          (let threadCountMD = vec_swizzle (ts_threadCount (ic_threadSpace c)) sel;
               numWorkerSlots = vec_product threadCountMD;
               linearSlotIdx = linearize threadCountMD (vec_swizzle threadIdx sel);
               logicalExtent = vec_product extentMD;
               base = logicalExtent div numWorkerSlots;
               rem = logicalExtent mod numWorkerSlots;
               nextLinearSlotIdx = linearSlotIdx + 1;
               linearCurrent = linearSlotIdx * base + min linearSlotIdx rem;
               linearEnd = nextLinearSlotIdx * base + min nextLinearSlotIdx rem
           in flatIter begin' linearCurrent 1 (min linearEnd logicalExtent) extentMD strideMD))"

definition flat_end :: "'a::{semiring_modulo,linorder} idxContainer \<Rightarrow> 'a" where
  "flat_end c =
     (let sel = ic_select c; r = ic_range c;
          mapped = threadSpace_mapTo sel (ic_threadSpace c);
          threadIdx = ts_threadIdx mapped; numThreads = ts_threadCount mapped;
          strideMD = vec_swizzle (ir_stride r) sel;
          extentMD = vec_divCeil (vec_swizzle (range_distance r) sel) strideMD
      in case ic_layout c of
        Strided \<Rightarrow> vec_product extentMD
      | Contiguous \<Rightarrow>
          (let numWorkerSlots = vec_product (vec_swizzle numThreads sel);
               linearSlotIdx = linearize (vec_swizzle numThreads sel) (vec_swizzle threadIdx sel);
               logicalExtent = vec_product extentMD;
               base = logicalExtent div numWorkerSlots;
               rem = logicalExtent mod numWorkerSlots;
               nextLinearSlotIdx = linearSlotIdx + 1;
               linearEnd = nextLinearSlotIdx * base + min nextLinearSlotIdx rem
           in min linearEnd logicalExtent))"

text \<open>The indices a worker's range-based loop sees; \<open>None\<close> when the loop does not end.\<close>

definition flat_indices :: "'a::{semiring_modulo,linorder} idxContainer \<Rightarrow> 'a vec list option" where
  "flat_indices c =
     range_for (flat_at_end (flat_end c)) flat_inc (flat_deref (ic_select c)) (flat_begin c)"

section \<open>The traversal\<close>

definition flat_remaining :: "nat \<Rightarrow> nat list \<Rightarrow> nat flatIter \<Rightarrow> nat vec list" where
  "flat_remaining stop sel it =
     map (\<lambda>l. flat_deref sel (it\<lparr>fi_current := l\<rparr>)) (progression stop (fi_stride it) (fi_current it))"

interpretation flat_iter: forward_iter
  "flat_at_end stop" flat_inc "flat_deref sel" "\<lambda>it. 0 < fi_stride it" "flat_remaining stop sel"
  for stop :: nat and sel
proof
  fix it :: "nat flatIter"
  assume s: "0 < fi_stride it"
  then show "flat_at_end stop it \<longleftrightarrow> flat_remaining stop sel it = []"
    by (simp add: flat_at_end_def flat_remaining_def progression_eq_Nil_iff)
  assume "\<not> flat_at_end stop it"
  then show "flat_remaining stop sel it = flat_deref sel it # flat_remaining stop sel (flat_inc it)"
    using s by (simp add: flat_at_end_def flat_remaining_def flat_inc_def progression_step)
  show "0 < fi_stride (flat_inc it)" using s by (simp add: flat_inc_def)
qed

text \<open>The index a linear position of a range stands for.\<close>

definition range_extent :: "nat IdxRange \<Rightarrow> nat list \<Rightarrow> nat vec" where
  "range_extent r sel = vec_divCeil (vec_swizzle (range_distance r) sel) (vec_swizzle (ir_stride r) sel)"

definition range_point :: "nat IdxRange \<Rightarrow> nat list \<Rightarrow> nat vec \<Rightarrow> nat vec" where
  "range_point r sel k = vec_refUpdate (+) (ir_begin r) sel (vec_mul k (vec_swizzle (ir_stride r) sel))"

definition range_points :: "nat IdxRange \<Rightarrow> nat list \<Rightarrow> nat vec list" where
  "range_points r sel = map (range_point r sel) (all_idx (range_extent r sel))"

text \<open>What the loops assume: vectors of one dimension, selected dimensions distinct and in range.\<close>

definition wf_range :: "nat IdxRange \<Rightarrow> nat list \<Rightarrow> nat vec \<Rightarrow> bool" where
  "wf_range r sel N \<longleftrightarrow> length (ir_begin r) = length N \<and> length (ir_end r) = length N
     \<and> length (ir_stride r) = length N \<and> (\<forall>s \<in> set (ir_stride r). 0 < s)
     \<and> (\<forall>n \<in> set N. 0 < n) \<and> distinct sel \<and> set sel \<subseteq> {..<length N} \<and> sel \<noteq> []
     \<and> length N \<le> Suc (length sel)"

section \<open>What a worker visits\<close>

lemma groupOffset_zero:
  assumes "wf_range r sel N" "length t = length N"
  shows "vec_add (ir_begin r)
      (vec_refUpdate (-) (vec_mul (ts_threadIdx (threadSpace_mapTo sel (threadSpace t N))) (ir_stride r)) sel
        (vec_swizzle (vec_mul (ts_threadIdx (threadSpace_mapTo sel (threadSpace t N))) (ir_stride r)) sel))
    = ir_begin r"
proof -
  let ?idx = "ts_threadIdx (threadSpace_mapTo sel (threadSpace t N))"
  let ?g = "vec_mul ?idx (ir_stride r)"
  from assms have wf: "distinct sel" "set sel \<subseteq> {..<length N}" "length N \<le> Suc (length sel)" "sel \<noteq> []"
    and lb: "length (ir_begin r) = length N" by (auto simp: wf_range_def)
  note lo = mapTo_left_out[OF wf assms(2)]
  have lg: "length ?g = length N" using lo(1) by simp
  have sub: "set sel \<subseteq> {..<length ?g}" using wf(2) lg by simp
  note ru = vec_refUpdate_nth[OF wf(1) sub, where f = "(-)" and w = "vec_swizzle ?g sel"]
  have "vec_refUpdate (-) ?g sel (vec_swizzle ?g sel) ! i = 0" if i: "i < length N" for i
  proof (cases "i \<in> set sel")
    case True
    then obtain k where "k < length sel" "sel ! k = i" by (auto simp: in_set_conv_nth)
    then show ?thesis using ru(2)[of k] by (simp add: vec_swizzle_def)
  next
    case False
    then show ?thesis using ru(3)[of i] lo(1) lo(2)[OF i False] i by (simp add: vec_swizzle_def)
  qed
  then show ?thesis
    using ru(1) lg lb by (intro nth_equalityI) (simp_all add: vec_swizzle_def)
qed

lemma range_extent_length: "length (range_extent r sel) = length sel"
  by (simp add: range_extent_def vec_divCeil_def vec_swizzle_def)

lemma vec_swizzle_Nil_iff [simp]: "vec_swizzle v sel = [] \<longleftrightarrow> sel = []"
  by (simp add: vec_swizzle_def)

lemma flat_deref_point:
  assumes "sel \<noteq> []" "fi_offsetMD it = ir_begin r" "fi_extentMD it = range_extent r sel"
    "fi_strideMD it = vec_swizzle (ir_stride r) sel"
  shows "flat_deref sel it = range_point r sel (unlin (range_extent r sel) (fi_current it))"
proof -
  have "range_extent r sel \<noteq> []" using assms(1) range_extent_length by (metis length_0_conv)
  then show ?thesis using assms by (simp add: flat_deref_def range_point_def mapToND_unlin)
qed

lemma flat_strided_begin:
  assumes "wf_range r sel N" "length t = length N"
  shows "flat_begin (idxContainer r (threadSpace t N) Strided sel)
     = flatIter (ir_begin r) (lin (mapped_count sel N) (mapped_idx sel N t)) (prod_list N)
         (prod_list (range_extent r sel)) (range_extent r sel) (vec_swizzle (ir_stride r) sel)"
    and "flat_end (idxContainer r (threadSpace t N) Strided sel) = prod_list (range_extent r sel)"
proof -
  from assms have wf: "distinct sel" "set sel \<subseteq> {..<length N}" "length N \<le> Suc (length sel)" "sel \<noteq> []"
    by (auto simp: wf_range_def)
  note lo = mapTo_left_out[OF wf assms(2)]
  have ne: "range_extent r sel \<noteq> []" using wf(4) range_extent_length by (metis length_0_conv)
  have pe: "vec_product (range_extent r sel) = prod_list (range_extent r sel)"
    using ne by (rule vec_product_prod_list)
  have lin: "linearize (mapped_count sel N) (mapped_idx sel N t) = lin (mapped_count sel N) (mapped_idx sel N t)"
    using wf(4) by (intro linearize_lin) (simp_all add: mapped_count_def mapped_idx_def, simp add: vec_swizzle_def)
  have pc: "vec_product (mapped_count sel N) = prod_list N"
    using vec_product_prod_list[of "mapped_count sel N"] prod_mapped_count[OF wf] wf(4)
    by (simp add: mapped_count_def)
  show "flat_begin (idxContainer r (threadSpace t N) Strided sel)
     = flatIter (ir_begin r) (lin (mapped_count sel N) (mapped_idx sel N t)) (prod_list N)
         (prod_list (range_extent r sel)) (range_extent r sel) (vec_swizzle (ir_stride r) sel)"
    by (simp add: flat_begin_def Let_def groupOffset_zero[OF assms] lo(3) flip: lin pc pe)
      (simp add: mapped_count_def mapped_idx_def range_extent_def)
  show "flat_end (idxContainer r (threadSpace t N) Strided sel) = prod_list (range_extent r sel)"
    by (simp add: flat_end_def Let_def range_extent_def flip: pe[unfolded range_extent_def])
qed

lemma flat_indices_strided:
  assumes "wf_range r sel N" "length t = length N"
  shows "flat_indices (idxContainer r (threadSpace t N) Strided sel)
     = Some (map (\<lambda>l. range_point r sel (unlin (range_extent r sel) l))
         (progression (prod_list (range_extent r sel)) (prod_list N) (lin (mapped_count sel N) (mapped_idx sel N t))))"
proof -
  note b = flat_strided_begin[OF assms]
  have pos: "0 < prod_list N" "sel \<noteq> []"
    using assms(1) by (simp_all add: wf_range_def prod_list_pos_nat)
  have "flat_indices (idxContainer r (threadSpace t N) Strided sel)
      = Some (flat_remaining (flat_end (idxContainer r (threadSpace t N) Strided sel)) sel
          (flat_begin (idxContainer r (threadSpace t N) Strided sel)))"
    using pos(1) by (simp add: flat_indices_def) (rule flat_iter.range_for_remaining, simp add: b(1) flatIter_def)
  then show ?thesis
    using pos(2) by (simp add: b flat_remaining_def flatIter_def flat_deref_point)
qed

lemma flat_strided_mset:
  assumes "wf_range r sel N"
  shows "mset (concat (map (\<lambda>t. the (flat_indices (idxContainer r (threadSpace t N) Strided sel))) (all_idx N)))
         = mset (range_points r sel)"
proof -
  from assms have wf: "distinct sel" "set sel \<subseteq> {..<length N}" "length N \<le> Suc (length sel)" "sel \<noteq> []"
    by (auto simp: wf_range_def)
  let ?P = "\<lambda>l. range_point r sel (unlin (range_extent r sel) l)"
  let ?E = "prod_list (range_extent r sel)" let ?T = "prod_list N" let ?C = "mapped_count sel N"
  have T: "0 < ?T" using assms by (simp add: wf_range_def prod_list_pos_nat)
  have C: "?C \<noteq> []" "prod_list ?C = ?T"
    using wf(4) prod_mapped_count[OF wf] by (simp_all add: mapped_count_def)
  have E: "range_extent r sel \<noteq> []" using wf(4) range_extent_length by (metis length_0_conv)
  have "map (lin ?C) (all_idx ?C) = [0..<?T]"
    using C by (simp add: all_idx_unlin comp_def lin_unlin)
  then have lin: "mset (map (\<lambda>t. lin ?C (mapped_idx sel N t)) (all_idx N)) = mset [0..<?T]"
    using arg_cong[OF mapTo_bij[OF wf], of "image_mset (lin ?C)"] by (simp add: comp_def flip: mset_map)
  have "concat (map (\<lambda>t. the (flat_indices (idxContainer r (threadSpace t N) Strided sel))) (all_idx N))
      = concat (map (\<lambda>t. map ?P (progression ?E ?T (lin ?C (mapped_idx sel N t)))) (all_idx N))"
    by (intro arg_cong[of _ _ concat] map_cong refl)
      (simp add: flat_indices_strided[OF assms] set_all_idx list_all2_lengthD)
  also have "\<dots> = map ?P (concat (map (progression ?E ?T) (map (\<lambda>t. lin ?C (mapped_idx sel N t)) (all_idx N))))"
    by (simp add: map_concat comp_def)
  finally have "mset (concat (map (\<lambda>t. the (flat_indices (idxContainer r (threadSpace t N) Strided sel))) (all_idx N)))
      = image_mset ?P (mset (concat (map (progression ?E ?T) [0..<?T])))"
    using mset_concat_map_mset[OF lin, of "progression ?E ?T"] by simp
  also have "\<dots> = mset (map ?P [0..<?E])" using strided_partition[OF T, of ?E] by simp
  also have "map ?P [0..<?E] = range_points r sel"
    using E by (simp add: range_points_def all_idx_unlin comp_def)
  finally show ?thesis .
qed

text \<open>
  Property C17. The strided flat traversal shares a range exactly: every worker's loop ends, and together the
  workers of the thread space visit every index of the range exactly once, for any selection of
  the dimensions that leaves at most one out.
\<close>

theorem flat_strided_covers:
  assumes "wf_range r sel N"
  shows "(\<forall>t. length t = length N \<longrightarrow> flat_indices (idxContainer r (threadSpace t N) Strided sel) \<noteq> None)
       \<and> mset (concat (map (\<lambda>t. the (flat_indices (idxContainer r (threadSpace t N) Strided sel))) (all_idx N)))
         = mset (range_points r sel)"
proof (intro conjI allI impI)
  fix t :: "nat vec" assume "length t = length N"
  then show "flat_indices (idxContainer r (threadSpace t N) Strided sel) \<noteq> None"
    by (simp add: flat_indices_strided[OF assms])
qed (rule flat_strided_mset[OF assms])

theorem flat_strided_covers_witness:
  "mset (concat (map (\<lambda>t. the (flat_indices (idxContainer (idxRange3 [1, 0] [6, 4] [2, 1])
       (threadSpace t [2, 3]) Strided [0, 1]))) (all_idx [2, 3])))
   = mset (range_points (idxRange3 [1, 0] [6, 4] [2, 1]) [0, 1])"
  using flat_strided_covers[of "idxRange3 [1, 0] [6, 4] [2, 1]" "[0, 1]" "[2, 3]"]
  by (simp add: wf_range_def idxRange3_def)

lemma range_point_nth:
  assumes "wf_range r sel N" "length k = length sel"
  shows "length (range_point r sel k) = length N"
    and "j < length sel \<Longrightarrow> range_point r sel k ! (sel ! j) = ir_begin r ! (sel ! j) + k ! j * ir_stride r ! (sel ! j)"
    and "i \<notin> set sel \<Longrightarrow> range_point r sel k ! i = ir_begin r ! i"
proof -
  from assms have wf: "distinct sel" "set sel \<subseteq> {..<length (ir_begin r)}" "length (ir_begin r) = length N"
    by (auto simp: wf_range_def)
  have l: "length (vec_mul k (vec_swizzle (ir_stride r) sel)) = length sel" using assms(2) by simp
  note ru = vec_refUpdate_nth[OF wf(1,2) l, where f = "(+)"]
  show "length (range_point r sel k) = length N" using ru(1) wf(3) by (simp add: range_point_def)
  show "j < length sel \<Longrightarrow> range_point r sel k ! (sel ! j) = ir_begin r ! (sel ! j) + k ! j * ir_stride r ! (sel ! j)"
    using ru(2)[of j] assms(2) by (simp add: range_point_def vec_swizzle_def)
  show "i \<notin> set sel \<Longrightarrow> range_point r sel k ! i = ir_begin r ! i"
    using ru(3)[of i] by (simp add: range_point_def)
qed

lemma range_extent_nth:
  "j < length sel \<Longrightarrow> set sel \<subseteq> {..<length (ir_end r)} \<Longrightarrow>
     range_extent r sel ! j = divCeil (ir_end r ! (sel ! j) - ir_begin r ! (sel ! j)) (ir_stride r ! (sel ! j))"
  by (auto simp: range_extent_def vec_divCeil_nth vec_swizzle_def range_distance_def subset_iff)

lemma wf_range_at:
  assumes "wf_range r sel N" "j < length sel"
  shows "sel ! j < length N" and "0 < ir_stride r ! (sel ! j)"
proof -
  show "sel ! j < length N" using assms by (auto simp: wf_range_def subset_iff)
  then show "0 < ir_stride r ! (sel ! j)" using assms(1) by (auto simp: wf_range_def)
qed

lemma in_range_extent:
  assumes "wf_range r sel N"
  shows "in_extents k (range_extent r sel) \<longleftrightarrow> length k = length sel
      \<and> (\<forall>j < length sel. ir_begin r ! (sel ! j) + k ! j * ir_stride r ! (sel ! j) < ir_end r ! (sel ! j))"
proof -
  have "k ! j < range_extent r sel ! j
      \<longleftrightarrow> ir_begin r ! (sel ! j) + k ! j * ir_stride r ! (sel ! j) < ir_end r ! (sel ! j)"
    if "j < length sel" for j
    using assms that wf_range_at[OF assms that]
    by (simp add: wf_range_def range_extent_nth divCeil_nat_less_iff less_diff_conv add.commute)
  then show ?thesis by (auto simp: in_extents_nth range_extent_length)
qed

lemma range_point_inj:
  assumes "wf_range r sel N" "length k = length sel" "length k' = length sel"
    and eq: "range_point r sel k = range_point r sel k'"
  shows "k = k'"
proof (rule nth_equalityI)
  show "length k = length k'" using assms by simp
  fix j assume "j < length k"
  then have j: "j < length sel" using assms by simp
  from eq have "range_point r sel k ! (sel ! j) = range_point r sel k' ! (sel ! j)" by simp
  then show "k ! j = k' ! j"
    using range_point_nth(2)[OF assms(1,2) j] range_point_nth(2)[OF assms(1,3) j] wf_range_at[OF assms(1) j]
    by simp
qed

lemma distinct_range_points:
  assumes "wf_range r sel N"
  shows "distinct (range_points r sel)"
  using range_point_inj[OF assms] in_range_extent[OF assms]
  by (auto simp: range_points_def distinct_map distinct_all_idx set_all_idx inj_on_def)

text \<open>An index that lies in the range is the point of its distance from begin, in strides.\<close>

definition range_steps :: "nat IdxRange \<Rightarrow> nat list \<Rightarrow> nat vec \<Rightarrow> nat vec" where
  "range_steps r sel x = map (\<lambda>i. (x ! i - ir_begin r ! i) div ir_stride r ! i) sel"

definition in_range :: "nat IdxRange \<Rightarrow> nat list \<Rightarrow> nat vec \<Rightarrow> bool" where
  "in_range r sel x \<longleftrightarrow> length x = length (ir_begin r) \<and> (\<forall>i < length (ir_begin r). if i \<in> set sel
     then ir_begin r ! i \<le> x ! i \<and> x ! i < ir_end r ! i \<and> ir_stride r ! i dvd x ! i - ir_begin r ! i
     else x ! i = ir_begin r ! i)"

lemma range_point_steps:
  assumes "wf_range r sel N" "in_range r sel x"
  shows "in_extents (range_steps r sel x) (range_extent r sel)"
    and "range_point r sel (range_steps r sel x) = x"
proof -
  have N: "length (ir_begin r) = length N" using assms(1) by (simp add: wf_range_def)
  let ?k = "range_steps r sel x"
  have lk: "length ?k = length sel" by (simp add: range_steps_def)
  note p = range_point_nth[OF assms(1) lk]
  have kj: "ir_begin r ! (sel ! j) + ?k ! j * ir_stride r ! (sel ! j) = x ! (sel ! j)
      \<and> x ! (sel ! j) < ir_end r ! (sel ! j)" if "j < length sel" for j
    using that wf_range_at[OF assms(1) that] assms(2) N
    by (auto simp: range_steps_def in_range_def split: if_splits)
  then show "in_extents ?k (range_extent r sel)"
    using lk by (simp add: in_range_extent[OF assms(1)])
  show "range_point r sel ?k = x"
  proof (rule nth_equalityI)
    show "length (range_point r sel ?k) = length x" using assms(2) p(1) N by (simp add: in_range_def)
    fix i assume "i < length (range_point r sel ?k)"
    then have i: "i < length N" using p(1) by simp
    show "range_point r sel ?k ! i = x ! i"
    proof (cases "i \<in> set sel")
      case True
      then obtain j where "j < length sel" "i = sel ! j" by (auto simp: in_set_conv_nth)
      then show ?thesis using kj p(2) by simp
    next
      case False
      then show ?thesis using assms(2) i N p(3)[OF False] by (simp add: in_range_def)
    qed
  qed
qed

lemma in_range_point:
  assumes "wf_range r sel N" "in_extents k (range_extent r sel)"
  shows "in_range r sel (range_point r sel k)"
proof -
  have N: "length (ir_begin r) = length N" using assms(1) by (simp add: wf_range_def)
  have k: "length k = length sel" using list_all2_lengthD[OF assms(2)] by (simp add: range_extent_length)
  note p = range_point_nth[OF assms(1) k]
  have "ir_begin r ! i \<le> range_point r sel k ! i \<and> range_point r sel k ! i < ir_end r ! i
      \<and> ir_stride r ! i dvd range_point r sel k ! i - ir_begin r ! i" if i: "i \<in> set sel" for i
  proof -
    obtain j where "j < length sel" "i = sel ! j" using i by (auto simp: in_set_conv_nth)
    then show ?thesis using assms(2) p(2)[of j] by (simp add: in_range_extent[OF assms(1)])
  qed
  then show ?thesis using p(1,3) N by (simp add: in_range_def)
qed

text \<open>
  What is visited is what a range means: the indices between begin and end that are a whole
  number of strides away from begin in every selected dimension, and begin in the others, each
  listed once.
\<close>

theorem range_points_spec:
  assumes "wf_range r sel N"
  shows "distinct (range_points r sel)
       \<and> set (range_points r sel) = {x. length x = length (ir_begin r)
          \<and> (\<forall>i < length (ir_begin r). if i \<in> set sel
               then ir_begin r ! i \<le> x ! i \<and> x ! i < ir_end r ! i \<and> ir_stride r ! i dvd x ! i - ir_begin r ! i
               else x ! i = ir_begin r ! i)}"
proof -
  have "set (range_points r sel) = {x. in_range r sel x}"
    using in_range_point[OF assms] range_point_steps[OF assms]
    by (force simp: range_points_def set_all_idx image_iff)
  then show ?thesis using distinct_range_points[OF assms] by (simp add: in_range_def)
qed

theorem range_points_spec_witness:
  "[3, 1] \<in> set (range_points (idxRange3 [1, 1] [6, 4] [2, 1]) [0])"
  using range_points_spec[of "idxRange3 [1, 1] [6, 4] [2, 1]" "[0]" "[2, 2]"]
  by (auto simp: wf_range_def idxRange3_def less_Suc_eq numeral_2_eq_2)

section \<open>Chunks\<close>

lemma flat_contiguous_begin:
  assumes "wf_range r sel N" "length t = length N" "length sel = length N"
  shows "flat_begin (idxContainer r (threadSpace t N) Contiguous sel)
     = (let E = prod_list (range_extent r sel); s = lin (mapped_count sel N) (mapped_idx sel N t) in
        flatIter (ir_begin r) (chunk_start E (prod_list N) s) 1 (min (chunk_start E (prod_list N) (Suc s)) E)
         (range_extent r sel) (vec_swizzle (ir_stride r) sel))"
    and "flat_end (idxContainer r (threadSpace t N) Contiguous sel)
     = (let E = prod_list (range_extent r sel); s = lin (mapped_count sel N) (mapped_idx sel N t) in
        min (chunk_start E (prod_list N) (Suc s)) E)"
proof -
  from assms have wf: "distinct sel" "set sel \<subseteq> {..<length N}" "length N \<le> Suc (length sel)" "sel \<noteq> []"
    by (auto simp: wf_range_def)
  note lo = mapTo_left_out[OF wf assms(2)]
  have full: "threadSpace_mapTo sel (threadSpace u N) = threadSpace u N" if "length u = length N" for u :: "nat vec"
    using that assms(3) by (simp add: threadSpace_mapTo_full)
  have ne: "range_extent r sel \<noteq> []" using wf(4) range_extent_length by (metis length_0_conv)
  have pe: "vec_product (range_extent r sel) = prod_list (range_extent r sel)"
    using ne by (rule vec_product_prod_list)
  have c: "mapped_count sel N = vec_swizzle N sel" "mapped_idx sel N t = vec_swizzle t sel"
    using full assms(2) by (simp_all add: mapped_count_def mapped_idx_def)
  have lin: "linearize (vec_swizzle N sel) (vec_swizzle t sel) = lin (mapped_count sel N) (mapped_idx sel N t)"
    unfolding c using wf(4) by (intro linearize_lin) (simp_all, simp add: vec_swizzle_def)
  have pc: "vec_product (vec_swizzle N sel) = prod_list N"
    using vec_product_prod_list[of "vec_swizzle N sel"] prod_mapped_count[OF wf] wf(4) c(1) by simp
  note go = groupOffset_zero[OF assms(1,2)]
  show "flat_begin (idxContainer r (threadSpace t N) Contiguous sel)
     = (let E = prod_list (range_extent r sel); s = lin (mapped_count sel N) (mapped_idx sel N t) in
        flatIter (ir_begin r) (chunk_start E (prod_list N) s) 1 (min (chunk_start E (prod_list N) (Suc s)) E)
         (range_extent r sel) (vec_swizzle (ir_stride r) sel))"
    using go by (simp add: flat_begin_def Let_def full[OF assms(2)] chunk_start_def lin pc pe[unfolded range_extent_def]
        range_extent_def)
  show "flat_end (idxContainer r (threadSpace t N) Contiguous sel)
     = (let E = prod_list (range_extent r sel); s = lin (mapped_count sel N) (mapped_idx sel N t) in
        min (chunk_start E (prod_list N) (Suc s)) E)"
    by (simp add: flat_end_def Let_def full[OF assms(2)] chunk_start_def lin pc pe[unfolded range_extent_def]
        range_extent_def)
qed

lemma progression_1: "progression e 1 c = [c..<e]"
  by (rule nth_equalityI) (simp_all add: progression_def divCeil_def)

lemma flat_indices_contiguous:
  assumes "wf_range r sel N" "in_extents t N" "length sel = length N"
  shows "flat_indices (idxContainer r (threadSpace t N) Contiguous sel)
     = (let E = prod_list (range_extent r sel); s = lin (mapped_count sel N) (mapped_idx sel N t) in
        Some (map (\<lambda>l. range_point r sel (unlin (range_extent r sel) l))
         [chunk_start E (prod_list N) s..<chunk_start E (prod_list N) (Suc s)]))"
proof -
  have lt: "length t = length N" using assms(2) by (rule list_all2_lengthD)
  note b = flat_contiguous_begin[OF assms(1) lt assms(3)]
  from assms have wf: "distinct sel" "set sel \<subseteq> {..<length N}" "length N \<le> Suc (length sel)" "sel \<noteq> []"
    by (auto simp: wf_range_def)
  let ?E = "prod_list (range_extent r sel)" let ?s = "lin (mapped_count sel N) (mapped_idx sel N t)"
  have pos: "0 < prod_list N" using assms(1) by (simp add: wf_range_def prod_list_pos_nat)
  have "mapped_idx sel N t \<in> set (all_idx (mapped_count sel N))"
    using arg_cong[OF mapTo_bij[OF wf], of set_mset] assms(2) by (auto simp: set_all_idx)
  then have "?s < prod_list N"
    using lin_less[of "mapped_idx sel N t" "mapped_count sel N"] prod_mapped_count[OF wf]
    by (simp add: set_all_idx)
  then have "chunk_start ?E (prod_list N) (Suc ?s) \<le> ?E"
    using pos by (intro chunk_start_le) simp_all
  then have e: "flat_end (idxContainer r (threadSpace t N) Contiguous sel) = chunk_start ?E (prod_list N) (Suc ?s)"
    by (simp add: b Let_def)
  have "flat_indices (idxContainer r (threadSpace t N) Contiguous sel)
      = Some (flat_remaining (flat_end (idxContainer r (threadSpace t N) Contiguous sel)) sel
          (flat_begin (idxContainer r (threadSpace t N) Contiguous sel)))"
    by (simp add: flat_indices_def) (rule flat_iter.range_for_remaining, simp add: b(1) flatIter_def Let_def)
  then show ?thesis
    using wf(4) by (simp add: e) (simp add: b Let_def flat_remaining_def flatIter_def flat_deref_point
        progression_1[simplified])
qed

text \<open>
  Property C18. With the contiguous layout and every dimension selected in order, the workers visit the
  range in row-major order: worker after worker, each its own chunk, nothing left out. The chunk
  lengths differ by at most one.
\<close>

theorem flat_contiguous_covers:
  assumes "wf_range r (iotaCVec (length N)) N"
  shows "concat (map (\<lambda>t. the (flat_indices (idxContainer r (threadSpace t N) Contiguous (iotaCVec (length N))))) (all_idx N))
         = range_points r (iotaCVec (length N))
       \<and> (\<forall>t. in_extents t N \<longrightarrow>
            (\<exists>xs. flat_indices (idxContainer r (threadSpace t N) Contiguous (iotaCVec (length N))) = Some xs
              \<and> length xs \<in> {length (range_points r (iotaCVec (length N))) div prod_list N,
                              Suc (length (range_points r (iotaCVec (length N))) div prod_list N)}))"
proof -
  let ?sel = "iotaCVec (length N)"
  have sel: "length ?sel = length N" by (simp add: iotaCVec_def)
  let ?P = "\<lambda>l. range_point r ?sel (unlin (range_extent r ?sel) l)"
  let ?E = "prod_list (range_extent r ?sel)" let ?T = "prod_list N"
  have N: "N \<noteq> []" "0 < ?T" using assms by (auto simp: wf_range_def prod_list_pos_nat iotaCVec_def)
  have E: "range_extent r ?sel \<noteq> []" using N range_extent_length[of r ?sel] sel by (metis length_0_conv)
  have sw: "vec_swizzle v ?sel = v" if "length v = length N" for v :: "nat vec"
    using that by (simp add: vec_swizzle_def iotaCVec_def flip: that)
  have c: "mapped_count ?sel N = N" "length t = length N \<Longrightarrow> mapped_idx ?sel N t = t" for t
    using sel sw by (simp_all add: mapped_count_def mapped_idx_def threadSpace_mapTo_full)
  have f: "flat_indices (idxContainer r (threadSpace t N) Contiguous ?sel)
      = Some (map ?P [chunk_start ?E ?T (lin N t)..<chunk_start ?E ?T (Suc (lin N t))])"
    if "in_extents t N" for t
    using flat_indices_contiguous[OF assms that sel] list_all2_lengthD[OF that] by (simp add: c Let_def)
  have "map (lin N) (all_idx N) = [0..<?T]"
    using N by (simp add: all_idx_unlin comp_def lin_unlin)
  moreover have "concat (map (\<lambda>t. the (flat_indices (idxContainer r (threadSpace t N) Contiguous ?sel))) (all_idx N))
      = concat (map (\<lambda>k. map ?P [chunk_start ?E ?T k..<chunk_start ?E ?T (Suc k)]) (map (lin N) (all_idx N)))"
    by (simp add: comp_def) (intro arg_cong[of _ _ concat] map_cong refl, simp add: f set_all_idx)
  ultimately have "concat (map (\<lambda>t. the (flat_indices (idxContainer r (threadSpace t N) Contiguous ?sel))) (all_idx N))
      = map ?P (concat (map (\<lambda>k. [chunk_start ?E ?T k..<chunk_start ?E ?T (Suc k)]) [0..<?T]))"
    by (simp add: map_concat comp_def)
  also have "\<dots> = range_points r ?sel"
    using E N by (simp add: contiguous_partition range_points_def all_idx_unlin comp_def)
  moreover have "chunk_start ?E ?T (Suc k) - chunk_start ?E ?T k \<in> {?E div ?T, Suc (?E div ?T)}" for k
    by (auto simp: chunk_start_def min_def)
  ultimately show ?thesis
    using f by (simp add: range_points_def length_all_idx)
qed

theorem flat_contiguous_covers_witness:
  "concat (map (\<lambda>t. the (flat_indices (idxContainer (idxRange1 [3, 4]) (threadSpace t [2, 3]) Contiguous
       (iotaCVec (length [2, 3 :: nat]))))) (all_idx [2, 3]))
   = range_points (idxRange1 [3, 4]) (iotaCVec (length [2, 3 :: nat]))"
  by (rule flat_contiguous_covers[THEN conjunct1]) code_simp

text \<open>
  When a dimension is left out, begin still divides by the unmapped thread count while end uses
  the mapped one. Here four workers share eight rows, and rows 2 to 7 are visited by nobody.
\<close>

lemma flat_contiguous_partial_example:
  "map (\<lambda>t. let c = idxContainer (idxRange1 [8, 4]) (threadSpace t [2, 2]) Contiguous [0]
            in (fi_current (flat_begin c), flat_end c)) (all_idx [2, 2])
   = [(0, 2), (8, 6), (4, 4), (12, 8 :: nat)]"
  by code_simp

text \<open>
  On machine words the stride can step over the top of the index type: with 8 bits, extent 250 and
  100 workers, worker 56 comes back to index 0, which belongs to worker 0.
\<close>

lemma flat_strided_wraps_example:
  "let c = idxContainer (idxRange1 [250 :: 8 word]) (threadSpace [56] [100]) Strided [0]
   in map (\<lambda>k. fi_current ((flat_inc ^^ k) (flat_begin c))) [0, 1, 2] = [56, 156, 0] \<and> flat_end c = 250"
  by code_simp

end
