(* ===== verification/TiledIdx.thy ===== *)
theory TiledIdx
  imports FlatIdx
begin

text \<open>
  \<^verbatim>\<open>TiledIdxContainer\<close> (\<^verbatim>\<open>mem/TiledIdxContainer.hpp\<close>): the worker's share as a product of
  progressions, stepped like an odometer without multiplications. The theorems show that it
  visits the same indices as the flat container, shared among the workers in tiles.
\<close>

section \<open>The iterator\<close>

text \<open>
  \<^verbatim>\<open>detail::ReducedVector\<close> stores a vector without its slowest component and is indexed as if it
  were still there.
\<close>

definition reducedVector :: "'a::zero vec \<Rightarrow> 'a vec" where
  "reducedVector first = vec_rshrink (length first - 1) first"

definition reducedVector_at :: "'a vec \<Rightarrow> nat \<Rightarrow> 'a" where
  "reducedVector_at v idx = v ! (idx - 1)"

record 'a tiledIter =
  ti_current :: "'a vec"
  ti_stride :: "'a vec"
  ti_extent :: "'a vec"
  ti_first :: "'a vec"

definition tiledIter :: "nat list \<Rightarrow> 'a::{plus,zero,linorder} vec \<Rightarrow> 'a vec \<Rightarrow> 'a vec \<Rightarrow> 'a vec \<Rightarrow> 'a tiledIter" where
  "tiledIter sel offset first extent stride =
     (let current = vec_add first offset;
          m_stride = vec_swizzle stride sel;
          m_extent = vec_swizzle (vec_add extent offset) sel;
          m_first = reducedVector (vec_swizzle current sel);
          iterDim = length sel;
          isIndexValid = for_upto 1 iterDim (\<lambda>d ok. ok \<and> reducedVector_at m_first d < m_extent ! d) True;
          current = (if iterDim > 1 \<and> \<not> isIndexValid then current[sel ! 0 := m_extent ! 0] else current)
      in \<lparr>ti_current = current, ti_stride = m_stride, ti_extent = m_extent, ti_first = m_first\<rparr>)"

definition tiled_slowCurrent :: "nat list \<Rightarrow> 'a tiledIter \<Rightarrow> 'a" where
  "tiled_slowCurrent sel it = ti_current it ! (sel ! 0)"

definition tiled_deref :: "'a tiledIter \<Rightarrow> 'a vec" where
  "tiled_deref it = ti_current it"

fun tiled_inc_at :: "nat list \<Rightarrow> 'a::{plus,ord} vec \<Rightarrow> 'a vec \<Rightarrow> 'a vec \<Rightarrow> nat \<Rightarrow> 'a vec \<Rightarrow> 'a vec" where
  "tiled_inc_at sel stride extent first 0 current = current"
| "tiled_inc_at sel stride extent first (Suc idx) current =
     (let current = current[sel ! idx := current ! (sel ! idx) + stride ! idx] in
      if length sel \<noteq> 1 \<and> idx \<ge> 1 \<and> current ! (sel ! idx) \<ge> extent ! idx
      then tiled_inc_at sel stride extent first idx (current[sel ! idx := reducedVector_at first idx])
      else current)"

definition tiled_inc :: "nat list \<Rightarrow> 'a::{plus,ord} tiledIter \<Rightarrow> 'a tiledIter" where
  "tiled_inc sel it =
     it\<lparr>ti_current := tiled_inc_at sel (ti_stride it) (ti_extent it) (ti_first it) (length sel) (ti_current it)\<rparr>"

definition tiled_post_inc :: "nat list \<Rightarrow> 'a::{plus,ord} tiledIter \<Rightarrow> 'a tiledIter \<times> 'a tiledIter" where
  "tiled_post_inc sel it = (it, tiled_inc sel it)"

definition tiled_eq :: "'a tiledIter \<Rightarrow> 'a tiledIter \<Rightarrow> bool" where
  "tiled_eq it other = vec_eq (ti_current it) (ti_current other)"

text \<open>The end keeps the slowest selected component of the extent.\<close>

definition tiled_iterEnd :: "nat list \<Rightarrow> 'a vec \<Rightarrow> 'a" where
  "tiled_iterEnd sel extent = vec_swizzle extent sel ! 0"

definition tiled_at_end :: "nat list \<Rightarrow> 'a::ord \<Rightarrow> 'a tiledIter \<Rightarrow> bool" where
  "tiled_at_end sel stop it = (tiled_slowCurrent sel it \<ge> stop)"

section \<open>The container\<close>

definition tiled_select :: "'a idxContainer \<Rightarrow> nat list \<Rightarrow> 'a idxContainer" where
  "tiled_select c iterDir = idxContainer (ic_range c) (ic_threadSpace c) (ic_layout c) iterDir"

definition tiled_begin :: "'a::{semiring_modulo,linorder} idxContainer \<Rightarrow> 'a tiledIter" where
  "tiled_begin c =
     (let sel = ic_select c; r = ic_range c;
          mapped = threadSpace_mapTo sel (ic_threadSpace c);
          threadIdx = ts_threadIdx mapped; numThreads = ts_threadCount mapped
      in case ic_layout c of
        Strided \<Rightarrow>
          tiledIter sel (ir_begin r) (vec_mul threadIdx (ir_stride r)) (range_distance r)
            (vec_mul numThreads (ir_stride r))
      | Contiguous \<Rightarrow>
          (let extent = range_distance r;
               logicalExtent = vec_divCeil extent (ir_stride r);
               base = vec_div logicalExtent numThreads;
               rem = vec_mod logicalExtent numThreads;
               firstLogical = vec_add (vec_mul threadIdx base) (vec_min threadIdx rem);
               first = vec_mul firstLogical (ir_stride r);
               nextThreadIdx = vec_opS (+) threadIdx 1;
               endLogical = vec_add (vec_mul nextThreadIdx base) (vec_min nextThreadIdx rem);
               end' = vec_min extent (vec_mul endLogical (ir_stride r))
           in tiledIter sel (ir_begin r) first end' (ir_stride r)))"

definition tiled_end :: "'a::{semiring_modulo,linorder} idxContainer \<Rightarrow> 'a" where
  "tiled_end c =
     (let sel = ic_select c; r = ic_range c;
          mapped = threadSpace_mapTo sel (ic_threadSpace c);
          threadIdx = ts_threadIdx mapped; numThreads = ts_threadCount mapped
      in case ic_layout c of
        Strided \<Rightarrow> tiled_iterEnd sel (vec_add (ir_begin r) (range_distance r))
      | Contiguous \<Rightarrow>
          (let extent = range_distance r;
               logicalExtent = vec_divCeil extent (ir_stride r);
               base = vec_div logicalExtent numThreads;
               rem = vec_mod logicalExtent numThreads;
               nextSlotIdx = vec_opS (+) threadIdx 1;
               endLogical = vec_add (vec_mul nextSlotIdx base) (vec_min nextSlotIdx rem);
               end' = vec_min extent (vec_mul endLogical (ir_stride r))
           in tiled_iterEnd sel (vec_add (ir_begin r) end')))"

definition tiled_indices :: "'a::{semiring_modulo,linorder} idxContainer \<Rightarrow> 'a vec list option" where
  "tiled_indices c =
     range_for (tiled_at_end (ic_select c) (tiled_end c)) (tiled_inc (ic_select c)) tiled_deref (tiled_begin c)"

section \<open>The increment is an odometer\<close>

lemma reducedVector_nth:
  "1 \<le> d \<Longrightarrow> d < length v \<Longrightarrow> reducedVector_at (reducedVector v) d = v ! d"
  by (simp add: reducedVector_at_def reducedVector_def vec_rshrink_drop)

lemma tiled_inc_at_odo:
  assumes "distinct sel" "set sel \<subseteq> {..<length cur}" "k \<le> length sel"
    and "\<And>i. 1 \<le> i \<Longrightarrow> i < length sel \<Longrightarrow> fs ! i = reducedVector_at first i \<and> es ! i = extent ! i"
    and "\<And>i. i < length sel \<Longrightarrow> ss ! i = stride ! i"
  shows "length (tiled_inc_at sel stride extent first k cur) = length cur
    \<and> vec_swizzle (tiled_inc_at sel stride extent first k cur) sel = odo_inc fs ss es k (vec_swizzle cur sel)
    \<and> (\<forall>i. i \<notin> set sel \<longrightarrow> tiled_inc_at sel stride extent first k cur ! i = (cur ! i :: nat))"
  using assms(2,3)
proof (induction k arbitrary: cur)
  case (Suc k)
  have sw: "vec_swizzle (v[sel ! k := x]) sel = (vec_swizzle v sel)[k := x]" if "length v = length cur" for v :: "nat vec" and x
    using that Suc.prems assms(1) by (intro nth_equalityI)
      (auto simp: vec_swizzle_def nth_list_update nth_eq_iff_index_eq subset_iff)
  have other: "v[sel ! k := x] ! i = v ! i" if "i \<notin> set sel" for v :: "nat vec" and x i
    using that Suc.prems by (metis Suc_le_lessD nth_list_update_neq nth_mem)
  let ?c1 = "cur[sel ! k := cur ! (sel ! k) + stride ! k]"
  have k: "k < length sel" "sel ! k < length cur" using Suc.prems by (auto simp: subset_iff)
  have c1: "vec_swizzle ?c1 sel = (vec_swizzle cur sel)[k := vec_swizzle cur sel ! k + ss ! k]"
    using sw[OF refl] k assms(5)[OF k(1)] by (simp add: vec_swizzle_def)
  have at: "vec_swizzle ?c1 sel ! k = ?c1 ! (sel ! k)" using k by (simp add: vec_swizzle_def)
  have o: "odo_inc fs ss es (Suc k) (vec_swizzle cur sel)
      = (if k \<ge> 1 \<and> ?c1 ! (sel ! k) \<ge> es ! k then odo_inc fs ss es k ((vec_swizzle ?c1 sel)[k := fs ! k])
         else vec_swizzle ?c1 sel)"
    unfolding odo_inc.simps Let_def c1[symmetric] at ..
  show ?case
  proof (cases "k \<ge> 1 \<and> ?c1 ! (sel ! k) \<ge> extent ! k")
    case True
    then have "length sel \<noteq> 1" using k by auto
    with True have t: "tiled_inc_at sel stride extent first (Suc k) cur
        = tiled_inc_at sel stride extent first k (?c1[sel ! k := reducedVector_at first k])"
      by (simp add: Let_def)
    have "vec_swizzle (?c1[sel ! k := reducedVector_at first k]) sel = (vec_swizzle ?c1 sel)[k := fs ! k]"
    proof -
      have "fs ! k = reducedVector_at first k" using True k assms(4)[of k] by blast
      show ?thesis unfolding \<open>fs ! k = reducedVector_at first k\<close> by (rule sw) simp
    qed
    moreover have "odo_inc fs ss es (Suc k) (vec_swizzle cur sel)
        = odo_inc fs ss es k ((vec_swizzle ?c1 sel)[k := fs ! k])"
    proof -
      have "es ! k = extent ! k" using True k assms(4)[of k] by blast
      then show ?thesis unfolding o using True by (simp only: if_True simp_thms)
    qed
    ultimately show ?thesis
      unfolding t using Suc.IH[of "?c1[sel ! k := reducedVector_at first k]"] Suc.prems other by simp
  next
    case False
    then have t: "tiled_inc_at sel stride extent first (Suc k) cur = ?c1"
      by (auto simp: Let_def)
    have "odo_inc fs ss es (Suc k) (vec_swizzle cur sel) = vec_swizzle ?c1 sel"
    proof (cases "k \<ge> 1")
      case True
      then have "es ! k = extent ! k" using k assms(4)[of k] by blast
      then show ?thesis unfolding o using False by (simp only: if_False simp_thms)
    qed (simp only: o, simp)
    then show ?thesis unfolding t using other by simp
  qed
qed simp

section \<open>The traversal\<close>

text \<open>The digits of the odometer: the slowest one is bounded by the end and never restarts.\<close>

definition tiled_digits :: "nat list \<Rightarrow> nat \<Rightarrow> nat tiledIter \<Rightarrow> digit list" where
  "tiled_digits sel stop it = map (\<lambda>i. (if i = 0 then 0 else reducedVector_at (ti_first it) i,
       ti_stride it ! i, if i = 0 then stop else ti_extent it ! i)) [0..<length sel]"

definition tiled_inv :: "nat list \<Rightarrow> nat \<Rightarrow> nat tiledIter \<Rightarrow> bool" where
  "tiled_inv sel stop it \<longleftrightarrow> distinct sel \<and> sel \<noteq> [] \<and> set sel \<subseteq> {..<length (ti_current it)}
     \<and> (\<not> tiled_at_end sel stop it
         \<longrightarrow> odo_valid (tiled_digits sel stop it) (vec_swizzle (ti_current it) sel))"

definition tiled_remaining :: "nat list \<Rightarrow> nat \<Rightarrow> nat tiledIter \<Rightarrow> nat vec list" where
  "tiled_remaining sel stop it =
     (if tiled_at_end sel stop it then []
      else map (vec_refAssign (ti_current it) sel)
             (odo_rest (tiled_digits sel stop it) (vec_swizzle (ti_current it) sel)))"

lemma vec_refAssign_upd: "vec_refAssign v sel w = vec_refUpdate (\<lambda>_ x. x) v sel w"
  by (simp add: vec_refAssign_def vec_refUpdate_def)

lemma vec_refAssign_swizzle_self:
  assumes "distinct sel" "set sel \<subseteq> {..<length v}"
  shows "vec_refAssign v sel (vec_swizzle v sel) = v"
proof (rule nth_equalityI)
  have l: "length (vec_swizzle v sel) = length sel" by (simp add: vec_swizzle_def)
  note ru = vec_refUpdate_nth[OF assms l, where f = "\<lambda>_ x. x"]
  show "length (vec_refAssign v sel (vec_swizzle v sel)) = length v"
    using ru(1) by (simp add: vec_refAssign_upd)
  fix i
  show "vec_refAssign v sel (vec_swizzle v sel) ! i = v ! i"
  proof (cases "i \<in> set sel")
    case True
    then obtain k where "k < length sel" "i = sel ! k" by (auto simp: in_set_conv_nth)
    then show ?thesis using ru(2)[of k] by (simp add: vec_refAssign_upd vec_swizzle_def)
  next
    case False
    then show ?thesis using ru(3) by (simp add: vec_refAssign_upd)
  qed
qed

lemma vec_refAssign_cong:
  assumes "distinct sel" "set sel \<subseteq> {..<length v}" "length v' = length v" "length w = length sel"
    and "\<forall>i. i \<notin> set sel \<longrightarrow> v' ! i = v ! i"
  shows "vec_refAssign v' sel w = vec_refAssign v sel w"
proof (rule nth_equalityI)
  note r = vec_refUpdate_nth[OF assms(1,2,4), where f = "\<lambda>_ x. x"]
  have "set sel \<subseteq> {..<length v'}" using assms(2,3) by simp
  note r' = vec_refUpdate_nth[OF assms(1) this assms(4), where f = "\<lambda>_ x. x"]
  show "length (vec_refAssign v' sel w) = length (vec_refAssign v sel w)"
    using r(1) r'(1) assms(3) by (simp add: vec_refAssign_upd)
  fix i
  show "vec_refAssign v' sel w ! i = vec_refAssign v sel w ! i"
  proof (cases "i \<in> set sel")
    case True
    then obtain k where "k < length sel" "i = sel ! k" by (auto simp: in_set_conv_nth)
    then show ?thesis using r(2)[of k] r'(2)[of k] by (simp add: vec_refAssign_upd)
  next
    case False
    then show ?thesis using r(3) r'(3) assms(5) by (simp add: vec_refAssign_upd)
  qed
qed

lemma length_odo_rest: "xs \<in> set (odo_rest ds cs) \<Longrightarrow> length xs = length ds"
proof -
  have all: "xs \<in> set (odo_all ds) \<Longrightarrow> length xs = length ds" for xs ds
    by (auto simp: odo_all_def in_set_product_lists_length)
  show "xs \<in> set (odo_rest ds cs) \<Longrightarrow> length xs = length ds"
    by (induction ds cs arbitrary: xs rule: odo_rest.induct) (auto split: if_splits dest: all)
qed

lemma tiled_inc_odo:
  assumes "tiled_inv sel stop it" "\<not> tiled_at_end sel stop it"
  shows "vec_swizzle (ti_current (tiled_inc sel it)) sel
       = top_inc (tiled_digits sel stop it) (vec_swizzle (ti_current it) sel)"
    and "length (ti_current (tiled_inc sel it)) = length (ti_current it)"
    and "i \<notin> set sel \<Longrightarrow> ti_current (tiled_inc sel it) ! i = ti_current it ! i"
proof -
  let ?ds = "tiled_digits sel stop it" and ?cs = "vec_swizzle (ti_current it) sel"
  from assms(1) have wf: "distinct sel" "sel \<noteq> []" "set sel \<subseteq> {..<length (ti_current it)}"
    by (auto simp: tiled_inv_def)
  have l: "length ?ds = length ?cs" "length ?cs = length sel"
    by (simp_all add: tiled_digits_def vec_swizzle_def)
  note A = tiled_inc_at_odo[OF wf(1,3) order_refl, of "map fst ?ds" "ti_first it" "map (snd \<circ> snd) ?ds"
      "ti_extent it" "map (fst \<circ> snd) ?ds" "ti_stride it"]
  have "vec_swizzle (ti_current (tiled_inc sel it)) sel
      = odo_inc (map fst ?ds) (map (fst \<circ> snd) ?ds) (map (snd \<circ> snd) ?ds) (length sel) ?cs"
    using A by (simp add: tiled_inc_def tiled_digits_def)
  also have "\<dots> = top_inc ?ds ?cs"
    using odo_inc_top[of ?ds ?cs "length sel"] l wf(2) by (simp add: Suc_le_eq)
  finally show "vec_swizzle (ti_current (tiled_inc sel it)) sel = top_inc ?ds ?cs" .
  show "length (ti_current (tiled_inc sel it)) = length (ti_current it)"
    and "i \<notin> set sel \<Longrightarrow> ti_current (tiled_inc sel it) ! i = ti_current it ! i"
    using A by (simp_all add: tiled_inc_def tiled_digits_def)
qed

interpretation tiled_iter: forward_iter
  "tiled_at_end sel stop" "tiled_inc sel" tiled_deref "tiled_inv sel stop" "tiled_remaining sel stop"
  for stop :: nat and sel
proof
  fix it :: "nat tiledIter"
  let ?ds = "tiled_digits sel stop it" and ?cs = "vec_swizzle (ti_current it) sel"
  let ?ds' = "tiled_digits sel stop (tiled_inc sel it)"
    and ?cs' = "vec_swizzle (ti_current (tiled_inc sel it)) sel"
  assume inv: "tiled_inv sel stop it"
  then have wf: "distinct sel" "sel \<noteq> []" "set sel \<subseteq> {..<length (ti_current it)}"
    by (auto simp: tiled_inv_def)
  have ds': "?ds' = ?ds" by (simp add: tiled_digits_def tiled_inc_def)
  obtain d ds where d: "?ds = d # ds" "snd (snd d) = stop"
    using wf(2) by (cases sel) (auto simp: tiled_digits_def upt_conv_Cons simp del: upt_Suc)
  obtain c cs where c: "?cs = c # cs" using wf(2) by (cases ?cs) auto
  have lds: "length ?ds = length sel" by (simp add: tiled_digits_def)
  have rest: "odo_rest ?ds ?cs = ?cs # odo_rest ?ds ?cs'"
    and len': "length (ti_current (tiled_inc sel it)) = length (ti_current it)"
    and other: "\<forall>i. i \<notin> set sel \<longrightarrow> ti_current (tiled_inc sel it) ! i = ti_current it ! i"
    and valid': "\<not> tiled_at_end sel stop (tiled_inc sel it) \<Longrightarrow> odo_valid ?ds ?cs'"
    if ne: "\<not> tiled_at_end sel stop it"
  proof -
    from inv ne have v: "odo_valid (d # ds) (c # cs)" by (simp add: tiled_inv_def d c)
    note T = top_inc_rest[OF v]
    note I = tiled_inc_odo[OF inv ne]
    have e: "?cs' = top_inc (d # ds) (c # cs)" using I(1) by (simp add: d c)
    show "odo_rest ?ds ?cs = ?cs # odo_rest ?ds ?cs'" using T(1) by (simp add: d c e)
    show "length (ti_current (tiled_inc sel it)) = length (ti_current it)" by (rule I(2))
    show "\<forall>i. i \<notin> set sel \<longrightarrow> ti_current (tiled_inc sel it) ! i = ti_current it ! i" using I(3) by blast
    obtain c' cs'' where c': "?cs' = c' # cs''" "odo_valid ds cs''" using T(3) e by auto
    assume "\<not> tiled_at_end sel stop (tiled_inc sel it)"
    moreover have "tiled_slowCurrent sel (tiled_inc sel it) = c'"
      using c'(1) wf(2) by (cases sel) (auto simp: tiled_slowCurrent_def vec_swizzle_def)
    ultimately have "c' < stop" by (simp add: tiled_at_end_def)
    with v c' d show "odo_valid ?ds ?cs'" by (cases d) (auto simp: odo_valid_def)
  qed
  show "tiled_at_end sel stop it \<longleftrightarrow> tiled_remaining sel stop it = []"
    using rest by (auto simp: tiled_remaining_def)
  assume ne: "\<not> tiled_at_end sel stop it"
  have l': "length ?cs' = length sel" by (simp add: vec_swizzle_def)
  show "tiled_inv sel stop (tiled_inc sel it)"
    using wf len'[OF ne] valid'[OF ne] ds' by (simp add: tiled_inv_def)
  have "map (vec_refAssign (ti_current it) sel) (odo_rest ?ds ?cs')
      = map (vec_refAssign (ti_current (tiled_inc sel it)) sel) (odo_rest ?ds ?cs')"
    using length_odo_rest[of _ ?ds ?cs'] lds wf len'[OF ne] other[OF ne]
    by (intro map_cong refl vec_refAssign_cong[symmetric]) auto
  moreover have "odo_rest ?ds ?cs' = []" if "tiled_at_end sel stop (tiled_inc sel it)"
  proof -
    obtain c' cs'' where c': "?cs' = c' # cs''" using l' wf(2) by (cases ?cs') auto
    have "tiled_slowCurrent sel (tiled_inc sel it) = c'"
      using c' wf(2) by (cases sel) (auto simp: tiled_slowCurrent_def vec_swizzle_def)
    with that c' d show ?thesis by (cases d) (simp add: tiled_at_end_def)
  qed
  ultimately show "tiled_remaining sel stop it = tiled_deref it # tiled_remaining sel stop (tiled_inc sel it)"
    using ne rest[OF ne] wf
    by (simp add: tiled_remaining_def tiled_deref_def ds' vec_refAssign_swizzle_self)
qed

section \<open>What a worker visits\<close>

lemma fold_conj_all: "for_upto 1 n (\<lambda>d ok. ok \<and> P d) True \<longleftrightarrow> (\<forall>d. 1 \<le> d \<longrightarrow> d < n \<longrightarrow> P d)"
proof (induction n)
  case (Suc n)
  have "(\<forall>d. 1 \<le> d \<longrightarrow> d < Suc n \<longrightarrow> P d) \<longleftrightarrow> (1 \<le> n \<longrightarrow> P n) \<and> (\<forall>d. 1 \<le> d \<longrightarrow> d < n \<longrightarrow> P d)"
    by (metis less_Suc_eq)
  with Suc show ?case by (cases "n = 0") (simp_all add: for_upto_Suc Suc_le_eq conj_commute)
qed simp

text \<open>
  A fresh iterator has the whole product of its progressions ahead of it; a fast dimension
  without values sends it straight to the end.
\<close>

definition tile_digits :: "nat list \<Rightarrow> nat vec \<Rightarrow> nat vec \<Rightarrow> nat vec \<Rightarrow> nat vec \<Rightarrow> digit list" where
  "tile_digits sel offset first extent stride =
     map (\<lambda>s. (first ! s + offset ! s, stride ! s, extent ! s + offset ! s)) sel"

lemma odo_rest_first_irrelevant:
  "odo_rest ((f, s, e) # ds) cs = odo_rest ((f', s, e) # ds) cs"
  by (cases cs) simp_all

lemma tiledIter_indices:
  assumes "distinct sel" "sel \<noteq> []" "set sel \<subseteq> {..<length first}"
    and "length offset = length first" "length extent = length first" "length stride = length first"
    and pos: "\<And>i. i \<in> set sel \<Longrightarrow> 0 < stride ! i"
    and stop: "stop = extent ! (sel ! 0) + offset ! (sel ! 0)"
  shows "range_for (tiled_at_end sel stop) (tiled_inc sel) tiled_deref (tiledIter sel offset first extent stride)
     = Some (map (vec_refAssign (vec_add first offset) sel) (odo_all (tile_digits sel offset first extent stride)))"
proof -
  let ?it = "tiledIter sel offset first extent stride"
  let ?cur = "vec_add first offset"
  let ?ds = "tile_digits sel offset first extent stride"
  have at: "sel ! i < length first" if "i < length sel" for i using that assms(3) by (auto simp: subset_iff)
  have s0: "sel ! 0 < length first" using assms(2) at by simp
  let ?valid = "\<forall>d. 1 \<le> d \<longrightarrow> d < length sel \<longrightarrow> ?cur ! (sel ! d) < extent ! (sel ! d) + offset ! (sel ! d)"
  have red: "reducedVector_at (reducedVector (vec_swizzle ?cur sel)) d = ?cur ! (sel ! d)"
    if "1 \<le> d" "d < length sel" for d
    using that by (subst reducedVector_nth) (simp_all add: vec_swizzle_def)
  have ok: "for_upto 1 (length sel) (\<lambda>d ok. ok \<and> reducedVector_at (reducedVector (vec_swizzle ?cur sel)) d
      < vec_swizzle (vec_add extent offset) sel ! d) True \<longleftrightarrow> ?valid"
    unfolding fold_conj_all using red at assms(5) by (auto simp: vec_swizzle_def)
  have it: "ti_current ?it = (if ?valid then ?cur else ?cur[sel ! 0 := stop])"
    "ti_stride ?it = vec_swizzle stride sel" "ti_extent ?it = vec_swizzle (vec_add extent offset) sel"
    "ti_first ?it = reducedVector (vec_swizzle ?cur sel)"
    using ok assms(2,5) s0 stop by (auto simp: tiledIter_def Let_def vec_swizzle_def)
  have nth_ds: "?ds ! i = (?cur ! (sel ! i), stride ! (sel ! i), extent ! (sel ! i) + offset ! (sel ! i))"
    if "i < length sel" for i
    using that at by (simp add: tile_digits_def)
  have tl_eq: "tl (tiled_digits sel stop ?it) = tl ?ds"
    using red at assms(5) nth_ds
    by (intro nth_equalityI) (auto simp: tiled_digits_def it nth_tl vec_swizzle_def tile_digits_def)
  obtain ds where hd_eq: "tiled_digits sel stop ?it = (0, stride ! (sel ! 0), stop) # ds"
    "?ds = (?cur ! (sel ! 0), stride ! (sel ! 0), stop) # ds"
  proof -
    have "hd (tiled_digits sel stop ?it) = (0, stride ! (sel ! 0), stop)" "tiled_digits sel stop ?it \<noteq> []"
      using assms(2) by (simp_all add: tiled_digits_def hd_map it vec_swizzle_def)
    moreover have "hd ?ds = (?cur ! (sel ! 0), stride ! (sel ! 0), stop)" "?ds \<noteq> []"
      using assms(2) s0 stop by (simp_all add: tile_digits_def hd_map hd_conv_nth)
    ultimately show ?thesis using that[of "tl ?ds"] tl_eq by (metis list.collapse)
  qed
  have invb: "distinct sel \<and> sel \<noteq> [] \<and> set sel \<subseteq> {..<length (ti_current ?it)}"
    using assms(1-3) by (simp add: it)
  have slow: "tiled_slowCurrent sel ?it = (if ?valid then ?cur ! (sel ! 0) else stop)"
    unfolding tiled_slowCurrent_def it(1) by (cases ?valid) (simp_all only: if_True if_False, use s0 in simp_all)
  have "tiled_inv sel stop ?it \<and> tiled_remaining sel stop ?it = map (vec_refAssign ?cur sel) (odo_all ?ds)"
  proof (cases "tiled_at_end sel stop ?it")
    case True
    have "\<exists>d \<in> set ?ds. digit_values d = []"
    proof (cases ?valid)
      case True
      with \<open>tiled_at_end sel stop ?it\<close> slow have "stop \<le> ?cur ! (sel ! 0)" by (simp add: tiled_at_end_def)
      then show ?thesis using hd_eq(2) by (simp add: digit_values_def)
    next
      case False
      then obtain d where d: "d < length sel" "extent ! (sel ! d) + offset ! (sel ! d) \<le> ?cur ! (sel ! d)"
        by (auto simp: not_less)
      then have "digit_values (?ds ! d) = []" by (simp add: nth_ds digit_values_def)
      then show ?thesis using d(1) by (auto simp: tile_digits_def)
    qed
    then have "odo_all ?ds = []" by (auto simp: odo_all_def intro!: product_lists_Nil) (metis image_eqI)
    with True invb show ?thesis by (simp add: tiled_inv_def tiled_remaining_def)
  next
    case False
    with slow have v: ?valid "?cur ! (sel ! 0) < stop" by (auto simp: tiled_at_end_def split: if_splits)
    have cs: "vec_swizzle (ti_current ?it) sel = map fst ?ds"
      using v(1) at by (intro nth_equalityI) (auto simp: it vec_swizzle_def nth_ds tile_digits_def)
    have vd: "odo_valid ?ds (map fst ?ds)"
    proof -
      have "?cur ! (sel ! i) < extent ! (sel ! i) + offset ! (sel ! i)" if "i < length sel" for i
        using v that stop by (cases i) auto
      then show ?thesis
        using pos at by (auto simp: odo_valid_def list_all2_conv_all_nth tile_digits_def split: prod.splits)
    qed
    have "odo_valid (tiled_digits sel stop ?it) (map fst ?ds)"
      using vd v(2) by (auto simp: odo_valid_def hd_eq)
    moreover have "odo_rest (tiled_digits sel stop ?it) (map fst ?ds) = odo_rest ?ds (map fst ?ds)"
      unfolding hd_eq by (rule odo_rest_first_irrelevant)
    moreover have "\<forall>(f, s, e) \<in> set ?ds. 0 < s" using pos by (auto simp: tile_digits_def)
    moreover have "ti_current ?it = ?cur" using v(1) by (simp add: it)
    ultimately show ?thesis
      using False invb unfolding tiled_inv_def tiled_remaining_def cs by (simp add: odo_rest_first)
  qed
  then show ?thesis using tiled_iter.range_for_remaining by metis
qed

section \<open>The workers share the range\<close>

text \<open>The values of selected dimension \<open>s\<close> for the worker with index \<open>k\<close> of \<open>C\<close> in it.\<close>

definition tile_values :: "idxLayout \<Rightarrow> nat IdxRange \<Rightarrow> nat \<Rightarrow> nat \<Rightarrow> nat \<Rightarrow> nat list" where
  "tile_values l r C s k =
     (let E = divCeil (ir_end r ! s - ir_begin r ! s) (ir_stride r ! s);
          v = (\<lambda>j. ir_begin r ! s + j * ir_stride r ! s)
      in case l of Strided \<Rightarrow> map v (progression E C k)
         | Contiguous \<Rightarrow> map v [chunk_start E C k..<chunk_start E C (Suc k)])"

lemma tile_values_partition:
  "0 < C \<Longrightarrow> mset (concat (map (tile_values l r C s) [0..<C]))
     = mset (map (\<lambda>j. ir_begin r ! s + j * ir_stride r ! s)
         [0..<divCeil (ir_end r ! s - ir_begin r ! s) (ir_stride r ! s)])"
proof (cases l)
  case Strided
  assume C: "0 < C"
  let ?v = "\<lambda>j. ir_begin r ! s + j * ir_stride r ! s"
  let ?E = "divCeil (ir_end r ! s - ir_begin r ! s) (ir_stride r ! s)"
  have "concat (map (tile_values l r C s) [0..<C]) = map ?v (concat (map (progression ?E C) [0..<C]))"
    by (simp add: Strided tile_values_def[abs_def] map_concat comp_def)
  then have "mset (concat (map (tile_values l r C s) [0..<C]))
      = image_mset ?v (mset (concat (map (progression ?E C) [0..<C])))"
    by (simp only: mset_map)
  then show ?thesis by (simp only: strided_partition[OF C] mset_map)
next
  case Contiguous
  assume C: "0 < C"
  let ?v = "\<lambda>j. ir_begin r ! s + j * ir_stride r ! s"
  let ?E = "divCeil (ir_end r ! s - ir_begin r ! s) (ir_stride r ! s)"
  have "concat (map (tile_values l r C s) [0..<C])
      = map ?v (concat (map (\<lambda>k. [chunk_start ?E C k..<chunk_start ?E C (Suc k)]) [0..<C]))"
    by (simp add: Contiguous tile_values_def[abs_def] map_concat comp_def Let_def)
  then show ?thesis by (simp only: contiguous_partition[OF C])
qed

lemma digit_strided:
  assumes "0 < s" "0 < C"
  shows "digit_values (b + k * s, C * s, (e - b) + b) = map (\<lambda>j. b + j * s) (progression (divCeil (e - b) s) C k)"
proof -
  have "divCeil (e - b - k * s) (C * s) = divCeil (divCeil (e - b) s - k) C"
  proof -
    have "divCeil (e - b - k * s) (C * s) \<le> m \<longleftrightarrow> divCeil (divCeil (e - b) s - k) C \<le> m" for m
    proof -
      have "divCeil (e - b - k * s) (C * s) \<le> m \<longleftrightarrow> e - b \<le> (m * C + k) * s"
        using assms by (simp add: divCeil_nat_le_iff algebra_simps le_diff_conv)
      also have "\<dots> \<longleftrightarrow> divCeil (divCeil (e - b) s - k) C \<le> m"
        using assms by (simp add: divCeil_nat_le_iff le_diff_conv)
      finally show ?thesis .
    qed
    then show ?thesis by (meson antisym order_refl)
  qed
  moreover have "e - b + b - (b + k * s) = e - b - k * s" by simp
  ultimately show ?thesis
    by (simp add: digit_values_def progression_def comp_def algebra_simps)
qed

lemma digit_contiguous:
  assumes "0 < s" "f \<le> f'" "f' \<le> divCeil (e - b) s"
  shows "digit_values (b + f * s, s, min (e - b) (f' * s) + b) = map (\<lambda>j. b + j * s) [f..<f']"
proof -
  have le: "f' * s < e - b + s"
  proof (cases f')
    case (Suc m)
    then have "m < divCeil (e - b) s" using assms(3) by simp
    then show ?thesis using assms(1) Suc by (simp add: divCeil_nat_less_iff)
  qed (use assms(1) in simp)
  have "divCeil (min (e - b) (f' * s) + b - (b + f * s)) s \<le> m \<longleftrightarrow> f' - f \<le> m" for m
  proof -
    have "divCeil (min (e - b) (f' * s) + b - (b + f * s)) s \<le> m \<longleftrightarrow> min (e - b) (f' * s) \<le> (m + f) * s"
      using assms(1) by (simp add: divCeil_nat_le_iff algebra_simps le_diff_conv)
    also have "\<dots> \<longleftrightarrow> f' \<le> m + f"
    proof
      assume "min (e - b) (f' * s) \<le> (m + f) * s"
      then have "f' * s \<le> (m + f) * s \<or> e - b \<le> (m + f) * s" by (simp add: min_le_iff_disj disj_commute)
      moreover have "(m + f + 1) * s = (m + f) * s + s" by simp
      ultimately have "f' * s < (m + f + 1) * s" using le assms(1) by linarith
      then have "f' < m + f + 1" by (simp only: mult_less_cancel2)
      then show "f' \<le> m + f" by simp
    next
      assume "f' \<le> m + f"
      then have "f' * s \<le> (m + f) * s" by (rule mult_le_mono1)
      then show "min (e - b) (f' * s) \<le> (m + f) * s" by (rule min.coboundedI2)
    qed
    finally show ?thesis by (simp add: le_diff_conv)
  qed
  then have "divCeil (min (e - b) (f' * s) + b - (b + f * s)) s = f' - f" by (meson antisym order_refl)
  then show ?thesis
    using assms(2) by (intro nth_equalityI) (simp_all add: digit_values_def progression_def algebra_simps)
qed

lemma vec_min_nth': "i < length v \<Longrightarrow> length w = length v \<Longrightarrow> vec_min v w ! i = min (v ! i) (w ! i)"
  and length_vec_min: "length w = length v \<Longrightarrow> length (vec_min v w) = length v"
  by (simp_all add: vec_min_nth)

lemma product_lists_map2:
  "length fs = length xss \<Longrightarrow>
     product_lists (map2 (\<lambda>f xs. map f xs) fs xss) = map (\<lambda>v. map2 (\<lambda>f x. f x) fs v) (product_lists xss)"
  by (induction fs xss rule: list_induct2) (simp_all add: map_concat comp_def)

text \<open>The points of a range as the product of the values of the selected dimensions.\<close>

lemma range_points_product:
  assumes "wf_range r sel N"
  shows "range_points r sel = map (vec_refAssign (ir_begin r) sel)
     (product_lists (map (\<lambda>s. map (\<lambda>j. ir_begin r ! s + j * ir_stride r ! s)
        [0..<divCeil (ir_end r ! s - ir_begin r ! s) (ir_stride r ! s)]) sel))"
proof -
  let ?fs = "map (\<lambda>s j. ir_begin r ! s + j * ir_stride r ! s) sel"
  let ?xss = "map (\<lambda>e. [0..<e]) (range_extent r sel)"
  from assms have wf: "distinct sel" "set sel \<subseteq> {..<length (ir_begin r)}" "set sel \<subseteq> {..<length (ir_end r)}"
    by (auto simp: wf_range_def)
  have l: "length ?fs = length ?xss" by (simp add: range_extent_length)
  have "map2 (\<lambda>f xs. map f xs) ?fs ?xss = map (\<lambda>s. map (\<lambda>j. ir_begin r ! s + j * ir_stride r ! s)
        [0..<divCeil (ir_end r ! s - ir_begin r ! s) (ir_stride r ! s)]) sel"
    using wf by (intro nth_equalityI) (simp_all add: range_extent_length range_extent_nth)
  then have p: "product_lists (map (\<lambda>s. map (\<lambda>j. ir_begin r ! s + j * ir_stride r ! s)
        [0..<divCeil (ir_end r ! s - ir_begin r ! s) (ir_stride r ! s)]) sel)
      = map (\<lambda>v. map2 (\<lambda>f x. f x) ?fs v) (all_idx (range_extent r sel))"
    using product_lists_map2[OF l] by (simp add: all_idx_product)
  have "range_point r sel k = vec_refAssign (ir_begin r) sel (map2 (\<lambda>f x. f x) ?fs k)"
    if k: "in_extents k (range_extent r sel)" for k
  proof (rule nth_equalityI)
    have lk: "length k = length sel" using list_all2_lengthD[OF k] by (simp add: range_extent_length)
    then have lw: "length (map2 (\<lambda>f x. f x) ?fs k) = length sel" by simp
    note rp = range_point_nth[OF assms lk]
    note ra = vec_refUpdate_nth[OF wf(1,2) lw, where f = "\<lambda>_ x. x"]
    show "length (range_point r sel k) = length (vec_refAssign (ir_begin r) sel (map2 (\<lambda>f x. f x) ?fs k))"
      using ra(1) rp(1) assms by (simp add: vec_refAssign_upd wf_range_def)
    fix i
    show "range_point r sel k ! i = vec_refAssign (ir_begin r) sel (map2 (\<lambda>f x. f x) ?fs k) ! i"
    proof (cases "i \<in> set sel")
      case True
      then obtain j where "j < length sel" "i = sel ! j" by (auto simp: in_set_conv_nth)
      then show ?thesis using rp(2)[of j] ra(2)[of j] lk by (simp add: vec_refAssign_upd)
    next
      case False
      then show ?thesis using rp(3) ra(3) by (simp add: vec_refAssign_upd)
    qed
  qed
  then show ?thesis by (simp add: range_points_def p set_all_idx)
qed

lemma tiledIter_values:
  assumes "distinct sel" "sel \<noteq> []" "set sel \<subseteq> {..<length first}"
    and "length offset = length first" "length extent = length first" "length stride = length first"
    and "\<And>s. s \<in> set sel \<Longrightarrow> 0 < stride ! s"
    and "stop = extent ! (sel ! 0) + offset ! (sel ! 0)"
    and zero: "\<And>i. i < length first \<Longrightarrow> i \<notin> set sel \<Longrightarrow> first ! i = 0"
    and vals: "\<And>s. s \<in> set sel \<Longrightarrow>
      digit_values (first ! s + offset ! s, stride ! s, extent ! s + offset ! s) = values s"
  shows "range_for (tiled_at_end sel stop) (tiled_inc sel) tiled_deref (tiledIter sel offset first extent stride)
     = Some (map (vec_refAssign offset sel) (product_lists (map values sel)))"
proof -
  have "map digit_values (tile_digits sel offset first extent stride) = map values sel"
    using vals by (simp add: tile_digits_def)
  moreover have "vec_refAssign (vec_add first offset) sel v = vec_refAssign offset sel v"
    if v: "v \<in> set (product_lists (map values sel))" for v
  proof -
    have lv: "length v = length sel" using in_set_product_lists_length[OF v] by simp
    have sub: "set sel \<subseteq> {..<length offset}" using assms(3,4) by simp
    have sub': "set sel \<subseteq> {..<length (vec_add first offset)}" using assms(3) by simp
    note r = vec_refUpdate_nth[OF assms(1) sub lv, where f = "\<lambda>_ x. x"]
    note r' = vec_refUpdate_nth[OF assms(1) sub' lv, where f = "\<lambda>_ x. x"]
    show ?thesis
    proof (rule nth_equalityI)
      show "length (vec_refAssign (vec_add first offset) sel v) = length (vec_refAssign offset sel v)"
        using r(1) r'(1) assms(4) by (simp add: vec_refAssign_upd)
      fix i assume "i < length (vec_refAssign (vec_add first offset) sel v)"
      then have i: "i < length first" using r'(1) by (simp add: vec_refAssign_upd)
      show "vec_refAssign (vec_add first offset) sel v ! i = vec_refAssign offset sel v ! i"
      proof (cases "i \<in> set sel")
        case True
        then obtain k where "k < length sel" "i = sel ! k" by (auto simp: in_set_conv_nth)
        then show ?thesis using r(2)[of k] r'(2)[of k] by (simp add: vec_refAssign_upd)
      next
        case False
        then show ?thesis using r(3) r'(3) zero[OF i] i by (simp add: vec_refAssign_upd)
      qed
    qed
  qed
  ultimately show ?thesis
    using tiledIter_indices[OF assms(1-8)] by (simp add: odo_all_def)
qed

lemma mapped_idx_less:
  assumes "wf_range r sel N" "in_extents t N" "s \<in> set sel"
  shows "ts_threadIdx (threadSpace_mapTo sel (threadSpace t N)) ! s
       < ts_threadCount (threadSpace_mapTo sel (threadSpace N N)) ! s"
proof -
  from assms have wf: "distinct sel" "set sel \<subseteq> {..<length N}" "length N \<le> Suc (length sel)" "sel \<noteq> []"
    by (auto simp: wf_range_def)
  have "mapped_idx sel N t \<in> set (all_idx (mapped_count sel N))"
    using arg_cong[OF mapTo_bij[OF wf], of set_mset] assms(2) by (auto simp: set_all_idx)
  then show ?thesis
    using assms(3) by (auto simp: set_all_idx mapped_idx_def mapped_count_def vec_swizzle_def list_all2_map1
        list_all2_map2 list_all2_same)
qed

lemma tiled_indices_values:
  assumes "wf_range r sel N" "in_extents t N"
  shows "tiled_indices (idxContainer r (threadSpace t N) l sel)
     = Some (map (vec_refAssign (ir_begin r) sel)
         (product_lists (map (\<lambda>s. tile_values l r (ts_threadCount (threadSpace_mapTo sel (threadSpace N N)) ! s) s
             (ts_threadIdx (threadSpace_mapTo sel (threadSpace t N)) ! s)) sel)))"
proof -
  have lt: "length t = length N" using assms(2) by (rule list_all2_lengthD)
  from assms have wf: "distinct sel" "set sel \<subseteq> {..<length N}" "length N \<le> Suc (length sel)" "sel \<noteq> []"
    and len: "length (ir_begin r) = length N" "length (ir_end r) = length N" "length (ir_stride r) = length N"
    and pos: "\<And>i. i < length N \<Longrightarrow> 0 < ir_stride r ! i" by (auto simp: wf_range_def)
  note lo = mapTo_left_out[OF wf lt]
  note less = mapped_idx_less[OF assms]
  let ?i = "ts_threadIdx (threadSpace_mapTo sel (threadSpace t N))"
  let ?n = "ts_threadCount (threadSpace_mapTo sel (threadSpace N N))"
  have s: "s < length N" if "s \<in> set sel" for s using that wf(2) by auto
  have s0: "sel ! 0 < length N" using wf(4) s by simp
  show ?thesis
  proof (cases l)
    case Strided
    have "tiled_end (idxContainer r (threadSpace t N) Strided sel)
        = range_distance r ! (sel ! 0) + ir_begin r ! (sel ! 0)"
      using wf(4) s0 len by (simp add: tiled_end_def Let_def tiled_iterEnd_def vec_swizzle_def)
    moreover have "digit_values (vec_mul ?i (ir_stride r) ! j + ir_begin r ! j, vec_mul ?n (ir_stride r) ! j,
        range_distance r ! j + ir_begin r ! j) = tile_values Strided r (?n ! j) j (?i ! j)" if "j \<in> set sel" for j
      using digit_strided[of "ir_stride r ! j" "?n ! j" "ir_begin r ! j" "?i ! j" "ir_end r ! j"]
        s[OF that] pos less[OF that] lo len
      by (simp add: range_distance_def tile_values_def Let_def add.commute)
    moreover have "tiled_begin (idxContainer r (threadSpace t N) Strided sel)
        = tiledIter sel (ir_begin r) (vec_mul ?i (ir_stride r)) (range_distance r) (vec_mul ?n (ir_stride r))"
      by (simp add: tiled_begin_def Let_def lo(3))
    moreover have "range_for (tiled_at_end sel (range_distance r ! (sel ! 0) + ir_begin r ! (sel ! 0)))
        (tiled_inc sel) tiled_deref
        (tiledIter sel (ir_begin r) (vec_mul ?i (ir_stride r)) (range_distance r) (vec_mul ?n (ir_stride r)))
      = Some (map (vec_refAssign (ir_begin r) sel) (product_lists (map (\<lambda>j. tile_values Strided r (?n ! j) j (?i ! j)) sel)))"
    proof (rule tiledIter_values[OF wf(1,4)])
      show "0 < vec_mul ?n (ir_stride r) ! j" if "j \<in> set sel" for j
        using less[OF that] s[OF that] pos lo(4) by simp
    qed (use wf(2) lo len calculation(2) in \<open>simp_all add: range_distance_def\<close>)
    ultimately show ?thesis by (simp add: tiled_indices_def Strided)
  next
    case Contiguous
    let ?E = "vec_divCeil (range_distance r) (ir_stride r)"
    let ?f = "vec_mul (vec_add (vec_mul ?i (vec_div ?E ?n)) (vec_min ?i (vec_mod ?E ?n))) (ir_stride r)"
    let ?i' = "vec_opS (+) ?i 1"
    let ?e = "vec_min (range_distance r)
        (vec_mul (vec_add (vec_mul ?i' (vec_div ?E ?n)) (vec_min ?i' (vec_mod ?E ?n))) (ir_stride r))"
    have ld: "length (range_distance r) = length N" by (simp add: range_distance_def len)
    have le: "length ?e = length N" using ld lo len by (simp add: length_vec_min)
    have f: "?f ! j = chunk_start (?E ! j) (?n ! j) (?i ! j) * ir_stride r ! j" if "j < length N" for j
      using that lo ld len by (simp add: chunk_start_def vec_min_nth')
    have e: "?e ! j = min (range_distance r ! j) (chunk_start (?E ! j) (?n ! j) (Suc (?i ! j)) * ir_stride r ! j)"
      if "j < length N" for j
      using that lo ld len by (simp add: chunk_start_def vec_min_nth')
    have d: "range_distance r ! j = ir_end r ! j - ir_begin r ! j" if "j < length N" for j
      using that len by (simp add: range_distance_def)
    have "tiled_end (idxContainer r (threadSpace t N) Contiguous sel) = ?e ! (sel ! 0) + ir_begin r ! (sel ! 0)"
      using wf(4) s0 len by (simp add: tiled_end_def Let_def tiled_iterEnd_def vec_swizzle_def lo(3))
    moreover have "tiled_begin (idxContainer r (threadSpace t N) Contiguous sel)
        = tiledIter sel (ir_begin r) ?f ?e (ir_stride r)"
      by (simp add: tiled_begin_def Let_def lo(3))
    moreover have "range_for (tiled_at_end sel (?e ! (sel ! 0) + ir_begin r ! (sel ! 0))) (tiled_inc sel) tiled_deref
        (tiledIter sel (ir_begin r) ?f ?e (ir_stride r))
      = Some (map (vec_refAssign (ir_begin r) sel) (product_lists (map (\<lambda>j. tile_values Contiguous r (?n ! j) j (?i ! j)) sel)))"
    proof (rule tiledIter_values[OF wf(1,4)])
      fix j
      show "0 < ir_stride r ! j" if "j \<in> set sel" using s[OF that] pos by simp
      show "?f ! j = 0" if "j < length ?f" "j \<notin> set sel"
        using that lo(1,2) f[of j] by (simp add: chunk_start_def)
      assume j: "j \<in> set sel"
      have "0 < ?n ! j" using less[OF j] by simp
      then have "chunk_start (?E ! j) (?n ! j) (Suc (?i ! j)) \<le> ?E ! j"
        using less[OF j] by (intro chunk_start_le) simp_all
      then show "digit_values (?f ! j + ir_begin r ! j, ir_stride r ! j, ?e ! j + ir_begin r ! j)
          = tile_values Contiguous r (?n ! j) j (?i ! j)"
        using digit_contiguous[of "ir_stride r ! j" "chunk_start (?E ! j) (?n ! j) (?i ! j)"
            "chunk_start (?E ! j) (?n ! j) (Suc (?i ! j))" "ir_end r ! j" "ir_begin r ! j"]
          s[OF j] pos f[OF s[OF j]] e[OF s[OF j]] d[OF s[OF j]] ld
        by (simp add: tile_values_def Let_def add.commute chunk_start_mono)
    qed (use wf(2) lo(1) len le in simp_all)
    ultimately show ?thesis by (simp add: tiled_indices_def Contiguous)
  qed
qed

lemma tiled_mset:
  assumes "wf_range r sel N"
  shows "mset (concat (map (\<lambda>t. the (tiled_indices (idxContainer r (threadSpace t N) l sel))) (all_idx N)))
         = mset (range_points r sel)"
proof -
  from assms have wf: "distinct sel" "set sel \<subseteq> {..<length N}" "length N \<le> Suc (length sel)" "sel \<noteq> []"
    by (auto simp: wf_range_def)
  let ?n = "ts_threadCount (threadSpace_mapTo sel (threadSpace N N))"
  let ?Q = "\<lambda>s. map (\<lambda>j. ir_begin r ! s + j * ir_stride r ! s)
        [0..<divCeil (ir_end r ! s - ir_begin r ! s) (ir_stride r ! s)]"
  let ?items = "map (\<lambda>s. (?n ! s, tile_values l r (?n ! s) s, ?Q s)) sel"
  let ?A = "vec_refAssign (ir_begin r) sel"
  let ?p = "\<lambda>u. product_lists (map2 (\<lambda>(c, P, Q) i. P i) ?items u)"
  have c: "map fst ?items = mapped_count sel N" by (simp add: mapped_count_def vec_swizzle_def comp_def)
  have "0 < prod_list (mapped_count sel N)"
    using assms prod_mapped_count[OF wf] by (simp add: wf_range_def prod_list_pos_nat)
  moreover have pos: "0 < ?n ! s" if "0 < prod_list (mapped_count sel N)" "s \<in> set sel" for s
  proof (rule gr0I)
    assume "?n ! s = 0"
    with that(2) have "0 \<in> set (mapped_count sel N)" by (force simp: mapped_count_def vec_swizzle_def)
    with that(1) show False by (metis less_irrefl prod_list_zero_iff)
  qed
  ultimately have pos: "0 < ?n ! s" if "s \<in> set sel" for s using that by blast
  have v: "the (tiled_indices (idxContainer r (threadSpace t N) l sel)) = map ?A (?p (mapped_idx sel N t))"
    if "in_extents t N" for t
  proof -
    have "map2 (\<lambda>(c, P, Q) i. P i) ?items (mapped_idx sel N t)
        = map (\<lambda>s. tile_values l r (?n ! s) s (ts_threadIdx (threadSpace_mapTo sel (threadSpace t N)) ! s)) sel"
      by (rule nth_equalityI) (simp_all add: mapped_idx_def vec_swizzle_def)
    then show ?thesis by (simp add: tiled_indices_values[OF assms that])
  qed
  have all: "concat (map (\<lambda>t. the (tiled_indices (idxContainer r (threadSpace t N) l sel))) (all_idx N))
      = concat (map (\<lambda>u. map ?A (?p u)) (map (mapped_idx sel N) (all_idx N)))"
    unfolding map_map comp_def
    by (intro arg_cong[of _ _ concat] map_cong refl) (simp only: v set_all_idx mem_Collect_eq)
  have "mset (concat (map (\<lambda>t. the (tiled_indices (idxContainer r (threadSpace t N) l sel))) (all_idx N)))
      = mset (concat (map (\<lambda>u. map ?A (?p u)) (all_idx (mapped_count sel N))))"
    unfolding all by (rule mset_concat_map_mset) (rule mapTo_bij[OF wf])
  also have "\<dots> = image_mset ?A (mset (concat (map ?p (all_idx (map fst ?items)))))"
    unfolding c by (simp only: mset_map[symmetric] map_concat map_map comp_def)
  also have "\<dots> = image_mset ?A (mset (product_lists (map (\<lambda>(c, P, Q). Q) ?items)))"
    by (rule arg_cong[OF product_partition]) (auto simp: tile_values_partition[OF pos] simp del: mset_map mset_upt)
  also have "\<dots> = mset (range_points r sel)"
    by (simp add: range_points_product[OF assms] comp_def)
  finally show ?thesis .
qed

text \<open>
  Property C9. The tiled traversal shares a range exactly, with either layout: every worker's loop ends, and
  together the workers visit every index of the range exactly once, for any selection of the
  dimensions that leaves at most one out.
\<close>

theorem tiled_covers:
  assumes "wf_range r sel N"
  shows "(\<forall>t. in_extents t N \<longrightarrow> tiled_indices (idxContainer r (threadSpace t N) l sel) \<noteq> None)
       \<and> mset (concat (map (\<lambda>t. the (tiled_indices (idxContainer r (threadSpace t N) l sel))) (all_idx N)))
         = mset (range_points r sel)"
proof (intro conjI allI impI)
  fix t :: "nat vec" assume "in_extents t N"
  then show "tiled_indices (idxContainer r (threadSpace t N) l sel) \<noteq> None"
    by (simp add: tiled_indices_values[OF assms])
qed (rule tiled_mset[OF assms])

theorem tiled_covers_witness:
  "mset (concat (map (\<lambda>t. the (tiled_indices (idxContainer (idxRange3 [1, 0] [6, 4] [2, 1])
       (threadSpace t [2, 3]) Contiguous [1]))) (all_idx [2, 3])))
   = mset (range_points (idxRange3 [1, 0] [6, 4] [2, 1]) [1])"
  by (rule tiled_covers[THEN conjunct2]) code_simp

end
