(* ===== verification/IdxMap.thy ===== *)
theory IdxMap
  imports TiledIdx
begin

text \<open>
  \<^verbatim>\<open>makeIdxMap\<close>: from an accelerator, a worker group and a range to the indices a thread loops over
  (\<^verbatim>\<open>onAcc/interface.hpp\<close>, \<^verbatim>\<open>onAcc/internal/MakeIter.hpp\<close>, \<^verbatim>\<open>onAcc/traverse.hpp\<close>,
  \<^verbatim>\<open>mem/trait.hpp\<close>), and the sequential traversal of a range on the host (\<^verbatim>\<open>IdxRange::begin\<close>).
\<close>

datatype traverse = Flat | Tiled
datatype layoutPolicy = Layout idxLayout | Optimized

text \<open>\<^verbatim>\<open>AutoIndexMapping\<close>: contiguous on the host API's CPUs, strided everywhere else.\<close>

fun autoIndexMapping :: "api \<Rightarrow> deviceKind \<Rightarrow> idxLayout" where
  "autoIndexMapping Host Cpu = Contiguous"
| "autoIndexMapping Host NumaCpu = Contiguous"
| "autoIndexMapping _ _ = Strided"

definition adjustMapping :: "'a acc \<Rightarrow> idxLayout" where
  "adjustMapping acc = autoIndexMapping (acc_api acc) (acc_deviceKind acc)"

definition traverse_indices :: "traverse \<Rightarrow> 'a::{semiring_modulo,linorder} idxContainer \<Rightarrow> 'a vec list option" where
  "traverse_indices tr c = (case tr of Flat \<Rightarrow> flat_indices c | Tiled \<Rightarrow> tiled_indices c)"

text \<open>
  \<^verbatim>\<open>MakeIter::Op\<close>: range and thread space of the domain, cast to the requested index type, and all
  dimensions selected.
\<close>

definition makeIter :: "('a::semiring_modulo \<Rightarrow> 'b::{semiring_modulo,linorder}) \<Rightarrow> 'a acc \<Rightarrow> 'a DomainSpec
    \<Rightarrow> layoutPolicy \<Rightarrow> 'b idxContainer option" where
  "makeIter pcast acc domainSpec idxMapping =
     (let layout = (case idxMapping of Optimized \<Rightarrow> adjustMapping acc | Layout l \<Rightarrow> l) in
      Option.bind (domainSpec_getIdxRange domainSpec acc) (\<lambda>idxRange.
      Option.bind (domainSpec_getThreadSpace domainSpec acc) (\<lambda>ts.
        Some (idxContainer (range_pCast pcast idxRange) (threadSpace_pCast pcast ts) layout
          (iotaCVec (length (range_distance idxRange)))))))"

definition makeIdxMap :: "('a::{semiring_modulo,linorder}) acc \<Rightarrow> 'a WorkerGroup \<Rightarrow> 'a range_spec
    \<Rightarrow> layoutPolicy \<Rightarrow> 'a idxContainer option" where
  "makeIdxMap acc workGroup rng idxLayout =
     makeIter id acc \<lparr>ds_threadGroup = Inl workGroup, ds_idxRange = rng\<rparr> idxLayout"

text \<open>\<^verbatim>\<open>IdxRange::begin()\<close> and \<^verbatim>\<open>end()\<close>: one worker, contiguous, all dimensions.\<close>

definition range_indices :: "'a::{semiring_modulo,linorder} IdxRange \<Rightarrow> 'a vec list option" where
  "range_indices r =
     (let n = length (ir_end r) in
      flat_indices (idxContainer r (threadSpace (vec_fill n 0) (vec_fill n 1)) Contiguous
        (iotaCVec (length (range_distance r)))))"

section \<open>All layouts and traversals share the range\<close>

lemma wf_iota:
  assumes "length (ir_begin r) = n" "length (ir_end r) = n" "length (ir_stride r) = n" "length N = n" "n \<noteq> 0"
    and "\<forall>s \<in> set (ir_stride r). 0 < s" "\<forall>c \<in> set N. 0 < c"
  shows "wf_range r (iotaCVec n) N"
  using assms by (auto simp: wf_range_def iotaCVec_def)

lemma flat_contiguous_mset:
  assumes "wf_range r (iotaCVec (length N)) N"
  shows "mset (concat (map (\<lambda>t. the (flat_indices (idxContainer r (threadSpace t N) Contiguous (iotaCVec (length N))))) (all_idx N)))
         = mset (range_points r (iotaCVec (length N)))"
proof -
  let ?sel = "iotaCVec (length N)"
  let ?E = "prod_list (range_extent r ?sel)" let ?T = "prod_list N" let ?C = "mapped_count ?sel N"
  let ?P = "\<lambda>l. range_point r ?sel (unlin (range_extent r ?sel) l)"
  have sel: "length ?sel = length N" by (simp add: iotaCVec_def)
  from assms have wf: "distinct ?sel" "set ?sel \<subseteq> {..<length N}" "length N \<le> Suc (length ?sel)" "?sel \<noteq> []"
    by (auto simp: wf_range_def)
  have T: "0 < ?T" using assms by (simp add: wf_range_def prod_list_pos_nat)
  have E: "range_extent r ?sel \<noteq> []" using wf(4) range_extent_length by (metis length_0_conv)
  have C: "?C \<noteq> []" "prod_list ?C = ?T"
    using wf(4) prod_mapped_count[OF wf] by (simp_all add: mapped_count_def)
  have "map (lin ?C) (all_idx ?C) = [0..<?T]"
    using C by (simp add: all_idx_unlin comp_def lin_unlin)
  then have lin: "mset (map (\<lambda>t. lin ?C (mapped_idx ?sel N t)) (all_idx N)) = mset [0..<?T]"
    using arg_cong[OF mapTo_bij[OF wf], of "image_mset (lin ?C)"] by (simp add: comp_def flip: mset_map)
  let ?chunk = "\<lambda>k. [chunk_start ?E ?T k..<chunk_start ?E ?T (Suc k)]"
  have all: "concat (map (\<lambda>t. the (flat_indices (idxContainer r (threadSpace t N) Contiguous ?sel))) (all_idx N))
      = map ?P (concat (map ?chunk (map (\<lambda>t. lin ?C (mapped_idx ?sel N t)) (all_idx N))))"
    unfolding map_concat map_map comp_def
    by (intro arg_cong[of _ _ concat] map_cong refl)
      (simp add: flat_indices_contiguous[OF assms _ sel] set_all_idx Let_def)
  show ?thesis
    unfolding all mset_map mset_concat_map_mset[OF lin] contiguous_partition[OF T]
    using E by (simp add: range_points_def all_idx_unlin comp_def)
qed

lemma traverse_indices_mset:
  assumes "wf_range r (iotaCVec (length N)) N"
  shows "mset (concat (map (\<lambda>t. the (traverse_indices tr (idxContainer r (threadSpace t N) l (iotaCVec (length N))))) (all_idx N)))
       = mset (range_points r (iotaCVec (length N)))"
proof (cases tr)
  case Flat
  then show ?thesis
    using flat_strided_mset[OF assms] flat_contiguous_mset[OF assms]
    by (cases l) (simp_all add: traverse_indices_def)
next
  case Tiled
  then show ?thesis using tiled_mset[OF assms] by (simp add: traverse_indices_def)
qed

lemma traverse_indices_terminates:
  assumes "wf_range r (iotaCVec (length N)) N" "in_extents t N"
  shows "traverse_indices tr (idxContainer r (threadSpace t N) l (iotaCVec (length N))) \<noteq> None"
proof (cases tr)
  case Flat
  have "length (iotaCVec (length N)) = length N" by (simp add: iotaCVec_def)
  with Flat show ?thesis
    using flat_indices_strided[OF assms(1) list_all2_lengthD[OF assms(2)]] flat_indices_contiguous[OF assms]
    by (cases l) (simp_all add: traverse_indices_def Let_def)
next
  case Tiled
  then show ?thesis using tiled_indices_values[OF assms] by (simp add: traverse_indices_def)
qed

section \<open>Points of a range with every dimension selected\<close>

lemma vec_refAssign_all:
  assumes "length w = length v"
  shows "vec_refAssign v [0..<length v] w = w"
proof (rule nth_equalityI)
  note r = vec_refUpdate_nth[of "[0..<length v]" v w, where f = "\<lambda>_ x. x"]
  show "length (vec_refAssign v [0..<length v] w) = length w"
    using r(1) assms by (simp add: vec_refAssign_upd atLeast0LessThan)
  fix i assume "i < length (vec_refAssign v [0..<length v] w)"
  then have "i < length v" using r(1) assms by (simp add: vec_refAssign_upd atLeast0LessThan)
  then show "vec_refAssign v [0..<length v] w ! i = w ! i"
    using r(2)[of i] assms by (simp add: vec_refAssign_upd atLeast0LessThan)
qed

lemma range_points_iota:
  assumes "length b = n" "length e = n" "length st = n" "n \<noteq> 0" "\<forall>s \<in> set st. 0 < s"
  shows "range_points (idxRange3 b e st) (iotaCVec n)
       = product_lists (map (\<lambda>s. map (\<lambda>j. b ! s + j * st ! s) [0..<divCeil (e ! s - b ! s) (st ! s)]) [0..<n])"
    (is "_ = product_lists ?vs")
proof -
  let ?r = "idxRange3 b e st"
  have wf: "wf_range ?r (iotaCVec n) (replicate n 1)"
    by (rule wf_iota) (use assms in \<open>auto simp: idxRange3_def\<close>)
  have "vec_refAssign b [0..<n] w = w" if "w \<in> set (product_lists ?vs)" for w
    using vec_refAssign_all[of w b] in_set_product_lists_length[OF that] assms by simp
  then have "map (vec_refAssign (ir_begin ?r) [0..<n]) (product_lists ?vs) = product_lists ?vs"
    by (intro map_idI) (simp add: idxRange3_def)
  then show ?thesis
    using range_points_product[OF wf] by (simp add: iotaCVec_def idxRange3_def)
qed

lemma vec_pCast_id [simp]: "vec_pCast id v = v"
  by (simp add: vec_pCast_def vec_generate_def)

lemma pCast_id [simp]: "range_pCast id r = r" "threadSpace_pCast id ts = ts"
  by (simp_all add: range_pCast_def idxRange3_def threadSpace_pCast_def threadSpace_def)

text \<open>One thread of a kernel launch: the accelerator it sees, given block and thread index.\<close>

definition launch_acc :: "api \<Rightarrow> deviceKind \<Rightarrow> 'a \<Rightarrow> 'a vec \<Rightarrow> 'a vec \<Rightarrow> 'a vec \<Rightarrow> 'a::zero vec \<Rightarrow> 'a acc" where
  "launch_acc ap dk warpSize B T b t =
     \<lparr>acc_api = ap, acc_deviceKind = dk, acc_warpSize = warpSize, acc_hwLane = 0,
      acc_threadIdx = t, acc_threadCount = T, acc_blockIdx = b, acc_blockCount = B\<rparr>"

lemma makeIdxMap_threadsInGrid:
  assumes "length b = length T" "length t = length T" "length B = length T"
    and "length (ir_begin r) = length T" "length (ir_end r) = length T"
  shows "makeIdxMap (launch_acc ap dk w B T b t) worker_threadsInGrid (Range_given r) pol
       = Some (idxContainer r
           (threadSpace (map (\<lambda>i. T ! i * b ! i + t ! i) [0..<length T]) (vec_mul B T))
           (case pol of Optimized \<Rightarrow> autoIndexMapping ap dk | Layout l \<Rightarrow> l)
           (iotaCVec (length (vec_mul B T))))"
  using assms
  by (cases pol) (simp_all add: makeIdxMap_def makeIter_def domainSpec_getIdxRange_def domainSpec_getThreadSpace_def
      worker_threadsInGrid_nth launch_acc_def adjustMapping_def range_distance_def Let_def)

text \<open>
  Property C1. A grid of threads that loops over \<^verbatim>\<open>makeIdxMap(acc, worker::threadsInGrid, range)\<close> touches
  every index of the range exactly once, summed over all blocks and threads, whatever the API,
  the traversal and the layout; and every single loop ends.
\<close>

theorem makeIdxMap_grid_covers:
  assumes dims: "length B = length T" "length (ir_begin r) = length T" "length (ir_end r) = length T"
      "length (ir_stride r) = length T" "T \<noteq> []"
    and pos: "\<forall>s \<in> set (ir_stride r). 0 < s" "\<forall>c \<in> set B. 0 < c" "\<forall>c \<in> set T. 0 < (c :: nat)"
  shows "(\<forall>b t. in_extents b B \<longrightarrow> in_extents t T \<longrightarrow> traverse_indices tr
             (the (makeIdxMap (launch_acc ap dk w B T b t) worker_threadsInGrid (Range_given r) pol)) \<noteq> None)
       \<and> mset (concat (map (\<lambda>(b, t). the (traverse_indices tr
             (the (makeIdxMap (launch_acc ap dk w B T b t) worker_threadsInGrid (Range_given r) pol))))
           (List.product (all_idx B) (all_idx T))))
         = mset (range_points r (iotaCVec (length T)))"
    (is "?ends \<and> ?covers")
proof
  let ?N = "vec_mul B T"
  let ?l = "case pol of Optimized \<Rightarrow> autoIndexMapping ap dk | Layout l \<Rightarrow> l"
  let ?g = "\<lambda>(b, t). the (workerGroup_getThreadIdx worker_threadsInGrid (launch_acc ap dk w B T b t))"
  let ?v = "\<lambda>u. the (traverse_indices tr (idxContainer r (threadSpace u ?N) ?l (iotaCVec (length ?N))))"
  have N: "length ?N = length T" using dims by simp
  have wf: "wf_range r (iotaCVec (length ?N)) ?N"
  proof (rule wf_iota)
    show "\<forall>c \<in> set ?N. 0 < c" using pos dims by (auto simp: in_set_conv_nth vec_op_def)
  qed (use dims pos N in auto)
  have g: "?g (b, t) = map (\<lambda>i. T ! i * b ! i + t ! i) [0..<length T]"
    if "length b = length T" "length t = length T" for b t
    using that dims by (simp add: workerGroup_getThreadIdx_def worker_threadsInGrid_nth launch_acc_def)
  have one: "the (traverse_indices tr (the (makeIdxMap (launch_acc ap dk w B T b t) worker_threadsInGrid (Range_given r) pol)))
      = ?v (?g (b, t))" if "in_extents b B" "in_extents t T" for b t
  proof -
    have "length b = length T" "length t = length T"
      using that dims by (simp_all add: list_all2_lengthD)
    then show ?thesis using dims g by (simp add: makeIdxMap_threadsInGrid)
  qed
  have A: "map (\<lambda>(b, t). the (traverse_indices tr
             (the (makeIdxMap (launch_acc ap dk w B T b t) worker_threadsInGrid (Range_given r) pol))))
           (List.product (all_idx B) (all_idx T))
      = map ?v (map ?g (List.product (all_idx B) (all_idx T)))"
    using one by (auto simp: set_all_idx)
  have M: "mset (map ?g (List.product (all_idx B) (all_idx T))) = mset (all_idx ?N)"
    using grid_indices_mset[OF dims(1), of "launch_acc ap dk w B T [] []"] by (simp add: launch_acc_def)
  show ?covers
    unfolding A mset_concat_map_mset[OF M] traverse_indices_mset[OF wf] using N by simp
  show ?ends
  proof (intro allI impI)
    fix b t assume 1: "in_extents b B" "in_extents t T"
    note l = 1[THEN list_all2_lengthD]
    have "in_extents (map (\<lambda>i. T ! i * b ! i + t ! i) [0..<length T]) ?N"
      using 1 dims by (auto simp: in_extents_nth vec_op_def intro: grid_index_less)
    from traverse_indices_terminates[OF wf this, of tr ?l]
    show "traverse_indices tr (the (makeIdxMap (launch_acc ap dk w B T b t) worker_threadsInGrid
        (Range_given r) pol)) \<noteq> None"
      using dims l N by (simp add: makeIdxMap_threadsInGrid)
  qed
qed

theorem makeIdxMap_grid_covers_witness:
  "mset (concat (map (\<lambda>(b, t). the (traverse_indices Tiled
       (the (makeIdxMap (launch_acc Cuda Gpu 32 [2, 2] [4, 8] b t) worker_threadsInGrid
          (Range_given (idxRange1 [10, 20])) Optimized))))
     (List.product (all_idx [2, 2]) (all_idx [4, 8]))))
   = mset (range_points (idxRange1 [10, 20]) (iotaCVec (length [4, 8 :: nat])))"
  by (rule makeIdxMap_grid_covers[THEN conjunct2]) code_simp+

text \<open>
  Property C20. Iterating a range on the host visits its points in row-major order, each once.
\<close>

theorem range_indices_row_major:
  assumes "ir_begin r \<noteq> []" "length (ir_end r) = length (ir_begin r)"
    "length (ir_stride r) = length (ir_begin r)" "\<forall>s \<in> set (ir_stride r). 0 < s"
  shows "range_indices r = Some (range_points r (iotaCVec (length (ir_begin r))))"
proof -
  let ?sel = "iotaCVec (length (ir_begin r))"
  define Z where "Z = vec_fill (length (ir_begin r)) (0 :: nat)"
  define I where "I = vec_fill (length (ir_begin r)) (1 :: nat)"
  have I: "length I = length (ir_begin r)" "prod_list I = 1" "\<forall>c \<in> set I. 0 < c" and in1: "in_extents Z I"
    by (simp_all add: I_def Z_def vec_fill_replicate list_all2_conv_all_nth)
  have wf: "wf_range r ?sel I"
    using assms I by (intro wf_iota) auto
  have sel: "length ?sel = length I" by (simp add: iotaCVec_def I)
  from wf have wf': "distinct ?sel" "set ?sel \<subseteq> {..<length I}" "length I \<le> Suc (length ?sel)" "?sel \<noteq> []"
    by (auto simp: wf_range_def)
  have "mapped_idx ?sel I Z \<in> set (all_idx (mapped_count ?sel I))"
    using arg_cong[OF mapTo_bij[OF wf'], of set_mset] in1 by (auto simp: set_all_idx)
  then have l0: "lin (mapped_count ?sel I) (mapped_idx ?sel I Z) = 0"
    using lin_less[of "mapped_idx ?sel I Z" "mapped_count ?sel I"] prod_mapped_count[OF wf'] I(2)
    by (simp add: set_all_idx)
  have E: "range_extent r ?sel \<noteq> []" using wf'(4) range_extent_length by (metis length_0_conv)
  have "range_indices r = flat_indices (idxContainer r (threadSpace Z I) Contiguous ?sel)"
    using assms by (simp add: range_indices_def range_distance_def Let_def Z_def I_def)
  also have "\<dots> = Some (range_points r ?sel)"
    using flat_indices_contiguous[OF wf in1 sel] E
    by (simp add: Let_def l0 I(2) chunk_start_def range_points_def all_idx_unlin comp_def)
  finally show ?thesis .
qed

theorem range_indices_row_major_witness:
  "range_indices (idxRange3 [1, 0] [4, 2] [2, 1]) = Some [[1, 0], [1, 1], [3, 0], [3, 1 :: nat]]"
proof -
  have "range_points (idxRange3 [1, 0] [4, 2] [2, 1]) (iotaCVec 2) = [[1, 0], [1, 1], [3, 0], [3, 1]]"
    by code_simp
  then show ?thesis
    using range_indices_row_major[of "idxRange3 [1, 0] [4, 2] [2, 1]"] by (simp add: idxRange3_def eval_nat_numeral)
qed

end
