(* ===== verification/MdIter.thy ===== *)
theory MdIter
  imports IdxMap
begin

text \<open>
  \<^verbatim>\<open>MdForwardIter\<close> (\<^verbatim>\<open>mem/MdForwardIter.hpp\<close>): the forward iterator over the elements of a
  multi-dimensional span. Its end is the extent of the slowest dimension alone.
\<close>

record 'a mdIter =
  mi_extents :: "'a vec"
  mi_current :: "'a vec"

definition md_begin :: "'a::zero vec \<Rightarrow> 'a mdIter" where
  "md_begin extents =
     (let current = vec_fill (length extents) 0 in
      \<lparr>mi_extents = extents,
       mi_current = (if \<exists>idx < length extents. extents ! idx = 0
                     then current[0 := extents ! 0] else current)\<rparr>)"

definition md_slowCurrent :: "'a mdIter \<Rightarrow> 'a" where
  "md_slowCurrent it = mi_current it ! 0"

definition md_iterEnd :: "'a vec \<Rightarrow> 'a" where
  "md_iterEnd extents = extents ! 0"

definition md_at_end :: "'a::ord \<Rightarrow> 'a mdIter \<Rightarrow> bool" where
  "md_at_end stop it = (stop \<le> md_slowCurrent it)"

definition md_deref :: "('a vec \<Rightarrow> 'b) \<Rightarrow> 'a mdIter \<Rightarrow> 'b" where
  "md_deref access it = access (mi_current it)"

fun md_inc_at :: "'a::{plus,zero,one,ord} vec \<Rightarrow> nat \<Rightarrow> 'a vec \<Rightarrow> 'a vec" where
  "md_inc_at extents 0 current = current"
| "md_inc_at extents (Suc idx) current =
     (let current = current[idx := current ! idx + 1] in
      if length extents \<noteq> 1 \<and> idx \<ge> 1 \<and> current ! idx \<ge> extents ! idx
      then md_inc_at extents idx (current[idx := 0]) else current)"

definition md_inc :: "'a::{plus,zero,one,ord} mdIter \<Rightarrow> 'a mdIter" where
  "md_inc it = it\<lparr>mi_current := md_inc_at (mi_extents it) (length (mi_extents it)) (mi_current it)\<rparr>"

definition md_post_inc :: "'a::{plus,zero,one,ord} mdIter \<Rightarrow> 'a mdIter \<times> 'a mdIter" where
  "md_post_inc it = (it, md_inc it)"

definition md_eq :: "'a mdIter \<Rightarrow> 'a mdIter \<Rightarrow> bool" where
  "md_eq it other = vec_eq (mi_current it) (mi_current other)"

text \<open>What a range-based loop over a span sees.\<close>

definition md_elements :: "'a::{plus,zero,one,ord} vec \<Rightarrow> ('a vec \<Rightarrow> 'b) \<Rightarrow> 'b list option" where
  "md_elements extents access =
     range_for (md_at_end (md_iterEnd extents)) md_inc (md_deref access) (md_begin extents)"

section \<open>It is an odometer that starts at zero\<close>

definition md_digits :: "nat vec \<Rightarrow> digit list" where
  "md_digits E = map (\<lambda>e. (0, 1, e)) E"

lemma md_inc_at_odo:
  assumes "length cur = length E" "k \<le> length E"
    and "\<And>i. i < length E \<Longrightarrow> fs ! i = 0 \<and> ss ! i = 1 \<and> es ! i = E ! i"
  shows "md_inc_at E k cur = odo_inc fs ss es k cur"
  using assms(1,2)
proof (induction k arbitrary: cur)
  case (Suc k)
  have nth: "fs ! k = 0" "ss ! k = 1" "es ! k = E ! k" using Suc.prems assms(3) by simp_all
  have "length E \<noteq> 1" if "k \<ge> 1" using Suc.prems that by simp
  then show ?case
    unfolding md_inc_at.simps odo_inc.simps Let_def nth
    using Suc.IH[of "cur[k := cur ! k + 1, k := 0]"] Suc.prems by auto
qed simp

lemma md_inc_top:
  assumes "length cur = length E" "E \<noteq> []"
  shows "md_inc_at E (length E) cur = top_inc (md_digits E) cur"
proof -
  have l: "length (md_digits E) = length cur" using assms by (simp add: md_digits_def)
  have "1 \<le> length cur" using assms by (simp add: Suc_le_eq)
  from odo_inc_top[OF l this order_refl] show ?thesis
    using md_inc_at_odo[OF assms(1) order_refl, of "map fst (md_digits E)" "map (fst \<circ> snd) (md_digits E)"
        "map (snd \<circ> snd) (md_digits E)"] assms(1) l
    by (simp add: md_digits_def)
qed

lemma odo_all_md: "odo_all (md_digits E) = all_idx E"
proof -
  have "digit_values (0, 1, e) = [0..<e]" for e
    by (simp add: digit_values_def progression_def divCeil_def)
  then show ?thesis by (simp add: odo_all_def md_digits_def all_idx_product comp_def)
qed

definition md_inv :: "nat vec \<Rightarrow> nat mdIter \<Rightarrow> bool" where
  "md_inv E it \<longleftrightarrow> mi_extents it = E \<and> E \<noteq> [] \<and> length (mi_current it) = length E
     \<and> (\<not> md_at_end (md_iterEnd E) it \<longrightarrow> odo_valid (md_digits E) (mi_current it))"

definition md_remaining :: "(nat vec \<Rightarrow> 'b) \<Rightarrow> nat vec \<Rightarrow> nat mdIter \<Rightarrow> 'b list" where
  "md_remaining access E it =
     (if md_at_end (md_iterEnd E) it then []
      else map access (odo_rest (md_digits E) (mi_current it)))"

interpretation md_iter: forward_iter
  "md_at_end (md_iterEnd E)" md_inc "md_deref access" "md_inv E" "md_remaining access E"
  for E :: "nat vec" and access
proof
  fix it :: "nat mdIter"
  assume inv: "md_inv E it"
  then obtain e es where E: "E = e # es" and ext: "mi_extents it = E"
    by (cases E) (auto simp: md_inv_def)
  obtain c cs where c: "mi_current it = c # cs" "length cs = length es"
    using inv E by (cases "mi_current it") (auto simp: md_inv_def)
  have dE: "md_digits E = (0, 1, e) # md_digits es" by (simp add: md_digits_def E)
  have end_c: "md_at_end (md_iterEnd E) it \<longleftrightarrow> e \<le> c"
    by (simp add: md_at_end_def md_slowCurrent_def md_iterEnd_def E c)
  have inc: "mi_current (md_inc it) = top_inc (md_digits E) (mi_current it)"
    using md_inc_top[of "mi_current it" E] inv ext E by (simp add: md_inc_def md_inv_def)
  have valid: "odo_valid ((0, 1, e) # md_digits es) (c # cs)" if "\<not> md_at_end (md_iterEnd E) it"
    using inv that dE c(1) by (simp add: md_inv_def)
  show "md_at_end (md_iterEnd E) it \<longleftrightarrow> md_remaining access E it = []"
    using top_inc_rest(1)[OF valid] by (auto simp: md_remaining_def dE c(1))
  assume ne: "\<not> md_at_end (md_iterEnd E) it"
  note T = top_inc_rest[OF valid[OF ne]]
  obtain c' cs' where c': "mi_current (md_inc it) = c' # cs'" "odo_valid (md_digits es) cs'"
    using T(3) inc dE c(1) by auto
  have end': "md_at_end (md_iterEnd E) (md_inc it) \<longleftrightarrow> e \<le> c'"
    by (simp add: md_at_end_def md_slowCurrent_def md_iterEnd_def E c')
  show "md_inv E (md_inc it)"
    using inv T(2) inc dE c c' end' E ext valid[OF ne]
    by (auto simp: md_inv_def md_inc_def odo_valid_def)
  have "odo_rest (md_digits E) (mi_current it) = mi_current it # odo_rest (md_digits E) (mi_current (md_inc it))"
    using T(1) inc dE c(1) by simp
  moreover have "odo_rest (md_digits E) (mi_current (md_inc it)) = []"
    if "md_at_end (md_iterEnd E) (md_inc it)" using that end' dE c' by simp
  ultimately show "md_remaining access E it = md_deref access it # md_remaining access E (md_inc it)"
    using ne by (auto simp: md_remaining_def md_deref_def)
qed

text \<open>
  Property C21. Iterating over a span visits its elements in row-major order, each exactly once, and ends; a
  span with an extent of zero has no elements and the loop body never runs.
\<close>

theorem md_elements_row_major:
  assumes "extents \<noteq> []"
  shows "md_elements extents access = Some (map access (all_idx extents))"
proof -
  let ?it = "md_begin extents"
  have "md_inv extents ?it \<and> md_remaining access extents ?it = map access (all_idx extents)"
  proof (cases "\<exists>idx < length extents. extents ! idx = 0")
    case True
    then have "0 \<in> set extents" by (auto simp: in_set_conv_nth)
    then have "prod_list extents = 0" by (simp add: prod_list_zero_iff)
    then have "all_idx extents = []" using length_all_idx[of extents] by simp
    with True assms show ?thesis
      by (simp add: md_inv_def md_remaining_def md_at_end_def md_slowCurrent_def md_iterEnd_def md_begin_def
          Let_def vec_fill_replicate)
  next
    case False
    then have pos: "\<forall>e \<in> set extents. 0 < e" by (auto simp: in_set_conv_nth)
    have cur: "mi_current ?it = map fst (md_digits extents)"
      unfolding md_begin_def Let_def if_not_P[OF False]
      by (simp add: vec_fill_replicate md_digits_def comp_def map_replicate_const)
    have ne: "\<not> md_at_end (md_iterEnd extents) ?it"
      using pos assms by (simp add: md_at_end_def md_slowCurrent_def cur md_iterEnd_def md_digits_def)
    have "odo_valid (md_digits extents) (map fst (md_digits extents))"
      using pos by (simp add: odo_valid_def md_digits_def list_all2_conv_all_nth)
    moreover have "odo_rest (md_digits extents) (map fst (md_digits extents)) = all_idx extents"
      using odo_rest_first[of "md_digits extents"] odo_all_md by (simp add: md_digits_def)
    ultimately show ?thesis
      using assms ne by (simp add: md_inv_def md_remaining_def cur)
        (simp add: md_begin_def Let_def md_digits_def)
  qed
  then show ?thesis
    using md_iter.range_for_remaining[of extents ?it access] by (simp add: md_elements_def)
qed

theorem md_elements_row_major_witness:
  "md_elements [2, 2] id = Some [[0, 0], [0, 1], [1, 0], [1, 1 :: nat]] \<and> md_elements [3, 0] id = Some ([] :: nat vec list)"
  using md_elements_row_major[of "[2, 2]" id] md_elements_row_major[of "[3, 0]" id]
  by (simp add: eval_nat_numeral)

end
