(* ===== verification/Boundary.thy ===== *)
theory Boundary
  imports MdIter
begin

text \<open>
  Boundary directions (\<^verbatim>\<open>mem/BoundaryIter.hpp\<close>): the faces, edges, corners and the core of an
  n-dimensional volume, their iterator, and the sub-range of an index range that a direction
  selects (\<^verbatim>\<open>makeDirectionSubRange\<close> in \<^verbatim>\<open>mem/IdxRange.hpp\<close>).
\<close>

datatype BoundaryType = lower | middle | upper | oob

text \<open>The values of the C++ enumeration; its order is the order of the type.\<close>

definition boundary_code :: "BoundaryType \<Rightarrow> nat" where
  "boundary_code b = (case b of lower \<Rightarrow> 0 | middle \<Rightarrow> 1 | upper \<Rightarrow> 2 | oob \<Rightarrow> 3)"

lemma boundary_code_simps [simp]:
  "boundary_code lower = 0" "boundary_code middle = 1" "boundary_code upper = 2" "boundary_code oob = 3"
  by (simp_all add: boundary_code_def)

lemma boundary_code_inj [simp]: "boundary_code a = boundary_code b \<longleftrightarrow> a = b"
  by (cases a; cases b) simp_all

instantiation BoundaryType :: linorder
begin

definition less_eq_BoundaryType :: "BoundaryType \<Rightarrow> BoundaryType \<Rightarrow> bool" where
  "a \<le> b \<longleftrightarrow> boundary_code a \<le> boundary_code b"

definition less_BoundaryType :: "BoundaryType \<Rightarrow> BoundaryType \<Rightarrow> bool" where
  "a < b \<longleftrightarrow> boundary_code a < boundary_code b"

instance
  by standard (auto simp: less_eq_BoundaryType_def less_BoundaryType_def)

end

section \<open>Directions\<close>

record 'h BoundaryDirection =
  bd_data :: "BoundaryType vec"
  bd_lowerHaloSize :: "'h vec"
  bd_upperHaloSize :: "'h vec"

definition boundaryDirection :: "BoundaryType vec \<Rightarrow> 'h vec \<Rightarrow> 'h vec \<Rightarrow> 'h BoundaryDirection" where
  "boundaryDirection b lo up = \<lparr>bd_data = b, bd_lowerHaloSize = lo, bd_upperHaloSize = up\<rparr>"

definition boundary_dim :: "'h BoundaryDirection \<Rightarrow> nat" where
  "boundary_dim bd = length (bd_data bd)"

definition boundaryDimensionality :: "'h BoundaryDirection \<Rightarrow> nat" where
  "boundaryDimensionality bd =
     for_upto 0 (length (bd_data bd)) (\<lambda>i c. if bd_data bd ! i = middle then c + 1 else c) 0"

definition boundary_isVertex :: "'h BoundaryDirection \<Rightarrow> bool" where
  "boundary_isVertex bd = (boundaryDimensionality bd = 0)"

definition boundary_isEdge :: "'h BoundaryDirection \<Rightarrow> bool" where
  "boundary_isEdge bd = (boundaryDimensionality bd = 1)"

definition boundary_isFace :: "'h BoundaryDirection \<Rightarrow> bool" where
  "boundary_isFace bd = (boundaryDimensionality bd = 2)"

definition boundary_isCell :: "'h BoundaryDirection \<Rightarrow> bool" where
  "boundary_isCell bd = (boundaryDimensionality bd = 3)"

definition boundary_isInterior :: "'h BoundaryDirection \<Rightarrow> bool" where
  "boundary_isInterior bd = (boundaryDimensionality bd = boundary_dim bd)"

text \<open>The output operator, with the decimal printing of the stream as \<open>str\<close>.\<close>

definition boundary_print :: "(nat \<Rightarrow> string) \<Rightarrow> 'h BoundaryDirection \<Rightarrow> string" where
  "boundary_print str bd =
     map (\<lambda>b. case b of lower \<Rightarrow> CHR ''v'' | middle \<Rightarrow> CHR ''-'' | upper \<Rightarrow> CHR 0x5E | oob \<Rightarrow> CHR ''x'') (bd_data bd)
       @ (if boundary_isVertex bd then '' (vertex) '' else [])
       @ (if boundary_isEdge bd then '' (edge)   '' else [])
       @ (if boundary_isFace bd then '' (face)   '' else [])
       @ (if boundary_isCell bd then '' (cell)   '' else [])
       @ (if boundaryDimensionality bd \<ge> 4 then '' ('' @ str (boundaryDimensionality bd) @ ''D volume)'' else [])"

definition makeCoreBoundaryDirection :: "nat \<Rightarrow> 'h vec \<Rightarrow> 'h vec \<Rightarrow> 'h BoundaryDirection" where
  "makeCoreBoundaryDirection dim lowerHalos upperHalos =
     boundaryDirection (fillCVec dim middle) lowerHalos upperHalos"

definition makeCoreBoundaryDirection1 :: "nat \<Rightarrow> 'h vec \<Rightarrow> 'h BoundaryDirection" where
  "makeCoreBoundaryDirection1 dim halos = boundaryDirection (fillCVec dim middle) halos halos"

definition makeCoreBoundaryDirection0 :: "nat \<Rightarrow> 'h::one BoundaryDirection" where
  "makeCoreBoundaryDirection0 dim = makeCoreBoundaryDirection1 dim (fillCVec dim 1)"

section \<open>The iterator\<close>

record 'h BoundaryDirectionIter =
  bi_boundaries :: "'h BoundaryDirection"
  bi_lowerHaloSizes :: "'h vec"
  bi_upperHaloSizes :: "'h vec"

definition boundaryIter :: "BoundaryType vec \<Rightarrow> 'h vec \<Rightarrow> 'h vec \<Rightarrow> 'h BoundaryDirectionIter" where
  "boundaryIter b lo up =
     \<lparr>bi_boundaries = boundaryDirection b lo up, bi_lowerHaloSizes = lo, bi_upperHaloSizes = up\<rparr>"

text \<open>
  The increment runs from the last dimension to the first; \<open>None\<close> is the failing assertion on a
  direction that is already out of bounds. The flag tells that every dimension wrapped.
\<close>

fun boundary_inc_at :: "nat \<Rightarrow> BoundaryType vec \<Rightarrow> (bool \<times> BoundaryType vec) option" where
  "boundary_inc_at 0 data = Some (True, data)"
| "boundary_inc_at (Suc i) data =
     (case data ! i of
        lower \<Rightarrow> Some (False, data[i := middle])
      | middle \<Rightarrow> Some (False, data[i := upper])
      | upper \<Rightarrow> boundary_inc_at i (data[i := lower])
      | oob \<Rightarrow> None)"

definition boundary_inc :: "'h BoundaryDirectionIter \<Rightarrow> 'h BoundaryDirectionIter option" where
  "boundary_inc it =
     map_option
       (\<lambda>(out, data). it\<lparr>bi_boundaries :=
          if out then boundaryDirection (vec_generate (length data) (\<lambda>_. oob)) (bi_lowerHaloSizes it) (bi_upperHaloSizes it)
          else (bi_boundaries it)\<lparr>bd_data := data\<rparr>\<rparr>)
       (boundary_inc_at (length (bd_data (bi_boundaries it))) (bd_data (bi_boundaries it)))"

definition boundary_deref :: "'h BoundaryDirectionIter \<Rightarrow> 'h BoundaryDirection" where
  "boundary_deref it = bi_boundaries it"

record 'h BoundaryDirectionsContainer =
  bc_dim :: nat
  bc_lowerHaloSizes :: "'h vec"
  bc_upperHaloSizes :: "'h vec"

definition boundaries_begin :: "'h BoundaryDirectionsContainer \<Rightarrow> 'h BoundaryDirectionIter" where
  "boundaries_begin c = boundaryIter (vec_generate (bc_dim c) (\<lambda>_. lower)) (bc_lowerHaloSizes c) (bc_upperHaloSizes c)"

definition boundaries_end :: "'h BoundaryDirectionsContainer \<Rightarrow> 'h BoundaryDirectionIter" where
  "boundaries_end c = boundaryIter (vec_generate (bc_dim c) (\<lambda>_. oob)) (bc_lowerHaloSizes c) (bc_upperHaloSizes c)"

definition boundaries_length :: "'h BoundaryDirectionsContainer \<Rightarrow> u32" where
  "boundaries_length c = ipow 3 (of_nat (bc_dim c))"

definition makeBoundaryDirIterator :: "'h vec \<Rightarrow> 'h vec \<Rightarrow> 'h BoundaryDirectionsContainer" where
  "makeBoundaryDirIterator lo up = \<lparr>bc_dim = length lo, bc_lowerHaloSizes = lo, bc_upperHaloSizes = up\<rparr>"

definition makeBoundaryDirIterator1 :: "'h vec \<Rightarrow> 'h BoundaryDirectionsContainer" where
  "makeBoundaryDirIterator1 haloSizes = makeBoundaryDirIterator haloSizes haloSizes"

definition makeBoundaryDirIterator0 :: "nat \<Rightarrow> 'h::one BoundaryDirectionsContainer" where
  "makeBoundaryDirIterator0 dim = makeBoundaryDirIterator (fillCVec dim 1) (fillCVec dim 1)"

text \<open>
  The loop over a container. An increment that fails its assertion leaves the iterator in place,
  so that a loop running into it would not end.
\<close>

definition boundary_step :: "'h BoundaryDirectionIter \<Rightarrow> 'h BoundaryDirectionIter" where
  "boundary_step it = (case boundary_inc it of Some it' \<Rightarrow> it' | None \<Rightarrow> it)"

definition boundaries_list :: "'h BoundaryDirectionsContainer \<Rightarrow> 'h BoundaryDirection list option" where
  "boundaries_list c =
     range_for (\<lambda>it. it = boundaries_end c) boundary_step boundary_deref (boundaries_begin c)"

section \<open>Sub-ranges\<close>

text \<open>
  \<^verbatim>\<open>makeDirectionSubRange\<close> stores begin and end in 32-bit vectors: \<open>narrow\<close> is that conversion.
  \<open>None\<close> is the assertion on an out-of-bounds direction.
\<close>

definition directionBounds :: "('a::{plus,minus} \<Rightarrow> 'b) \<Rightarrow> 'a IdxRange \<Rightarrow> 'a BoundaryDirection \<Rightarrow> nat \<Rightarrow> ('b \<times> 'b) option" where
  "directionBounds narrow r bd i =
     (case bd_data bd ! i of
        lower \<Rightarrow> Some (narrow (ir_begin r ! i), narrow (ir_begin r ! i + bd_lowerHaloSize bd ! i))
      | upper \<Rightarrow> Some (narrow (ir_end r ! i - bd_upperHaloSize bd ! i), narrow (ir_end r ! i))
      | middle \<Rightarrow> Some (narrow (ir_begin r ! i + bd_lowerHaloSize bd ! i),
                        narrow (ir_end r ! i - bd_upperHaloSize bd ! i))
      | oob \<Rightarrow> None)"

definition makeDirectionSubRange :: "('a::{plus,minus} \<Rightarrow> 'b::zero) \<Rightarrow> ('a \<Rightarrow> 'b) \<Rightarrow> 'a IdxRange \<Rightarrow> 'a BoundaryDirection \<Rightarrow> 'b IdxRange option" where
  "makeDirectionSubRange narrow conv r bd =
     (let n = length (bd_data bd) in
      map_option (\<lambda>(begin', end'). idxRange3 begin' end' (vec_pCast conv (ir_stride r)))
        (for_upto 0 n
           (\<lambda>i st. Option.bind st (\<lambda>(begin', end').
              map_option (\<lambda>(b, e). (begin'[i := b], end'[i := e])) (directionBounds narrow r bd i)))
           (Some (vec_fill n 0, vec_fill n 0))))"

section \<open>Counting directions\<close>

definition decode_boundary :: "nat \<Rightarrow> BoundaryType" where
  "decode_boundary k = (if k = 0 then lower else if k = 1 then middle else upper)"

lemma decode_boundary_simps [simp]:
  "decode_boundary 0 = lower" "decode_boundary 1 = middle" "decode_boundary (Suc 0) = middle"
  "decode_boundary 2 = upper" "decode_boundary (Suc (Suc 0)) = upper"
  by (simp_all add: decode_boundary_def)

lemma code_decode: "x < 3 \<Longrightarrow> boundary_code (decode_boundary x) = x"
  by (auto simp: decode_boundary_def)

lemma decode_not_oob [simp]: "decode_boundary x \<noteq> oob" "oob \<noteq> decode_boundary x"
  by (simp_all add: decode_boundary_def)

lemma decode_code: "b \<noteq> oob \<Longrightarrow> decode_boundary (boundary_code b) = b"
  by (cases b) (simp_all add: decode_boundary_def)

lemma map_decode_code: "oob \<notin> set data \<Longrightarrow> map decode_boundary (map boundary_code data) = data"
  by (induction data) (auto simp: decode_code)

abbreviation "boundary_digits n \<equiv> md_digits (replicate n 3)"

text \<open>The increment of the boundary iterator is the carry of a base-3 odometer.\<close>

lemma boundary_inc_wrap:
  assumes "oob \<notin> set data" "k \<le> length data"
  shows "boundary_inc_at k data = Some
     (let (carry, t) = wrap_inc (boundary_digits k) (map boundary_code (take k data)) in
      (carry, map decode_boundary t @ drop k data))"
  using assms
proof (induction k arbitrary: data)
  case 0
  then show ?case by (simp add: md_digits_def)
next
  case (Suc k)
  then have k: "k < length data" by simp
  have ds: "boundary_digits (Suc k) = boundary_digits k @ [(0, 1, 3)]"
    by (simp add: md_digits_def flip: replicate_append_same)
  have tk: "map boundary_code (take (Suc k) data) = map boundary_code (take k data) @ [boundary_code (data ! k)]"
    using k by (simp add: take_Suc_conv_app_nth)
  have l: "length (boundary_digits k) = length (map boundary_code (take k data))"
    using k by (simp add: md_digits_def)
  have dd: "map decode_boundary (map boundary_code (take k data)) = take k data"
    using Suc.prems(1) by (intro map_decode_code) (auto dest: in_set_takeD)
  have dr: "drop k (data[k := x]) = x # drop (Suc k) data" for x
    using k by (metis Cons_nth_drop_Suc drop_update_cancel length_list_update lessI nth_list_update_eq)
  have upd: "data[k := x] = take k data @ x # drop (Suc k) data" for x
    using k by (simp add: upd_conv_take_nth_drop)
  have "data ! k \<noteq> oob" using Suc.prems(1) k by (metis nth_mem)
  then consider "data ! k = lower" | "data ! k = middle" | "data ! k = upper" by (cases "data ! k") auto
  then show ?case
  proof cases
    case 1
    then show ?thesis
      unfolding ds tk wrap_inc_append[OF l] using dd by (simp add: upd)
  next
    case 2
    then show ?thesis
      unfolding ds tk wrap_inc_append[OF l] using dd by (simp add: upd)
  next
    case 3
    have "oob \<notin> set (data[k := lower])"
      using Suc.prems(1) by (metis BoundaryType.distinct(5) insert_iff set_update_subset_insert subsetD)
    with 3 Suc.IH[of "data[k := lower]"] k show ?thesis
      unfolding ds tk wrap_inc_append[OF l]
      by (cases "wrap_inc (boundary_digits k) (map boundary_code (take k data))")
        (simp add: dr)
  qed
qed

text \<open>All directions of a volume, in the order of the iterator.\<close>

definition boundary_directions :: "'h BoundaryDirectionsContainer \<Rightarrow> 'h BoundaryDirection list" where
  "boundary_directions c =
     map (\<lambda>v. boundaryDirection (map decode_boundary v) (bc_lowerHaloSizes c) (bc_upperHaloSizes c))
       (all_idx (replicate (bc_dim c) 3))"

definition boundary_inv :: "'h BoundaryDirectionsContainer \<Rightarrow> 'h BoundaryDirectionIter \<Rightarrow> bool" where
  "boundary_inv c it \<longleftrightarrow> 0 < bc_dim c \<and>
     (it = boundaries_end c \<or>
      (\<exists>data. it = boundaryIter data (bc_lowerHaloSizes c) (bc_upperHaloSizes c)
        \<and> length data = bc_dim c \<and> oob \<notin> set data))"

definition boundary_remaining :: "'h BoundaryDirectionsContainer \<Rightarrow> 'h BoundaryDirectionIter \<Rightarrow> 'h BoundaryDirection list" where
  "boundary_remaining c it =
     (if it = boundaries_end c then []
      else map (\<lambda>v. boundaryDirection (map decode_boundary v) (bc_lowerHaloSizes c) (bc_upperHaloSizes c))
        (odo_rest (boundary_digits (bc_dim c)) (map boundary_code (bd_data (bi_boundaries it)))))"

lemma boundary_data_valid:
  assumes "length data = n" "oob \<notin> set data"
  shows "odo_valid (boundary_digits n) (map boundary_code data)"
proof -
  have "boundary_code (data ! i) < 3" if "i < n" for i
  proof -
    have "data ! i \<noteq> oob" using assms that by (metis nth_mem)
    then show ?thesis by (cases "data ! i") simp_all
  qed
  then show ?thesis using assms by (simp add: odo_valid_def md_digits_def list_all2_conv_all_nth)
qed

lemma boundary_step_data:
  assumes "length data = n" "oob \<notin> set data"
  shows "boundary_step (boundaryIter data lo up) =
     (let (carry, t) = wrap_inc (boundary_digits n) (map boundary_code data) in
      boundaryIter (if carry then replicate n oob else map decode_boundary t) lo up)"
proof -
  obtain carry t where w: "wrap_inc (boundary_digits n) (map boundary_code data) = (carry, t)" by fastforce
  have "length (boundary_digits n) = length (map boundary_code data)" using assms(1) by (simp add: md_digits_def)
  from length_wrap_inc[OF this] have "length t = n" using w assms(1) by simp
  then show ?thesis
    using boundary_inc_wrap[OF assms(2) order_refl] w assms(1)
    by (simp add: boundary_step_def boundary_inc_def boundaryIter_def boundaryDirection_def vec_generate_def
        map_replicate_const)
qed

interpretation boundary_iter: forward_iter
  "\<lambda>it. it = boundaries_end c" boundary_step boundary_deref "boundary_inv c" "boundary_remaining c"
  for c :: "'h BoundaryDirectionsContainer"
proof
  fix it :: "'h BoundaryDirectionIter"
  let ?n = "bc_dim c" and ?lo = "bc_lowerHaloSizes c" and ?up = "bc_upperHaloSizes c"
  let ?ds = "boundary_digits (bc_dim c)"
  assume inv: "boundary_inv c it"
  have end_data: "boundaries_end c = boundaryIter (replicate ?n oob) ?lo ?up"
    by (simp add: boundaries_end_def vec_generate_def map_replicate_const)
  have n: "0 < ?n" using inv by (simp add: boundary_inv_def)
  have main: "boundary_remaining c it = boundary_deref it # boundary_remaining c (boundary_step it)
      \<and> boundary_inv c (boundary_step it)" if ne: "it \<noteq> boundaries_end c"
  proof -
    obtain data where d: "it = boundaryIter data ?lo ?up" "length data = ?n" "oob \<notin> set data"
      using inv ne by (auto simp: boundary_inv_def)
    obtain carry t where w: "wrap_inc ?ds (map boundary_code data) = (carry, t)" by fastforce
    have st: "boundary_step it = boundaryIter (if carry then replicate ?n oob else map decode_boundary t) ?lo ?up"
      unfolding d(1) boundary_step_data[OF d(2,3)] w by simp
    note R = wrap_inc_rest[OF boundary_data_valid[OF d(2,3)]]
    have cur: "boundary_deref it = boundaryDirection (map decode_boundary (map boundary_code data)) ?lo ?up"
      using d map_decode_code[OF d(3)] by (simp add: boundary_deref_def boundaryIter_def)
    have rem: "boundary_remaining c it = map (\<lambda>v. boundaryDirection (map decode_boundary v) ?lo ?up)
        (odo_rest ?ds (map boundary_code data))"
      using ne d(1) by (simp add: boundary_remaining_def boundaryIter_def boundaryDirection_def)
    show ?thesis
    proof (cases carry)
      case True
      then have "boundary_step it = boundaries_end c" using st end_data by simp
      moreover have "odo_rest ?ds (map boundary_code data) = [map boundary_code data]"
        using R w True by simp
      ultimately show ?thesis using rem cur n by (simp add: boundary_remaining_def boundary_inv_def)
    next
      case False
      have v: "odo_valid ?ds t" "odo_rest ?ds (map boundary_code data) = map boundary_code data # odo_rest ?ds t"
        using R w False by simp_all
      then have lt: "length t = ?n" and less: "\<forall>x \<in> set t. x < 3"
        by (auto simp: odo_valid_def md_digits_def list_all2_conv_all_nth in_set_conv_nth)
      have no: "oob \<notin> set (map decode_boundary t)" by auto
      have tt: "map boundary_code (map decode_boundary t) = t"
        unfolding map_map using less by (intro map_idI) (simp add: code_decode)
      have "map decode_boundary t \<noteq> replicate ?n oob"
        using no n by (metis gr0_conv_Suc in_set_replicate not_less_zero)
      then have "boundary_step it \<noteq> boundaries_end c"
        using st False by (auto simp: end_data boundaryIter_def boundaryDirection_def)
      then have "boundary_remaining c (boundary_step it)
          = map (\<lambda>v. boundaryDirection (map decode_boundary v) ?lo ?up) (odo_rest ?ds t)"
        using st False tt by (simp add: boundary_remaining_def boundaryIter_def boundaryDirection_def)
      moreover have "boundary_inv c (boundary_step it)"
        using st False no lt n by (auto simp: boundary_inv_def)
      ultimately show ?thesis using rem cur v(2) by simp
    qed
  qed
  show "it = boundaries_end c \<longleftrightarrow> boundary_remaining c it = []"
    using main by (cases "it = boundaries_end c") (simp_all add: boundary_remaining_def)
  assume "it \<noteq> boundaries_end c"
  then show "boundary_remaining c it = boundary_deref it # boundary_remaining c (boundary_step it)"
    and "boundary_inv c (boundary_step it)" using main by simp_all
qed

lemma set_boundary_directions:
  "bd_data ` set (boundary_directions c) = {data. length data = bc_dim c \<and> oob \<notin> set data}"
proof -
  have "map decode_boundary ` {v. in_extents v (replicate n 3)} = {data. length data = n \<and> oob \<notin> set data}" for n
  proof (rule set_eqI)
    fix data
    show "data \<in> map decode_boundary ` {v. in_extents v (replicate n 3)}
        \<longleftrightarrow> data \<in> {data. length data = n \<and> oob \<notin> set data}"
    proof
      assume "data \<in> {data. length data = n \<and> oob \<notin> set data}"
      then have d: "length data = n" "oob \<notin> set data" by auto
      have "in_extents (map boundary_code data) (replicate n 3)"
        using boundary_data_valid[OF d] d(1) by (auto simp: odo_valid_def md_digits_def list_all2_conv_all_nth)
      then show "data \<in> map decode_boundary ` {v. in_extents v (replicate n 3)}"
        using map_decode_code[OF d(2)] by (metis image_eqI mem_Collect_eq)
    qed (auto simp: list_all2_conv_all_nth)
  qed
  then show ?thesis
    by (simp add: boundary_directions_def set_all_idx image_image boundaryDirection_def)
qed

lemma boundaries_list_directions:
  assumes "0 < bc_dim c"
  shows "boundaries_list c = Some (boundary_directions c)"
proof -
  let ?it = "boundaries_begin c"
  have ne: "?it \<noteq> boundaries_end c"
    using assms by (auto simp: boundaries_begin_def boundaries_end_def boundaryIter_def boundaryDirection_def
        vec_generate_def map_replicate_const dest: arg_cong[of _ _ hd])
  have "boundary_inv c ?it"
    using assms by (auto simp: boundary_inv_def boundaries_begin_def vec_generate_def map_replicate_const)
  moreover have "boundary_remaining c ?it = boundary_directions c"
  proof -
    have "map boundary_code (bd_data (bi_boundaries ?it)) = map fst (boundary_digits (bc_dim c))"
      by (simp add: boundaries_begin_def boundaryIter_def boundaryDirection_def vec_generate_def
          map_replicate_const md_digits_def)
    moreover have "\<forall>(f, s, e) \<in> set (boundary_digits (bc_dim c)). 0 < s" by (auto simp: md_digits_def)
    ultimately show ?thesis
      using ne by (simp add: boundary_remaining_def odo_rest_first odo_all_md boundary_directions_def)
  qed
  ultimately show ?thesis
    using boundary_iter.range_for_remaining[of c ?it] by (simp add: boundaries_list_def)
qed

text \<open>
  Property C22. Iterating the boundary directions of an n-dimensional volume ends after \<open>3 ^ n\<close> steps and
  yields every combination of lower, middle and upper exactly once, never an out-of-bounds
  one; \<^verbatim>\<open>length()\<close> announces that number as long as it fits 32 bits.
\<close>

theorem boundary_iteration_complete:
  assumes "0 < bc_dim c" "3 ^ bc_dim c < (2 :: nat) ^ 32"
  shows "\<exists>ds. boundaries_list c = Some ds \<and> distinct (map bd_data ds)
       \<and> bd_data ` set ds = {data. length data = bc_dim c \<and> oob \<notin> set data}
       \<and> length ds = 3 ^ bc_dim c \<and> unat (boundaries_length c) = length ds"
proof (intro exI conjI)
  show "boundaries_list c = Some (boundary_directions c)"
    using assms(1) by (rule boundaries_list_directions)
  show len: "length (boundary_directions c) = 3 ^ bc_dim c"
    by (simp add: boundary_directions_def length_all_idx)
  show "bd_data ` set (boundary_directions c) = {data. length data = bc_dim c \<and> oob \<notin> set data}"
    by (rule set_boundary_directions)
  have "inj_on (map decode_boundary) {v :: nat vec. in_extents v (replicate (bc_dim c) 3)}"
  proof (rule inj_on_inverseI)
    fix v :: "nat vec" assume "v \<in> {v. in_extents v (replicate (bc_dim c) 3)}"
    then have "\<forall>x \<in> set v. x < 3" by (auto simp: list_all2_conv_all_nth in_set_conv_nth)
    then show "map boundary_code (map decode_boundary v) = v"
      unfolding map_map by (intro map_idI) (simp add: code_decode)
  qed
  then show "distinct (map bd_data (boundary_directions c))"
    by (simp add: boundary_directions_def comp_def boundaryDirection_def distinct_map distinct_all_idx set_all_idx)
  have "bc_dim c < (2 :: nat) ^ bc_dim c" by (rule less_exp)
  also have "\<dots> \<le> 3 ^ bc_dim c" by (simp add: power_mono)
  also note assms(2)
  finally have small: "bc_dim c < 2 ^ 32" .
  have "unat (3 ^ k :: u32) = 3 ^ k" if "3 ^ k < (2 :: nat) ^ 32" for k
    using that by (induction k) (auto simp: unat_mult_bound)
  then show "unat (boundaries_length c) = length (boundary_directions c)"
    using assms(2) small len by (simp add: boundaries_length_def ipow_power unat_of_nat)
qed

theorem boundary_iteration_complete_witness:
  "\<exists>ds. boundaries_list (makeBoundaryDirIterator0 3 :: nat BoundaryDirectionsContainer) = Some ds \<and> length ds = 27"
  using boundary_iteration_complete[of "makeBoundaryDirIterator0 3 :: nat BoundaryDirectionsContainer"]
  by (auto simp: makeBoundaryDirIterator0_def makeBoundaryDirIterator_def fillCVec_replicate)

section \<open>The directions tile the volume\<close>

lemma makeDirectionSubRange_bounds:
  assumes "\<And>i. i < length (bd_data bd) \<Longrightarrow> directionBounds narrow r bd i = Some (B i, E i)"
  shows "makeDirectionSubRange narrow conv r bd
       = Some (idxRange3 (map B [0..<length (bd_data bd)]) (map E [0..<length (bd_data bd)])
           (vec_pCast conv (ir_stride r)))"
proof -
  let ?n = "length (bd_data bd)"
  let ?body = "\<lambda>i st. Option.bind st (\<lambda>(begin', end').
              map_option (\<lambda>(b, e). (begin'[i := b], end'[i := e])) (directionBounds narrow r bd i))"
  have "k \<le> ?n \<Longrightarrow> for_upto 0 k ?body (Some (vec_fill ?n 0, vec_fill ?n 0))
      = Some (map B [0..<k] @ replicate (?n - k) 0, map E [0..<k] @ replicate (?n - k) 0)" for k
  proof (induction k)
    case 0
    then show ?case by (simp add: vec_fill_replicate)
  next
    case (Suc k)
    then have "?n - k = Suc (?n - Suc k)" by simp
    with Suc assms show ?case by (simp add: for_upto_Suc list_update_append)
  qed
  from this[of ?n] show ?thesis by (simp add: makeDirectionSubRange_def Let_def)
qed

lemma directionBounds_decode:
  "i < length v \<Longrightarrow> directionBounds narrow r (boundaryDirection (map decode_boundary v) lo up) i
     = Some (if v ! i = 0 then (narrow (ir_begin r ! i), narrow (ir_begin r ! i + lo ! i))
             else if v ! i = 1 then (narrow (ir_begin r ! i + lo ! i), narrow (ir_end r ! i - up ! i))
             else (narrow (ir_end r ! i - up ! i), narrow (ir_end r ! i)))"
  by (simp add: directionBounds_def boundaryDirection_def decode_boundary_def)

text \<open>With unit strides the points of a range are the product of its intervals.\<close>

definition box :: "nat vec \<Rightarrow> nat vec \<Rightarrow> nat vec list" where
  "box begin' end' = product_lists (map2 (\<lambda>b e. [b..<e]) begin' end')"

lemma range_points_box:
  assumes "length b = n" "length e = n" "n \<noteq> 0"
  shows "range_points (idxRange3 b e (replicate n 1)) (iotaCVec n) = box b e"
proof -
  let ?r = "idxRange3 b e (replicate n 1)"
  have wf: "wf_range ?r (iotaCVec n) (replicate n 1)"
    by (rule wf_iota) (use assms in \<open>auto simp: idxRange3_def\<close>)
  have eq: "map (\<lambda>s. map (\<lambda>j. ir_begin ?r ! s + j * ir_stride ?r ! s)
        [0..<divCeil (ir_end ?r ! s - ir_begin ?r ! s) (ir_stride ?r ! s)]) [0..<n]
      = map2 (\<lambda>b e. [b..<e]) b e"
    using assms by (intro nth_equalityI) (auto simp: idxRange3_def divCeil_def intro: nth_equalityI)
  have "vec_refAssign b [0..<n] w = w" if "w \<in> set (product_lists (map2 (\<lambda>b e. [b..<e]) b e))" for w
    using vec_refAssign_all[of w b] in_set_product_lists_length[OF that] assms by simp
  then have "map (vec_refAssign (ir_begin ?r) [0..<n]) (box b e) = box b e"
    unfolding box_def by (intro map_idI) (simp add: idxRange3_def)
  then show ?thesis
    using range_points_product[OF wf] by (simp only: iotaCVec_def eq box_def)
qed

text \<open>The interval of dimension \<open>i\<close> for a direction with code \<open>k\<close> there, halos \<open>lo\<close> and \<open>up\<close>.\<close>

definition dir_begin :: "nat vec \<Rightarrow> nat vec \<Rightarrow> nat vec \<Rightarrow> nat vec \<Rightarrow> nat \<Rightarrow> nat \<Rightarrow> nat" where
  "dir_begin b e lo up i k = (if k = 0 then b ! i else if k = 1 then b ! i + lo ! i else e ! i - up ! i)"

definition dir_end :: "nat vec \<Rightarrow> nat vec \<Rightarrow> nat vec \<Rightarrow> nat vec \<Rightarrow> nat \<Rightarrow> nat \<Rightarrow> nat" where
  "dir_end b e lo up i k = (if k = 0 then b ! i + lo ! i else if k = 1 then e ! i - up ! i else e ! i)"

definition halos_fit :: "nat vec \<Rightarrow> nat vec \<Rightarrow> nat vec \<Rightarrow> nat vec \<Rightarrow> bool" where
  "halos_fit b e lo up \<longleftrightarrow> (\<forall>i < length b. b ! i + lo ! i + up ! i \<le> e ! i \<and> e ! i < 2 ^ 32)"

lemma dir_intervals:
  assumes "halos_fit b e lo up" "i < length b"
  shows "concat (map (\<lambda>k. [dir_begin b e lo up i k..<dir_end b e lo up i k]) [0..<3]) = [b ! i..<e ! i]"
proof -
  have le: "b ! i \<le> b ! i + lo ! i" "b ! i + lo ! i \<le> e ! i - up ! i" "e ! i - up ! i \<le> e ! i"
    using assms by (auto simp: halos_fit_def)
  have "concat (map (\<lambda>k. [dir_begin b e lo up i k..<dir_end b e lo up i k]) [0..<3])
      = [b ! i..<b ! i + lo ! i] @ [b ! i + lo ! i..<e ! i - up ! i] @ [e ! i - up ! i..<e ! i]"
    by (simp add: eval_nat_numeral dir_begin_def dir_end_def)
  also have "\<dots> = [b ! i..<e ! i]"
    using le by (simp only: upt_append order_trans[of "b ! i" "b ! i + lo ! i"]
        order_trans[of "b ! i + lo ! i" "e ! i - up ! i"])
  finally show ?thesis .
qed

lemma directionBounds_fit:
  assumes "halos_fit b e lo up" "i < length b" "length v = length b"
  shows "directionBounds (\<lambda>x. x mod 2 ^ 32) (idxRange3 b e st) (boundaryDirection (map decode_boundary v) lo up) i
       = Some (dir_begin b e lo up i (v ! i), dir_end b e lo up i (v ! i))"
proof -
  have m: "x mod 2 ^ 32 = x" if "x \<le> e ! i" for x :: nat
    using assms(1,2) that by (intro mod_less) (rule le_less_trans[of x "e ! i"], auto simp: halos_fit_def)
  have "b ! i \<le> e ! i" "b ! i + lo ! i \<le> e ! i" "e ! i - up ! i \<le> e ! i"
    using assms(1,2) by (auto simp: halos_fit_def)
  note mod = this[THEN m] m[OF order_refl]
  have "i < length v" using assms by simp
  then show ?thesis
    by (simp only: directionBounds_decode idxRange3_def IdxRange.simps mod dir_begin_def dir_end_def)
      (simp split: if_splits)
qed

lemma subRange_points:
  assumes "halos_fit b e lo up" "b \<noteq> []" "length v = length b"
  shows "range_points (the (makeDirectionSubRange (\<lambda>x. x mod 2 ^ 32) id (idxRange3 b e (replicate (length b) 1))
            (boundaryDirection (map decode_boundary v) lo up))) (iotaCVec (length b))
       = product_lists (map2 (\<lambda>i k. [dir_begin b e lo up i k..<dir_end b e lo up i k]) [0..<length b] v)"
proof -
  let ?n = "length b" and ?bd = "boundaryDirection (map decode_boundary v) lo up"
  let ?b = "map (\<lambda>i. dir_begin b e lo up i (v ! i)) [0..<length b]"
  let ?e = "map (\<lambda>i. dir_end b e lo up i (v ! i)) [0..<length b]"
  have n: "length (bd_data ?bd) = ?n" using assms(3) by (simp add: boundaryDirection_def)
  have "directionBounds (\<lambda>x. x mod 2 ^ 32) (idxRange3 b e (replicate ?n 1)) ?bd i
      = Some (dir_begin b e lo up i (v ! i), dir_end b e lo up i (v ! i))" if "i < length (bd_data ?bd)" for i
    by (rule directionBounds_fit[OF assms(1) _ assms(3)]) (use that n in simp)
  from makeDirectionSubRange_bounds[OF this]
  have "makeDirectionSubRange (\<lambda>x. x mod 2 ^ 32) id (idxRange3 b e (replicate ?n 1)) ?bd
      = Some (idxRange3 ?b ?e (replicate ?n 1))"
    by (simp only: n vec_pCast_id idxRange3_def IdxRange.simps)
  moreover have "range_points (idxRange3 ?b ?e (replicate ?n 1)) (iotaCVec ?n) = box ?b ?e"
    by (rule range_points_box) (use assms(2) in simp_all)
  moreover have "map2 (\<lambda>b e. [b..<e]) ?b ?e
      = map2 (\<lambda>i k. [dir_begin b e lo up i k..<dir_end b e lo up i k]) [0..<?n] v"
    by (intro nth_equalityI) (simp_all only: length_map length_zip length_upt nth_map nth_zip nth_upt
        assms(3) prod.case min_less_iff_conj diff_zero add_0 min.idem)
  ultimately show ?thesis by (simp only: option.sel box_def)
qed

text \<open>
  Property C23. The sub-ranges of all boundary directions tile a range of stride one: every index lies in
  exactly one of them, if the two halos fit into the extent in every dimension and the range fits the 32-bit
  vectors in which the sub-ranges are stored. The stride of a range is passed on to its sub-ranges, whose
  begins are not adjusted to it, so the claim does not extend to other strides
  (\<open>subRanges_strided_example\<close> below).
\<close>

theorem boundary_subRanges_tile:
  assumes "b \<noteq> []" "length e = length b" "length lo = length b" "length up = length b" "halos_fit b e lo up"
  shows "mset (concat (map (\<lambda>d. range_points
             (the (makeDirectionSubRange (\<lambda>x. x mod 2 ^ 32) id (idxRange3 b e (replicate (length b) 1)) d))
             (iotaCVec (length b)))
           (boundary_directions (makeBoundaryDirIterator lo up))))
       = mset (range_points (idxRange3 b e (replicate (length b) 1)) (iotaCVec (length b)))"
    (is "mset (concat (map ?sub _)) = _")
proof -
  let ?n = "length b"
  let ?P = "\<lambda>i k. [dir_begin b e lo up i k..<dir_end b e lo up i k]"
  let ?items = "map (\<lambda>i. (3 :: nat, ?P i, [b ! i..<e ! i])) [0..<?n]"
  let ?p = "\<lambda>v. product_lists (map2 (\<lambda>(c, P, Q) k. P k) ?items v)"
  have fsts: "map fst ?items = replicate ?n 3" by (simp add: comp_def map_replicate_const)
  have sub: "?sub (boundaryDirection (map decode_boundary v) lo up) = ?p v" if "in_extents v (replicate ?n 3)" for v
  proof -
    have lv: "length v = ?n" using list_all2_lengthD[OF that] by simp
    have "map2 (\<lambda>(c, P, Q) k. P k) ?items v = map2 ?P [0..<?n] v"
      by (intro nth_equalityI) (simp_all only: length_map length_zip length_upt nth_map nth_zip nth_upt
        lv prod.case min_less_iff_conj diff_zero add_0 min.idem)
    then show ?thesis by (rule ssubst) (rule subRange_points[OF assms(5,1) lv])
  qed
  have "map ?sub (boundary_directions (makeBoundaryDirIterator lo up)) = map ?p (all_idx (map fst ?items))"
    unfolding fsts using sub
    by (simp add: boundary_directions_def makeBoundaryDirIterator_def assms(3) set_all_idx)
  then have "mset (concat (map ?sub (boundary_directions (makeBoundaryDirIterator lo up))))
      = mset (concat (map ?p (all_idx (map fst ?items))))" by (simp only:)
  also have "\<dots> = mset (product_lists (map (\<lambda>(c, P, Q). Q) ?items))"
  proof (rule product_partition)
    show "\<forall>(c, P, Q) \<in> set ?items. mset (concat (map P [0..<c])) = mset Q"
      using dir_intervals[OF assms(5)] by (simp only: set_map set_upt ball_simps prod.case) simp
  qed
  also have "map (\<lambda>(c, P, Q). Q) ?items = map2 (\<lambda>b e. [b..<e]) b e"
    using assms(2) by (intro nth_equalityI) simp_all
  also have "product_lists \<dots> = range_points (idxRange3 b e (replicate ?n 1)) (iotaCVec ?n)"
    unfolding box_def[symmetric] by (rule range_points_box[symmetric]) (use assms in simp_all)
  finally show ?thesis .
qed

theorem boundary_subRanges_tile_witness:
  "mset (concat (map (\<lambda>d. range_points
       (the (makeDirectionSubRange (\<lambda>x. x mod 2 ^ 32) id
          (idxRange3 [0, 0] [6, 5] (replicate (length [0, 0 :: nat]) 1)) d)) (iotaCVec (length [0, 0 :: nat])))
     (boundary_directions (makeBoundaryDirIterator [1, 1] [2, 1]))))
   = mset (range_points (idxRange3 [0, 0] [6, 5] (replicate (length [0, 0 :: nat]) 1)) (iotaCVec (length [0, 0 :: nat])))"
  by (rule boundary_subRanges_tile) (simp_all add: halos_fit_def All_less_Suc)

text \<open>
  With stride two and halos of one, the indices 0, 2 and 4 become 0 in the lower, 1 and 3 in the middle and 5 in the
  upper sub-range.
\<close>

lemma subRanges_strided_example:
  "concat (map (\<lambda>d. range_points (the (makeDirectionSubRange (\<lambda>x. x mod 2 ^ 32) id (idxRange3 [0] [6] [2]) d)) (iotaCVec 1))
     (boundary_directions (makeBoundaryDirIterator [1] [1]))) = [[0], [1], [3], [5 :: nat]]
   \<and> range_points (idxRange3 [0] [6] [2]) (iotaCVec 1) = [[0], [2], [4 :: nat]]"
proof -
  have sub:
    "makeDirectionSubRange (\<lambda>x. x mod 2 ^ 32) id (idxRange3 [0] [6] [2]) (boundaryDirection [lower] [1] [1])
      = Some (idxRange3 [0] [1] [2 :: nat])"
    "makeDirectionSubRange (\<lambda>x. x mod 2 ^ 32) id (idxRange3 [0] [6] [2]) (boundaryDirection [middle] [1] [1])
      = Some (idxRange3 [1] [5] [2 :: nat])"
    "makeDirectionSubRange (\<lambda>x. x mod 2 ^ 32) id (idxRange3 [0] [6] [2]) (boundaryDirection [upper] [1] [1])
      = Some (idxRange3 [5] [6] [2 :: nat])"
    by (simp_all add: makeDirectionSubRange_def directionBounds_def boundaryDirection_def idxRange3_def
        for_upto_def vec_fill_def vec_pCast_def vec_generate_def)
  have dirs: "boundary_directions (makeBoundaryDirIterator [1] [1 :: nat])
      = [boundaryDirection [lower] [1] [1], boundaryDirection [middle] [1] [1], boundaryDirection [upper] [1] [1]]"
    by (simp add: boundary_directions_def makeBoundaryDirIterator_def upt_rec)
  have points: "range_points (idxRange3 [0] [1] [2]) (iotaCVec 1) = [[0]]" "range_points (idxRange3 [1] [5] [2]) (iotaCVec 1) = [[1], [3]]"
    "range_points (idxRange3 [5] [6] [2]) (iotaCVec 1) = [[5]]" "range_points (idxRange3 [0] [6] [2]) (iotaCVec 1) = [[0], [2], [4]]"
    by code_simp+
  show ?thesis by (simp only: dirs list.map sub option.sel points concat.simps append.simps simp_thms)
qed

text \<open>
  The sub-range is stored in 32-bit vectors whatever the index type of the range: a 64-bit range
  that ends beyond \<open>2 ^ 32\<close> loses its upper bits.
\<close>

lemma makeDirectionSubRange_narrows_example:
  "makeDirectionSubRange ucast ucast (idxRange3 [0 :: u64] [0x100000008] [1]) (boundaryDirection [upper] [1] [1])
     = Some (idxRange3 [7 :: u32] [8] [1])"
  by code_simp

end
