(* ===== verification/SimdAlgo.thy ===== *)
theory SimdAlgo
  imports Boundary
begin

text \<open>
  The SIMD algorithms of a kernel (\<^verbatim>\<open>onAcc/SimdAlgo.hpp\<close>, \<^verbatim>\<open>onAcc/internal/SimdConcurrent.hpp\<close>):
  how wide the packs are and how many of them one functor call handles, and which packs and single
  elements every worker executes. The theorems bound the configuration by the byte budget and show
  that the packs and the remainder of all workers touch every element exactly once, although the
  iterators are advanced several times without being compared with the end.
\<close>

section \<open>Widths\<close>

text \<open>\<^verbatim>\<open>possibleSimdWidthBytes\<close> and the width \<^verbatim>\<open>std::simd\<close> reports depend on the compiler's target.\<close>

definition getCPUSimdWidth :: "nat \<Rightarrow> nat \<Rightarrow> nat \<Rightarrow> nat" where
  "getCPUSimdWidth stdSimdWidth possibleSimdWidthBytes sizeofType =
     (let simdWidthInByte = (if stdSimdWidth \<noteq> 0 then stdSimdWidth else possibleSimdWidthBytes)
      in divExZero simdWidthInByte sizeofType)"

definition getCPUNumPipelines :: nat where "getCPUNumPipelines = 4"

definition getArchSimdWidth :: "api \<Rightarrow> nat \<Rightarrow> nat \<Rightarrow> nat \<Rightarrow> nat" where
  "getArchSimdWidth ap stdSimdWidth possibleSimdWidthBytes sizeofType =
     (case ap of Host \<Rightarrow> getCPUSimdWidth stdSimdWidth possibleSimdWidthBytes sizeofType
      | Cuda \<Rightarrow> divExZero 16 sizeofType)"

definition getNumPipelines :: "api \<Rightarrow> nat" where
  "getNumPipelines ap = (case ap of Host \<Rightarrow> getCPUNumPipelines | Cuda \<Rightarrow> 2)"

definition getNumElemPerThread :: "api \<Rightarrow> nat \<Rightarrow> nat \<Rightarrow> nat \<Rightarrow> nat" where
  "getNumElemPerThread ap stdSimdWidth possibleSimdWidthBytes sizeofType =
     getArchSimdWidth ap stdSimdWidth possibleSimdWidthBytes sizeofType * getNumPipelines ap"

definition calcSimdWidth :: "nat \<Rightarrow> nat \<Rightarrow> nat \<Rightarrow> nat" where
  "calcSimdWidth maxConcurrencyInByte cacheLineInByte sizeofType =
     (let maxSimdBytes = min cacheLineInByte maxConcurrencyInByte
      in divExZero maxSimdBytes sizeofType)"

text \<open>\<^verbatim>\<open>std::bit_floor\<close>: the largest power of two that is not larger, 0 for 0.\<close>

fun bit_floor :: "nat \<Rightarrow> nat" where
  "bit_floor x = (if x \<le> 1 then x else 2 * bit_floor (x div 2))"

declare bit_floor.simps [simp del]

record simdPackConfig =
  simdWidth :: nat
  numSimdPacksPerFnCall :: nat

definition calcSimdPackConfig :: "nat \<Rightarrow> nat \<Rightarrow> nat \<Rightarrow> nat \<Rightarrow> simdPackConfig" where
  "calcSimdPackConfig maxArchSimdWidth cachelineBytes sizeofType maxConcurrencyInByte =
     (let maxWidthAllowed = maxConcurrencyInByte div sizeofType;
          clampedWidth = max (min maxArchSimdWidth maxWidthAllowed) 1;
          width = bit_floor clampedWidth;
          simdWidthInByte = width * sizeofType;
          numSimdPacksToUtilizeConcurrency = divExZero maxConcurrencyInByte simdWidthInByte;
          numSimdPacksPerCacheLine = divExZero cachelineBytes simdWidthInByte;
          packs = (if numSimdPacksToUtilizeConcurrency \<ge> numSimdPacksPerCacheLine
                   then let cachelineMultiple =
                            (numSimdPacksToUtilizeConcurrency div numSimdPacksPerCacheLine) * numSimdPacksPerCacheLine
                        in max cachelineMultiple 1
                   else numSimdPacksToUtilizeConcurrency)
      in \<lparr>simdWidth = width, numSimdPacksPerFnCall = packs\<rparr>)"

lemma bit_floor_spec: "0 < x \<Longrightarrow> \<exists>k. bit_floor x = 2 ^ k \<and> 2 ^ k \<le> x \<and> x < 2 * 2 ^ k"
proof (induction x rule: bit_floor.induct)
  case (1 x)
  show ?case
  proof (cases "x \<le> 1")
    case True
    with 1 show ?thesis by (intro exI[of _ 0]) (simp add: bit_floor.simps)
  next
    case False
    then have "0 < x div 2" by simp
    with 1 False obtain k where "bit_floor (x div 2) = 2 ^ k" "2 ^ k \<le> x div 2" "x div 2 < 2 * 2 ^ k" by auto
    with False show ?thesis by (intro exI[of _ "Suc k"]) (auto simp: bit_floor.simps[of x])
  qed
qed

text \<open>
  Property C29. The SIMD configuration: the width is a power of two within the hardware's width, at least
  one pack is executed per call, and all packs of a call together respect the byte budget, unless
  a single value is larger than the budget. The cache line is filled by a whole number of calls'
  packs whenever the budget allows it.
\<close>

theorem calcSimdPackConfig_budget:
  assumes "0 < sz"
  shows "let c = calcSimdPackConfig arch cacheline sz budget in
       (\<exists>k. simdWidth c = 2 ^ k) \<and> simdWidth c \<le> max arch 1 \<and> 1 \<le> numSimdPacksPerFnCall c
       \<and> simdWidth c * numSimdPacksPerFnCall c * sz \<le> max budget sz
       \<and> (divExZero cacheline (simdWidth c * sz) \<le> divExZero budget (simdWidth c * sz)
            \<longrightarrow> divExZero cacheline (simdWidth c * sz) dvd numSimdPacksPerFnCall c)"
proof -
  let ?c = "calcSimdPackConfig arch cacheline sz budget"
  let ?cl = "max (min arch (budget div sz)) 1"
  have "0 < ?cl" by simp
  from bit_floor_spec[OF this] obtain k where k: "bit_floor ?cl = 2 ^ k" "2 ^ k \<le> ?cl" by blast
  let ?b = "(2 :: nat) ^ k * sz"
  let ?u = "divExZero budget ?b" and ?l = "divExZero cacheline ?b"
  have l1: "1 \<le> ?u" "1 \<le> ?l" by (rule divExZero_nat_ge1)+
  then have m1: "1 \<le> ?u div ?l * ?l" if "?l \<le> ?u" using that by (simp add: Suc_le_eq div_greater_zero_iff)
  have w: "simdWidth ?c = 2 ^ k" by (simp only: calcSimdPackConfig_def Let_def k(1) simdPackConfig.simps)
  have p: "numSimdPacksPerFnCall ?c = (if ?l \<le> ?u then ?u div ?l * ?l else ?u)"
    unfolding calcSimdPackConfig_def Let_def k(1) simdPackConfig.simps using m1 max_absorb1 by (simp del: One_nat_def)
  have u: "2 ^ k * ?u * sz \<le> max budget sz"
  proof (cases "?b \<le> budget")
    case True
    have "?b * (budget div ?b) \<le> budget" by simp
    moreover have "1 \<le> budget div ?b" using True assms by (simp add: Suc_le_eq div_greater_zero_iff)
    then have "?u = budget div ?b" by (simp add: divExZero_def)
    ultimately show ?thesis by (simp add: mult.assoc mult.commute mult.left_commute le_max_iff_disj)
  next
    case False
    then have "?u = 1" by (simp add: divExZero_def)
    moreover have "k = 0"
    proof (rule ccontr)
      assume "k \<noteq> 0"
      then have "(1 :: nat) < 2 ^ k" by (simp only: one_less_power)
      with k(2) have "2 ^ k \<le> budget div sz" by linarith
      then have "?b \<le> budget div sz * sz" by simp
      also have "\<dots> \<le> budget" by simp
      finally show False using False by simp
    qed
    ultimately show ?thesis by simp
  qed
  have "?u div ?l * ?l \<le> ?u" by simp
  then have "2 ^ k * (?u div ?l * ?l) * sz \<le> 2 ^ k * ?u * sz"
    by (intro mult_le_mono) simp_all
  then have "2 ^ k * (?u div ?l * ?l) * sz \<le> max budget sz" using u by (rule order_trans)
  moreover have "2 ^ k \<le> max arch 1" using k(2) by (auto simp: max_def min_def split: if_splits)
  ultimately show ?thesis unfolding Let_def w p using u l1 m1 by auto
qed

theorem calcSimdPackConfig_budget_witness:
  "1 \<le> numSimdPacksPerFnCall (calcSimdPackConfig 8 64 4 128) \<and> calcSimdPackConfig 8 64 4 128 = \<lparr>simdWidth = 8, numSimdPacksPerFnCall = 4\<rparr>"
proof -
  have c: "calcSimdPackConfig 8 64 4 128 = \<lparr>simdWidth = 8, numSimdPacksPerFnCall = 4\<rparr>" by code_simp
  from calcSimdPackConfig_budget[of 4 8 64 128] show ?thesis unfolding c Let_def by simp
qed

section \<open>Concurrent execution\<close>

text \<open>
  \<^verbatim>\<open>execute\<close> in the loop \<^verbatim>\<open>for(iter = c.begin(); iter != c.end();)\<close>: every turn takes \<open>k\<close> indices from the
  iterator and calls the functor once for each of them. C++ leaves the order open in which the
  indices of one turn are taken; the model takes them left to right.
\<close>

definition traverse_batched :: "nat \<Rightarrow> traverse \<Rightarrow> 'a::{semiring_modulo,linorder} idxContainer \<Rightarrow> 'a vec list option" where
  "traverse_batched k tr c =
     (case tr of
        Flat \<Rightarrow> batch_for k (flat_at_end (flat_end c)) flat_inc (flat_deref (ic_select c)) (flat_begin c)
      | Tiled \<Rightarrow> batch_for k (tiled_at_end (ic_select c) (tiled_end c)) (tiled_inc (ic_select c)) tiled_deref (tiled_begin c))"

text \<open>A functor call: the index the \<^verbatim>\<open>SimdPtr\<close>s point to and their width.\<close>

type_synonym simd_call = "nat vec \<times> nat"

definition flat_rows :: "nat \<Rightarrow> nat \<Rightarrow> layoutPolicy \<Rightarrow> nat acc \<Rightarrow> nat vec \<Rightarrow> nat vec \<Rightarrow> nat vec \<Rightarrow> nat vec
    \<Rightarrow> nat vec list option" where
  "flat_rows W K pol acc threadIdx threadCount domainSize stride =
     (let n = length domainSize;
          wIdx = vec_rAssign threadIdx 0; wSize = vec_rAssign threadCount 1;
          domSize = vec_rAssign domainSize 1;
          wOuter = WG_vectors wIdx wSize True;
          wIdxInner = vec_rAssign (vec_fill n 0) (vec_back threadIdx);
          wSizeInner = vec_rAssign (vec_fill n 1) (vec_back threadCount);
          wInner = WG_vectors wIdxInner wSizeInner True
      in Option.bind (makeIdxMap acc wOuter (Range_given (idxRange1 domSize)) pol) (\<lambda>outer.
         Option.bind (traverse_indices Flat outer) (\<lambda>rows.
           fold (\<lambda>rowIdx calls. Option.bind calls (\<lambda>cs.
             Option.bind (makeIdxMap acc wInner (Range_given (idxRange3 rowIdx domainSize stride)) pol) (\<lambda>inner.
               map_option ((@) cs) (traverse_batched K Flat (flat_select inner [n - 1])))))
             rows (Some []))))"

definition concurrentSimdPackExecution :: "nat \<Rightarrow> nat \<Rightarrow> traverse \<Rightarrow> layoutPolicy \<Rightarrow> nat acc \<Rightarrow> nat WorkerGroup
    \<Rightarrow> nat vec \<Rightarrow> simd_call list option" where
  "concurrentSimdPackExecution W K tr pol acc workGroup numElements =
     Option.bind (workerGroup_getThreadIdx workGroup acc) (\<lambda>threadIdx.
     Option.bind (workerGroup_getThreadCount workGroup acc) (\<lambda>threadCount.
      (let n = length numElements;
           wSize = vec_back threadCount;
           numElementsPerFnCall = W * K;
           numSimdPackLoops = vec_back numElements div numElementsPerFnCall div wSize;
           remainderBegin = numSimdPackLoops * numElementsPerFnCall * wSize;
           domainSize = vec_rAssign numElements remainderBegin;
           stride = vec_rAssign (vec_fill n 1) W
       in Option.bind
            (if n > 1 \<and> tr = Flat then flat_rows W K pol acc threadIdx threadCount domainSize stride
             else Option.bind (makeIdxMap acc workGroup
                 (Range_given (idxRange3 (vec_fill n 0) domainSize stride)) pol) (traverse_batched K tr))
            (\<lambda>packs.
          Option.bind (Option.bind (makeIdxMap acc workGroup
              (Range_given (idxRange2 (vec_rAssign (vec_fill n 0) remainderBegin) numElements)) pol) (traverse_indices tr))
            (\<lambda>remainder. Some (map (\<lambda>idx. (idx, W)) packs @ map (\<lambda>idx. (idx, 1)) remainder))))))"

definition concurrent :: "simdPackConfig \<Rightarrow> traverse \<Rightarrow> layoutPolicy \<Rightarrow> nat acc \<Rightarrow> nat WorkerGroup \<Rightarrow> nat vec
    \<Rightarrow> simd_call list option" where
  "concurrent cfg tr pol acc workGroup numElements =
     (if simdWidth cfg \<noteq> 1
      then concurrentSimdPackExecution (simdWidth cfg) (numSimdPacksPerFnCall cfg) tr pol acc workGroup numElements
      else map_option (map (\<lambda>idx. (idx, 1)))
             (Option.bind (makeIdxMap acc workGroup (Range_given (idxRange1 numElements)) pol) (traverse_indices tr)))"

text \<open>The elements a call reads and writes: \<open>width\<close> neighbours in the fast moving dimension.\<close>

definition call_elements :: "simd_call \<Rightarrow> nat vec list" where
  "call_elements call = map (\<lambda>j. vec_rAssign (fst call) (vec_back (fst call) + j)) [0..<snd call]"

section \<open>Batched loops visit what unbatched ones visit\<close>

lemma traverse_batched_indices:
  "traverse_indices tr c = Some xs \<Longrightarrow> k dvd length xs \<Longrightarrow> 0 < k \<Longrightarrow> traverse_batched k tr c = Some xs"
  by (cases tr) (simp_all add: traverse_indices_def traverse_batched_def flat_indices_def tiled_indices_def
      batch_for_range_for)

definition resolve_layout :: "'a acc \<Rightarrow> layoutPolicy \<Rightarrow> idxLayout" where
  "resolve_layout acc pol = (case pol of Optimized \<Rightarrow> adjustMapping acc | Layout l \<Rightarrow> l)"

lemma makeIdxMap_given:
  assumes "workerGroup_getThreadSpace wg acc = Some ts" "length (range_distance r) = n"
  shows "makeIdxMap acc wg (Range_given r) pol = Some (idxContainer r ts (resolve_layout acc pol) (iotaCVec n))"
  using assms by (simp add: makeIdxMap_def makeIter_def domainSpec_getIdxRange_def domainSpec_getThreadSpace_def
      resolve_layout_def Let_def split: layoutPolicy.splits)

text \<open>A share of \<open>q * C\<close> strides among \<open>C\<close> workers is \<open>q\<close> for each of them, with either layout.\<close>

lemma length_progression_exact: "k < C \<Longrightarrow> length (progression (q * C) C k) = q"
proof (cases q)
  case (Suc p)
  assume k: "k < C"
  then have "q * C - k + C - 1 = (C - 1 - k) + q * C" using Suc by simp
  moreover have "((C - 1 - k) + q * C) div C = q" using k by (simp only: div_mult_self1) simp
  ultimately show ?thesis by (simp only: progression_def divCeil_def length_map length_upt diff_zero)
qed (simp add: progression_def divCeil_def)

lemma chunk_exact: "0 < C \<Longrightarrow> chunk_start (q * C) C (Suc k) - chunk_start (q * C) C k = q"
  by (simp add: chunk_start_def)

lemma length_tile_values:
  assumes "k < C" "divCeil (ir_end r ! s - ir_begin r ! s) (ir_stride r ! s) = q * C"
  shows "length (tile_values l r C s k) = q"
  using assms by (cases l) (simp_all add: tile_values_def Let_def length_progression_exact chunk_exact)

lemma dvd_foldr_mult: "(q :: nat) dvd foldr (\<lambda>x. (*) (f x)) xs q"
  by (induction xs) simp_all

lemma traverse_share:
  assumes wf: "wf_range r (iotaCVec (length N)) N" and t: "in_extents t N"
    and q: "range_extent r (iotaCVec (length N)) ! (length N - 1) = q * last N"
    and tr: "tr = Flat \<Longrightarrow> length N = 1"
  shows "q dvd length (the (traverse_indices tr (idxContainer r (threadSpace t N) l (iotaCVec (length N)))))"
proof (cases tr)
  case Tiled
  let ?n = "length N" and ?sel = "iotaCVec (length N)"
  from wf have N: "N \<noteq> []" and e: "length (ir_end r) = ?n" by (auto simp: wf_range_def iotaCVec_def)
  have lt: "length t = ?n" using t by (rule list_all2_lengthD)
  have full: "threadSpace_mapTo ?sel (threadSpace u N) = threadSpace u N" if "length u = ?n" for u
    using that by (simp add: threadSpace_mapTo_full iotaCVec_def)
  let ?tv = "\<lambda>s. tile_values l r (N ! s) s (t ! s)"
  have "divCeil (ir_end r ! (?n - 1) - ir_begin r ! (?n - 1)) (ir_stride r ! (?n - 1)) = q * N ! (?n - 1)"
    using q N range_extent_nth[of "?n - 1" ?sel r] e by (simp add: iotaCVec_def last_conv_nth atLeast0LessThan)
  then have "length (?tv (?n - 1)) = q"
    using t N by (intro length_tile_values) (auto simp: in_extents_nth)
  moreover have "[0..<?n] = [0..<?n - 1] @ [?n - 1]" using N by (cases N rule: rev_cases) simp_all
  ultimately have "q dvd length (product_lists (map ?tv [0..<?n]))"
    by (simp only: length_product_lists map_append list.map) (simp add: foldr_map comp_def dvd_foldr_mult)
  then show ?thesis
    using tiled_indices_values[OF wf t, of l] full[OF lt] full[of N]
    by (simp add: Tiled traverse_indices_def) (simp add: iotaCVec_def)
next
  case Flat
  with tr obtain c where N: "N = [c]" by (auto simp: length_Suc_conv)
  from t N obtain k where k: "t = [k]" "k < c" by (auto simp: list_all2_Cons2)
  have s1: "iotaCVec (length N) = [0]" by (simp add: N iotaCVec_def)
  have E: "range_extent r [0] = [q * c]"
    using q range_extent_length[of r "[0]"] by (cases "range_extent r [0]") (simp_all add: N iotaCVec_def)
  have m: "mapped_count [0] N = N" "mapped_idx [0] N t = t"
    by (simp_all add: mapped_count_def mapped_idx_def threadSpace_mapTo_full N k vec_swizzle_def)
  show ?thesis
    using flat_indices_strided[OF wf[unfolded s1], of t] flat_indices_contiguous[OF wf[unfolded s1] t] k
    unfolding s1 m E by (cases l)
      (simp_all add: Flat traverse_indices_def Let_def N length_progression_exact chunk_exact)
qed

section \<open>Packs and remainder partition the elements\<close>

lemma product_lists_snoc:
  "product_lists (xss @ [ys]) = concat (map (\<lambda>x. map (\<lambda>y. x @ [y]) ys) (product_lists xss))"
proof (induction xss)
  case Nil
  show ?case by (induction ys) simp_all
next
  case (Cons xs xss)
  then show ?case by (simp add: map_concat concat_concat_map comp_def)
qed

lemma all_idx_snoc: "all_idx (P @ [L]) = concat (map (\<lambda>x. map (\<lambda>y. x @ [y]) [0..<L]) (all_idx P))"
  by (simp add: all_idx_product product_lists_snoc)

definition fast_range :: "nat vec \<Rightarrow> nat \<Rightarrow> nat \<Rightarrow> nat \<Rightarrow> nat IdxRange" where
  "fast_range P lo hi W = idxRange3 (replicate (length P) 0 @ [lo]) (P @ [hi]) (replicate (length P) 1 @ [W])"

lemma range_points_fast:
  assumes "0 < W"
  shows "range_points (fast_range P lo hi W) (iotaCVec (Suc (length P)))
       = concat (map (\<lambda>x. map (\<lambda>j. x @ [lo + j * W]) [0..<divCeil (hi - lo) W]) (all_idx P))"
proof -
  let ?b = "replicate (length P) 0 @ [lo]" and ?e = "P @ [hi]" and ?s = "replicate (length P) 1 @ [W]"
  have d1: "divCeil p 1 = p" for p :: nat by (simp add: divCeil_def)
  have "map (\<lambda>s. map (\<lambda>j. ?b ! s + j * ?s ! s) [0..<divCeil (?e ! s - ?b ! s) (?s ! s)]) [0..<length P]
      = map (\<lambda>e. [0..<e]) P"
    by (intro nth_equalityI) (simp_all add: nth_append d1 del: One_nat_def)
  then have "map (\<lambda>s. map (\<lambda>j. ?b ! s + j * ?s ! s) [0..<divCeil (?e ! s - ?b ! s) (?s ! s)]) [0..<Suc (length P)]
      = map (\<lambda>e. [0..<e]) P @ [map (\<lambda>j. lo + j * W) [0..<divCeil (hi - lo) W]]"
    by (simp only: upt_Suc_append[OF le0] map_append) (simp add: nth_append)
  moreover have "range_points (fast_range P lo hi W) (iotaCVec (Suc (length P)))
      = product_lists (map (\<lambda>s. map (\<lambda>j. ?b ! s + j * ?s ! s) [0..<divCeil (?e ! s - ?b ! s) (?s ! s)]) [0..<Suc (length P)])"
    unfolding fast_range_def by (rule range_points_iota) (use assms in auto)
  ultimately show ?thesis by (simp add: product_lists_snoc all_idx_product comp_def)
qed

lemma call_elements_snoc: "call_elements (x @ [y], w) = map (\<lambda>j. x @ [y + j]) [0..<w]"
  by (simp add: call_elements_def vec_rAssign_def vec_rAssignAt_def vec_back_def)

text \<open>The elements of all packs and of the remainder, when the packs fill \<open>q * W\<close> columns.\<close>

lemma pack_elements:
  assumes "0 < W"
  shows "concat (map call_elements (map (\<lambda>idx. (idx, W)) (range_points (fast_range P 0 (q * W) W) (iotaCVec (Suc (length P))))))
       = concat (map (\<lambda>x. map (\<lambda>y. x @ [y]) [0..<q * W]) (all_idx P))"
proof -
  have "divCeil (q * W) W = q" using assms by (simp add: divCeil_def) (metis Suc_pred add_diff_cancel_left' assms
      diff_Suc_1 div_less div_mult_self3 add.commute lessI less_irrefl_nat add.right_neutral add_Suc_right)
  then show ?thesis
    using concat_map_upt_mult[of "\<lambda>y. x @ [y]" W q for x]
    by (simp add: range_points_fast[OF assms] map_concat comp_def call_elements_snoc concat_concat_map)
qed

lemma remainder_elements:
  "concat (map call_elements (map (\<lambda>idx. (idx, 1)) (range_points (fast_range P lo hi 1) (iotaCVec (Suc (length P))))))
     = concat (map (\<lambda>x. map (\<lambda>y. x @ [y]) [lo..<hi]) (all_idx P))"
proof -
  have "map (\<lambda>j. f (lo + j)) [0..<hi - lo] = map f [lo..<hi]" for f :: "nat \<Rightarrow> nat vec"
    by (rule nth_equalityI) simp_all
  from this[of "\<lambda>y. x @ [y]" for x] show ?thesis
    by (simp add: range_points_fast map_concat comp_def call_elements_snoc concat_concat_map divCeil_def)
qed

lemma mset_concat_map_append:
  "mset (concat (map f xs)) + mset (concat (map g xs)) = mset (concat (map (\<lambda>x. f x @ g x) xs))"
  by (induction xs) simp_all

lemma simd_partition:
  assumes "0 < W" "q * W \<le> L"
  shows "mset (concat (map call_elements (map (\<lambda>idx. (idx, W)) (range_points (fast_range P 0 (q * W) W) (iotaCVec (Suc (length P)))))))
       + mset (concat (map call_elements (map (\<lambda>idx. (idx, 1)) (range_points (fast_range P (q * W) L 1) (iotaCVec (Suc (length P)))))))
       = mset (all_idx (P @ [L]))"
proof -
  have "map (\<lambda>y. x @ [y]) [0..<q * W] @ map (\<lambda>y. x @ [y]) [q * W..<L] = map (\<lambda>y. x @ [y]) [0..<L]" for x :: "nat vec"
    using upt_append[of 0 "q * W" L] assms(2) by (simp flip: map_append)
  then show ?thesis
    unfolding pack_elements[OF assms(1)] remainder_elements mset_concat_map_append all_idx_snoc by (simp only:)
qed

section \<open>Rows of the flat traversal\<close>

text \<open>The linear positions out of \<open>E\<close> that worker \<open>a\<close> of \<open>C\<close> takes along one dimension.\<close>

definition line_share :: "idxLayout \<Rightarrow> nat \<Rightarrow> nat \<Rightarrow> nat \<Rightarrow> nat list" where
  "line_share l E C a = (case l of Strided \<Rightarrow> progression E C a
     | Contiguous \<Rightarrow> [chunk_start E C a..<chunk_start E C (Suc a)])"

lemma line_share_partition: "0 < C \<Longrightarrow> mset (concat (map (line_share l E C) [0..<C])) = mset [0..<E]"
  by (cases l) (simp_all add: line_share_def[abs_def] strided_partition contiguous_partition del: mset_upt)

lemma length_line_share: "a < C \<Longrightarrow> length (line_share l (q * C) C a) = q"
  by (cases l) (simp_all add: line_share_def length_progression_exact chunk_exact)

lemma mapTo_unit:
  "threadSpace_mapTo [m] (threadSpace (replicate m 0 @ [a]) (replicate m 1 @ [C :: nat]))
     = threadSpace (replicate m 0 @ [a]) (replicate m 1 @ [C])"
proof -
  let ?t = "replicate m 0 @ [a]" and ?N = "replicate m 1 @ [C]"
  let ?ns = "cvec_filter (iotaCVec (Suc m)) [m]"
  have ns: "?ns ! i < m" if "i < length ?ns" for i
    using cvec_filter_iota_set[of "Suc m" "[m]"] nth_mem[OF that] by auto
  have "for_upto 0 (length ?ns) (\<lambda>x. mapTo_foldIdx m ?N (?ns ! x)) ?t = ?t"
    using ns by (intro for_upto_invariant[where P = "\<lambda>_ s. s = ?t"])
      (auto simp: mapTo_foldIdx_def Let_def nth_append list_update_append list_update_same_conv)
  moreover have "for_upto 0 (length ?ns) (\<lambda>x. mapTo_foldCount m (?ns ! x)) ?N = ?N"
    using ns by (intro for_upto_invariant[where P = "\<lambda>_ s. s = ?N"])
      (auto simp: mapTo_foldCount_def Let_def nth_append list_update_append list_update_same_conv)
  ultimately show ?thesis by (simp add: threadSpace_mapTo_def Let_def)
qed

lemma row_indices:
  assumes "length x = m" "length P = m" "a < C"
  shows "flat_indices (idxContainer (idxRange3 (x @ [0]) (P @ [hi]) (replicate m 1 @ [W]))
            (threadSpace (replicate m 0 @ [a]) (replicate m 1 @ [C])) l [m])
       = Some (map (\<lambda>j. x @ [j * W]) (line_share l (divCeil hi W) C a))"
proof -
  let ?r = "idxRange3 (x @ [0]) (P @ [hi]) (replicate m 1 @ [W])"
  let ?c = "idxContainer ?r (threadSpace (replicate m 0 @ [a]) (replicate m 1 @ [C])) l [m]"
  let ?E = "divCeil hi W"
  let ?g = "vec_mul (replicate m 0 @ [a]) (replicate m 1 @ [W])"
  have off: "vec_add (x @ [0]) (vec_refUpdate (-) ?g [m] (vec_swizzle ?g [m])) = x @ [0]"
  proof -
    have g: "?g = replicate m 0 @ [a * W]" by (rule nth_equalityI) (auto simp: nth_append)
    then have "vec_refUpdate (-) ?g [m] (vec_swizzle ?g [m]) = replicate m 0 @ [0]"
      by (simp add: vec_refUpdate_def vec_swizzle_def vec_generate_def for_upto_def nth_append list_update_append)
    then show ?thesis using assms(1) by (intro nth_equalityI) (auto simp: nth_append)
  qed
  have sw: "vec_swizzle (replicate m 0 @ [a]) [m] = [a]" "vec_swizzle (replicate m 1 @ [C]) [m] = [C]"
    "vec_swizzle (replicate m 1 @ [W]) [m] = [W]" "vec_swizzle (range_distance ?r) [m] = [hi]"
    using assms by (simp_all add: vec_swizzle_def vec_generate_def nth_append range_distance_def idxRange3_def)
  have one: "vec_product [y] = y" "linearize [y] [z] = z" "vec_divCeil [y] [z] = [divCeil y z]" for y z :: nat
    by (simp_all add: vec_product_def linearize_lin vec_divCeil_def vec_op_def vec_fill_replicate divCeil_def)
  have d: "flat_deref [m] (flatIter (x @ [0]) j s e [?E] [W]) = x @ [j * W]" for j s e
    using assms(1) by (simp add: flat_deref_def flatIter_def mapToND_unlin vec_refUpdate_def for_upto_def
        vec_op_def nth_append list_update_append)
  have C: "0 < C" using assms(3) by simp
  have b: "flat_begin ?c = (case l of
       Strided \<Rightarrow> flatIter (x @ [0]) a C ?E [?E] [W]
     | Contiguous \<Rightarrow> flatIter (x @ [0]) (chunk_start ?E C a) 1 (min (chunk_start ?E C (Suc a)) ?E) [?E] [W])"
    and e: "flat_end ?c = (case l of Strided \<Rightarrow> ?E | Contiguous \<Rightarrow> chunk_start ?E C (Suc a))"
    using chunk_start_le[OF C, of "Suc a" ?E] assms(3) off sw
    by (simp_all add: flat_begin_def flat_end_def mapTo_unit[simplified] Let_def one chunk_start_def idxRange3_def min_absorb1
        split: idxLayout.splits)
  have "0 < fi_stride (flat_begin ?c)" unfolding b by (cases l) (simp_all add: flatIter_def C)
  then have "flat_indices ?c = Some (flat_remaining (flat_end ?c) [m] (flat_begin ?c))"
    unfolding flat_indices_def idxContainer_sel by (rule flat_iter.range_for_remaining)
  also have "\<dots> = Some (map (\<lambda>j. x @ [j * W]) (line_share l ?E C a))"
    unfolding b e using d
    by (cases l) (simp_all add: flat_remaining_def line_share_def progression_1[simplified] flatIter_def)
  finally show ?thesis .
qed

lemma vec_rAssign_snoc: "vec_rAssign (x @ [y]) v = x @ [v]"
  by (simp add: vec_rAssign_def vec_rAssignAt_def)

lemma vec_rAssign_fill: "vec_rAssign (vec_fill (Suc m) y) v = replicate m y @ [v]"
  unfolding vec_fill_replicate replicate_Suc replicate_append_same[symmetric] by (rule vec_rAssign_snoc)

definition outer_rows :: "idxLayout \<Rightarrow> nat vec \<Rightarrow> nat vec \<Rightarrow> nat vec \<Rightarrow> nat vec list" where
  "outer_rows l P U u = the (traverse_indices Flat (idxContainer (fast_range P 0 1 1)
     (threadSpace (u @ [0]) (U @ [1])) l (iotaCVec (Suc (length P)))))"

lemma wf_fast_range:
  assumes "length N = Suc (length P)" "\<forall>c \<in> set N. 0 < c" "0 < W"
  shows "wf_range (fast_range P lo hi W) (iotaCVec (Suc (length P))) N"
proof -
  have "wf_range (fast_range P lo hi W) (iotaCVec (length N)) N"
    by (rule wf_iota) (use assms in \<open>auto simp: fast_range_def idxRange3_def\<close>)
  then show ?thesis using assms(1) by simp
qed

lemma outer_rows_mset:
  assumes "length U = length P" "\<forall>c \<in> set U. 0 < c"
  shows "mset (concat (map (outer_rows l P U) (all_idx U))) = mset (map (\<lambda>x. x @ [0]) (all_idx P))"
proof -
  have wf: "wf_range (fast_range P 0 1 1) (iotaCVec (length (U @ [1]))) (U @ [1])"
    using wf_fast_range[of "U @ [1]" P 1 0 1] assms by (simp only: length_append length_Cons list.size(3)) auto
  have one: "all_idx (U @ [1]) = map (\<lambda>u. u @ [0]) (all_idx U)"
    by (simp add: all_idx_snoc)
  have "range_points (fast_range P 0 1 1) (iotaCVec (Suc (length P))) = map (\<lambda>x. x @ [0]) (all_idx P)"
    using range_points_fast[of 1 P 0 1] by (simp add: divCeil_def)
  then show ?thesis
    using traverse_indices_mset[OF wf, of Flat l] assms(1) unfolding one
    by (simp add: outer_rows_def[abs_def] comp_def)
qed

lemma outer_rows_shape:
  assumes "length U = length P" "\<forall>c \<in> set U. 0 < c" "in_extents u U" "row \<in> set (outer_rows l P U u)"
  shows "row = butlast row @ [0] \<and> length (butlast row) = length P"
proof -
  have "row \<in> set (concat (map (outer_rows l P U) (all_idx U)))"
    using assms(3,4) by (auto simp: set_all_idx)
  then have "row \<in> set (map (\<lambda>x. x @ [0]) (all_idx P))"
    using arg_cong[OF outer_rows_mset[OF assms(1,2)], of set_mset] by (simp only: set_mset_mset)
  then show ?thesis by (auto simp: set_all_idx dest: list_all2_lengthD)
qed

lemma fold_calls:
  "(\<And>r. r \<in> set rows \<Longrightarrow> f r = Some (g r)) \<Longrightarrow>
     fold (\<lambda>r calls. Option.bind calls (\<lambda>cs. map_option ((@) cs) (f r))) rows (Some cs)
       = Some (cs @ concat (map g rows))"
  by (induction rows arbitrary: cs) simp_all

lemma flat_rows_calls:
  assumes "length U = length P" "\<forall>c \<in> set U. 0 < c" "in_extents u U" "a < C" "0 < K" "K dvd q" "divCeil rb W = q * C"
  shows "flat_rows W K pol acc (u @ [a]) (U @ [C]) (P @ [rb]) (replicate (length P) 1 @ [W])
       = Some (concat (map (\<lambda>row. map (\<lambda>j. butlast row @ [j * W]) (line_share (resolve_layout acc pol) (q * C) C a))
                (outer_rows (resolve_layout acc pol) P U u)))"
proof -
  let ?m = "length P" and ?l = "resolve_layout acc pol"
  have lu: "length u = ?m" using list_all2_lengthD[OF assms(3)] assms(1) by simp
  have r1: "idxRange1 (P @ [1 :: nat]) = fast_range P 0 1 1"
    by (simp add: idxRange1_def fast_range_def idxRange3_def vec_fill_replicate replicate_append_same)
  have d: "length (range_distance (fast_range P 0 1 1)) = Suc ?m"
    by (simp add: fast_range_def range_distance_def idxRange3_def)
  have outer: "makeIdxMap acc (WG_vectors (u @ [0]) (U @ [1]) True) (Range_given (fast_range P 0 1 1)) pol
      = Some (idxContainer (fast_range P 0 1 1) (threadSpace (u @ [0]) (U @ [1])) ?l (iotaCVec (Suc ?m)))"
    by (rule makeIdxMap_given[OF _ d]) simp
  have wf: "wf_range (fast_range P 0 1 1) (iotaCVec (length (U @ [1]))) (U @ [1])"
    using wf_fast_range[of "U @ [1]" P 1 0 1] assms(1,2) by (simp only: length_append length_Cons list.size(3)) auto
  have "in_extents (u @ [0]) (U @ [1])" using assms(3) by (simp add: list_all2_appendI)
  from traverse_indices_terminates[OF wf this, of Flat ?l]
  have rows: "traverse_indices Flat (idxContainer (fast_range P 0 1 1) (threadSpace (u @ [0]) (U @ [1])) ?l
      (iotaCVec (Suc ?m))) = Some (outer_rows ?l P U u)"
    using assms(1) by (auto simp: outer_rows_def)
  let ?inner = "\<lambda>row. Option.bind (makeIdxMap acc (WG_vectors (replicate ?m 0 @ [a]) (replicate ?m 1 @ [C]) True)
      (Range_given (idxRange3 row (P @ [rb]) (replicate ?m 1 @ [W]))) pol)
      (\<lambda>inner. traverse_batched K Flat (flat_select inner [?m]))"
  have inner: "?inner row = Some (map (\<lambda>j. butlast row @ [j * W]) (line_share ?l (q * C) C a))"
    if row: "row \<in> set (outer_rows ?l P U u)" for row
  proof -
    from outer_rows_shape[OF assms(1-3) row] obtain x where x: "row = x @ [0]" "length x = ?m" by metis
    have "length (range_distance (idxRange3 row (P @ [rb]) (replicate ?m 1 @ [W]))) = Suc ?m"
      by (simp add: range_distance_def idxRange3_def)
    then have mk: "makeIdxMap acc (WG_vectors (replicate ?m 0 @ [a]) (replicate ?m 1 @ [C]) True)
        (Range_given (idxRange3 row (P @ [rb]) (replicate ?m 1 @ [W]))) pol
      = Some (idxContainer (idxRange3 row (P @ [rb]) (replicate ?m 1 @ [W]))
          (threadSpace (replicate ?m 0 @ [a]) (replicate ?m 1 @ [C])) ?l (iotaCVec (Suc ?m)))"
      by (rule makeIdxMap_given[rotated]) simp
    have "traverse_batched K Flat (idxContainer (idxRange3 row (P @ [rb]) (replicate ?m 1 @ [W]))
          (threadSpace (replicate ?m 0 @ [a]) (replicate ?m 1 @ [C])) ?l [?m])
        = Some (map (\<lambda>j. x @ [j * W]) (line_share ?l (q * C) C a))"
      by (rule traverse_batched_indices)
        (use row_indices[OF x(2) refl assms(4)] length_line_share[OF assms(4)] assms(5-7) x in
          \<open>simp_all add: traverse_indices_def\<close>)
    then show ?thesis by (simp only: mk bind.bind_lunit flat_select_def idxContainer_sel) (simp add: x)
  qed
  have mb: "Option.bind x (\<lambda>y. map_option h (g y)) = map_option h (Option.bind x g)"
    for x :: "nat idxContainer option" and g and h :: "nat vec list \<Rightarrow> nat vec list" by (cases x) simp_all
  have comps: "vec_rAssign (u @ [a]) 0 = u @ [0]" "vec_rAssign (U @ [C]) 1 = U @ [1]"
    "vec_rAssign (P @ [rb]) 1 = P @ [1]" "length (P @ [rb]) - 1 = ?m" "vec_back (u @ [a]) = a" "vec_back (U @ [C]) = C"
    "vec_rAssign (vec_fill (length (P @ [rb])) 0) a = replicate ?m 0 @ [a]"
    "vec_rAssign (vec_fill (length (P @ [rb])) 1) C = replicate ?m 1 @ [C]"
    by (simp_all add: vec_rAssign_snoc vec_rAssign_fill vec_back_def)
  show ?thesis
    unfolding flat_rows_def Let_def comps r1 outer bind.bind_lunit rows mb
    by (subst fold_calls[of "outer_rows ?l P U u" ?inner, OF inner]) simp_all
qed

section \<open>All workers together\<close>

text \<open>What worker \<open>t\<close> of a thread space \<open>N\<close> executes as packs and as single elements.\<close>

definition pack_columns :: "nat \<Rightarrow> nat \<Rightarrow> nat \<Rightarrow> nat \<Rightarrow> nat" where
  "pack_columns W K L C = L div (W * K) div C * K * C"

definition worker_packs :: "idxLayout \<Rightarrow> traverse \<Rightarrow> nat \<Rightarrow> nat \<Rightarrow> nat vec \<Rightarrow> nat \<Rightarrow> nat vec \<Rightarrow> nat vec \<Rightarrow> nat vec list" where
  "worker_packs l tr W K P L N t =
     (let E = pack_columns W K L (last N) in
      if P \<noteq> [] \<and> tr = Flat
      then concat (map (\<lambda>row. map (\<lambda>j. butlast row @ [j * W]) (line_share l E (last N) (last t)))
             (outer_rows l P (butlast N) (butlast t)))
      else the (traverse_indices tr (idxContainer (fast_range P 0 (E * W) W) (threadSpace t N) l (iotaCVec (Suc (length P))))))"

definition worker_rest :: "idxLayout \<Rightarrow> traverse \<Rightarrow> nat \<Rightarrow> nat \<Rightarrow> nat vec \<Rightarrow> nat \<Rightarrow> nat vec \<Rightarrow> nat vec \<Rightarrow> nat vec list" where
  "worker_rest l tr W K P L N t =
     the (traverse_indices tr (idxContainer (fast_range P (pack_columns W K L (last N) * W) L 1)
       (threadSpace t N) l (iotaCVec (Suc (length P)))))"

lemma pack_columns_le: "pack_columns W K L C * W \<le> L"
proof -
  have "L div (W * K) div C * C * (W * K) \<le> L div (W * K) * (W * K)" by simp
  also have "\<dots> \<le> L" by simp
  finally show ?thesis by (simp add: pack_columns_def ac_simps)
qed

lemma divCeil_mult: "0 < W \<Longrightarrow> divCeil (q * W) W = (q :: nat)"
proof -
  assume "0 < W"
  then have "q * W + W - 1 = (W - 1) + q * W" "(W - 1) div W = 0" by simp_all
  then show ?thesis using \<open>0 < W\<close> by (simp only: divCeil_def div_mult_self1)
qed

lemma row_packs_mset:
  assumes "length U = length P" "\<forall>c \<in> set U. 0 < c" "0 < C" "0 < W"
  shows "mset (concat (map (\<lambda>t. concat (map (\<lambda>row. map (\<lambda>j. butlast row @ [j * W]) (line_share l E C (last t)))
             (outer_rows l P U (butlast t)))) (all_idx (U @ [C]))))
       = mset (range_points (fast_range P 0 (E * W) W) (iotaCVec (Suc (length P))))"
proof -
  let ?M = "\<lambda>row. map (\<lambda>j. butlast row @ [j * W])"
  let ?R = "outer_rows l P U"
  have "mset (concat (map (\<lambda>a. concat (map (\<lambda>r. ?M r (line_share l E C a)) (?R u))) [0..<C]))
      = mset (concat (map (\<lambda>r. ?M r [0..<E]) (?R u)))" for u
  proof -
    have "mset (concat (map (\<lambda>a. concat (map (\<lambda>r. ?M r (line_share l E C a)) (?R u))) [0..<C]))
        = mset (concat (map (\<lambda>r. concat (map (\<lambda>a. ?M r (line_share l E C a)) [0..<C])) (?R u)))"
      by (rule mset_concat_swap)
    also have "\<dots> = mset (concat (map (\<lambda>r. ?M r (concat (map (line_share l E C) [0..<C]))) (?R u)))"
      by (simp only: map_concat map_map comp_def)
    also have "\<dots> = mset (concat (map (\<lambda>r. ?M r [0..<E]) (?R u)))"
      by (rule mset_concat_map_cong) (simp only: mset_map line_share_partition[OF assms(3)])
    finally show ?thesis .
  qed
  then have "mset (concat (map (\<lambda>u. concat (map (\<lambda>a. concat (map (\<lambda>r. ?M r (line_share l E C a)) (?R u))) [0..<C])) (all_idx U)))
      = mset (concat (map (\<lambda>u. concat (map (\<lambda>r. ?M r [0..<E]) (?R u))) (all_idx U)))"
    by (intro mset_concat_map_cong)
  also have "\<dots> = mset (concat (map (\<lambda>r. ?M r [0..<E]) (concat (map ?R (all_idx U)))))"
    by (simp only: map_concat concat_concat_map map_map comp_def)
  also have "\<dots> = mset (concat (map (\<lambda>r. ?M r [0..<E]) (map (\<lambda>x. x @ [0]) (all_idx P))))"
    by (rule mset_concat_map_mset) (rule outer_rows_mset[OF assms(1,2)])
  also have "\<dots> = mset (range_points (fast_range P 0 (E * W) W) (iotaCVec (Suc (length P))))"
    by (simp add: range_points_fast[OF assms(4)] divCeil_mult[OF assms(4)] comp_def)
  finally show ?thesis by (simp add: all_idx_snoc map_concat concat_concat_map comp_def)
qed

lemma worker_packs_mset:
  assumes "length N = Suc (length P)" "\<forall>c \<in> set N. 0 < c" "0 < W"
  shows "mset (concat (map (worker_packs l tr W K P L N) (all_idx N)))
       = mset (range_points (fast_range P 0 (pack_columns W K L (last N) * W) W) (iotaCVec (Suc (length P))))"
proof (cases "P \<noteq> [] \<and> tr = Flat")
  case True
  obtain U C where N: "N = U @ [C]" using assms(1) by (cases N rule: rev_cases) auto
  show ?thesis
    using row_packs_mset[of U P C W l "pack_columns W K L C"] assms True
    by (simp add: worker_packs_def[abs_def] Let_def N)
next
  case False
  have "worker_packs l tr W K P L N
      = (\<lambda>t. the (traverse_indices tr (idxContainer (fast_range P 0 (pack_columns W K L (last N) * W) W)
          (threadSpace t N) l (iotaCVec (length N)))))"
    by (rule ext) (simp only: worker_packs_def Let_def if_not_P[OF False] assms(1))
  then show ?thesis
    using traverse_indices_mset[OF wf_fast_range[OF assms, unfolded assms(1)[symmetric]]] assms(1) by (simp only:)
qed

lemma worker_rest_mset:
  assumes "length N = Suc (length P)" "\<forall>c \<in> set N. 0 < c"
  shows "mset (concat (map (worker_rest l tr W K P L N) (all_idx N)))
       = mset (range_points (fast_range P (pack_columns W K L (last N) * W) L 1) (iotaCVec (Suc (length P))))"
  using traverse_indices_mset[OF wf_fast_range[OF assms zero_less_one, unfolded assms(1)[symmetric]]] assms(1)
  by (simp add: worker_rest_def[abs_def])

lemma traverse_batched_fast:
  assumes "length N = Suc (length P)" "\<forall>c \<in> set N. 0 < c" "0 < W" "in_extents t N"
    and "0 < K" "K dvd q" "tr = Flat \<Longrightarrow> P = []"
  shows "traverse_batched K tr (idxContainer (fast_range P 0 (q * last N * W) W) (threadSpace t N) l (iotaCVec (Suc (length P))))
       = Some (the (traverse_indices tr (idxContainer (fast_range P 0 (q * last N * W) W) (threadSpace t N) l (iotaCVec (Suc (length P))))))"
proof -
  let ?r = "fast_range P 0 (q * last N * W) W"
  have wf: "wf_range ?r (iotaCVec (length N)) N" using wf_fast_range[OF assms(1-3)] assms(1) by simp
  have "range_extent ?r (iotaCVec (length N)) ! (length N - 1) = q * last N"
    using range_extent_nth[of "length P" "iotaCVec (length N)" ?r] assms(1) divCeil_mult[OF assms(3)]
    by (simp add: iotaCVec_def fast_range_def idxRange3_def nth_append atLeast0LessThan)
  then have "q dvd length (the (traverse_indices tr (idxContainer ?r (threadSpace t N) l (iotaCVec (length N)))))"
    by (intro traverse_share[OF wf assms(4)]) (use assms(1,7) in simp_all)
  then have "K dvd length (the (traverse_indices tr (idxContainer ?r (threadSpace t N) l (iotaCVec (length N)))))"
    using assms(6) by (rule dvd_trans[rotated])
  then show ?thesis
    using traverse_indices_terminates[OF wf assms(4), of tr l] traverse_batched_indices[OF _ _ assms(5)] assms(1)
    by auto
qed

lemma concurrentSimdPackExecution_worker:
  assumes ts: "workerGroup_getThreadSpace wg acc = Some (threadSpace t N)"
    and N: "length N = Suc (length P)" "\<forall>c \<in> set N. 0 < c" and "0 < W" "in_extents t N" "0 < K"
  shows "concurrentSimdPackExecution W K tr pol acc wg (P @ [L])
       = Some (map (\<lambda>idx. (idx, W)) (worker_packs (resolve_layout acc pol) tr W K P L N t)
           @ map (\<lambda>idx. (idx, 1)) (worker_rest (resolve_layout acc pol) tr W K P L N t))"
proof -
  let ?m = "length P" and ?l = "resolve_layout acc pol"
  let ?q = "L div (W * K) div last N * K" and ?E = "pack_columns W K L (last N)"
  obtain U C u a where ua: "N = U @ [C]" "t = u @ [a]" and "length U = ?m"
    using N(1) list_all2_lengthD[OF assms(5)] by (cases N rule: rev_cases; cases t rule: rev_cases) auto
  have in': "in_extents u U" "a < C"
    using assms(5) list_all2_lengthD[OF assms(5)] by (simp_all add: ua list_all2_append)
  have E: "?E = ?q * last N" by (simp add: pack_columns_def)
  have rb: "L div (W * K) div last N * (W * K) * last N = ?E * W" by (simp add: pack_columns_def ac_simps)
  have rng: "idxRange3 (vec_fill (length (P @ [L])) 0) (vec_rAssign (P @ [L]) hi) (vec_rAssign (vec_fill (length (P @ [L])) 1) W)
      = fast_range P 0 hi W" for hi
    by (simp add: fast_range_def vec_rAssign_snoc vec_rAssign_fill)
      (simp add: vec_fill_replicate replicate_append_same)
  have rest: "idxRange2 (vec_rAssign (vec_fill (length (P @ [L])) 0) lo) (P @ [L]) = fast_range P lo L 1" for lo
    by (simp add: idxRange2_def fast_range_def idxRange3_def vec_rAssign_fill)
      (simp add: vec_fill_replicate replicate_append_same)
  have len: "length (range_distance (fast_range P lo hi s)) = Suc ?m" for lo hi s
    by (simp add: fast_range_def range_distance_def idxRange3_def)
  note mk = makeIdxMap_given[OF ts len, where pol = pol]
  have wrest: "traverse_indices tr (idxContainer (fast_range P (?E * W) L 1) (threadSpace t N) ?l (iotaCVec (Suc ?m)))
      = Some (worker_rest ?l tr W K P L N t)"
    using traverse_indices_terminates[OF wf_fast_range[OF N zero_less_one, unfolded N(1)[symmetric]] assms(5), of tr "?E * W" L ?l]
    by (auto simp: worker_rest_def N(1))
  have wpacks: "(if 1 < length (P @ [L]) \<and> tr = Flat
        then flat_rows W K pol acc t N (vec_rAssign (P @ [L]) (?E * W)) (vec_rAssign (vec_fill (length (P @ [L])) 1) W)
        else traverse_batched K tr (idxContainer (fast_range P 0 (?E * W) W) (threadSpace t N) ?l (iotaCVec (Suc ?m))))
      = Some (worker_packs ?l tr W K P L N t)"
  proof (cases "P \<noteq> [] \<and> tr = Flat")
    case True
    have "flat_rows W K pol acc (u @ [a]) (U @ [C]) (P @ [?E * W]) (replicate ?m 1 @ [W])
        = Some (concat (map (\<lambda>row. map (\<lambda>j. butlast row @ [j * W]) (line_share ?l (?q * C) C a)) (outer_rows ?l P U u)))"
      by (rule flat_rows_calls) (use in' N assms(6) \<open>length U = ?m\<close> ua divCeil_mult[OF assms(4)] E in simp_all)
    then show ?thesis
      using True E by (simp add: ua worker_packs_def vec_rAssign_snoc vec_rAssign_fill[simplified] Let_def)
  next
    case False
    then show ?thesis
      using traverse_batched_fast[OF N assms(4,5,6), of ?q tr ?l] E
      by (simp only: worker_packs_def Let_def if_not_P[OF False]) auto
  qed
  have vback: "vec_back N = last N" "vec_back (P @ [L]) = L" by (simp_all add: ua vec_back_def)
  show ?thesis
    unfolding concurrentSimdPackExecution_def workerGroup_getThreadIdx_def workerGroup_getThreadCount_def ts
      option.map threadSpace_sel bind.bind_lunit Let_def vback rb rng rest mk wrest wpacks
    by (rule refl)
qed

lemma concurrent_worker:
  assumes "workerGroup_getThreadSpace wg acc = Some (threadSpace t N)"
    and "length N = length ne" "ne \<noteq> []" "\<forall>c \<in> set N. 0 < c" "in_extents t N"
    and "0 < simdWidth cfg" "0 < numSimdPacksPerFnCall cfg"
  shows "concurrent cfg tr pol acc wg ne = Some (let l = resolve_layout acc pol; W = simdWidth cfg;
       K = numSimdPacksPerFnCall cfg; P = butlast ne; L = last ne in
       if W \<noteq> 1 then map (\<lambda>idx. (idx, W)) (worker_packs l tr W K P L N t) @ map (\<lambda>idx. (idx, 1)) (worker_rest l tr W K P L N t)
       else map (\<lambda>idx. (idx, 1)) (the (traverse_indices tr (idxContainer (fast_range P 0 L 1) (threadSpace t N) l
              (iotaCVec (length ne))))))"
proof -
  have ne: "butlast ne @ [last ne] = ne" "length N = Suc (length (butlast ne))" using assms(2,3) by simp_all
  have r: "idxRange1 ne = fast_range (butlast ne) 0 (last ne) 1"
  proof -
    have "Suc (length ne - 1) = length ne" using assms(3) by simp
    then show ?thesis
      using ne(1) by (simp add: idxRange1_def fast_range_def idxRange3_def vec_fill_replicate replicate_append_same
        flip: replicate_Suc)
  qed
  have len: "length (range_distance (fast_range (butlast ne) 0 (last ne) 1)) = length ne"
    using assms(3) by (simp add: fast_range_def range_distance_def idxRange3_def)
  have "wf_range (fast_range (butlast ne) 0 (last ne) 1) (iotaCVec (length N)) N"
    using wf_fast_range[OF ne(2) assms(4), of 1 0 "last ne"] ne(2) by simp
  from traverse_indices_terminates[OF this assms(5), of tr "resolve_layout acc pol"]
  obtain xs where xs: "traverse_indices tr (idxContainer (fast_range (butlast ne) 0 (last ne) 1) (threadSpace t N)
      (resolve_layout acc pol) (iotaCVec (length ne))) = Some xs" using assms(2) by auto
  show ?thesis
    using concurrentSimdPackExecution_worker[OF assms(1) ne(2) assms(4,6,5,7), of tr pol "last ne"]
    unfolding concurrent_def r makeIdxMap_given[OF assms(1) len] ne(1) bind.bind_lunit xs Let_def
    by (simp only: option.map option.sel if_distrib[of Some] simp_thms)
qed

lemma grid_transport:
  assumes "length B = length T"
    and "\<And>b t. in_extents b B \<Longrightarrow> in_extents t T \<Longrightarrow> f b t = h (map (\<lambda>i. T ! i * b ! i + t ! i) [0..<length T])"
  shows "mset (concat (map (\<lambda>(b, t). f b t) (List.product (all_idx B) (all_idx T))))
       = mset (concat (map h (all_idx (vec_mul B (T :: nat vec)))))"
proof -
  define g where "g = (\<lambda>(b, t). the (workerGroup_getThreadIdx worker_threadsInGrid (launch_acc Host Cpu 0 B T b t)))"
  have g: "g (b, t) = map (\<lambda>i. T ! i * b ! i + t ! i) [0..<length T]" if "in_extents b B" "in_extents t T" for b t
    using that[THEN list_all2_lengthD] assms(1)
    by (simp add: g_def workerGroup_getThreadIdx_def worker_threadsInGrid_nth launch_acc_def)
  have A: "map (\<lambda>(b, t). f b t) (List.product (all_idx B) (all_idx T)) = map h (map g (List.product (all_idx B) (all_idx T)))"
    unfolding map_map comp_def
  proof (rule map_cong[OF refl])
    fix p assume "p \<in> set (List.product (all_idx B) (all_idx T))"
    then obtain b t where p: "p = (b, t)" "in_extents b B" "in_extents t T" by (auto simp: set_all_idx)
    show "(case p of (b, t) \<Rightarrow> f b t) = h (g p)"
      by (simp only: p(1) prod.case assms(2)[OF p(2,3)] g[OF p(2,3)])
  qed
  have M: "mset (map g (List.product (all_idx B) (all_idx T))) = mset (all_idx (vec_mul B T))"
    using grid_indices_mset[OF assms(1), of "launch_acc Host Cpu 0 B T [] []"] by (simp add: g_def launch_acc_def)
  show ?thesis unfolding A by (rule mset_concat_map_mset[OF M])
qed

lemma grid_worker:
  assumes "in_extents b B" "in_extents t (T :: nat vec)" "length B = length T"
  shows "workerGroup_getThreadSpace worker_threadsInGrid (launch_acc ap dk w B T b t)
      = Some (threadSpace (map (\<lambda>i. T ! i * b ! i + t ! i) [0..<length T]) (vec_mul B T))"
    and "in_extents (map (\<lambda>i. T ! i * b ! i + t ! i) [0..<length T]) (vec_mul B T)"
proof -
  note l = assms(1,2)[THEN list_all2_lengthD]
  show "workerGroup_getThreadSpace worker_threadsInGrid (launch_acc ap dk w B T b t)
      = Some (threadSpace (map (\<lambda>i. T ! i * b ! i + t ! i) [0..<length T]) (vec_mul B T))"
    using l assms(3) by (subst worker_threadsInGrid_nth[of _ "length T"]) (simp_all add: launch_acc_def)
  show "in_extents (map (\<lambda>i. T ! i * b ! i + t ! i) [0..<length T]) (vec_mul B T)"
    using assms by (auto simp: in_extents_nth vec_op_def intro!: grid_index_less)
qed

text \<open>What one worker executes, and what all workers of a thread space execute together.\<close>

definition worker_calls :: "simdPackConfig \<Rightarrow> traverse \<Rightarrow> idxLayout \<Rightarrow> nat vec \<Rightarrow> nat vec \<Rightarrow> nat vec \<Rightarrow> simd_call list" where
  "worker_calls cfg tr l ne N t = (let W = simdWidth cfg; K = numSimdPacksPerFnCall cfg; P = butlast ne; L = last ne in
     if W \<noteq> 1 then map (\<lambda>idx. (idx, W)) (worker_packs l tr W K P L N t) @ map (\<lambda>idx. (idx, 1)) (worker_rest l tr W K P L N t)
     else map (\<lambda>idx. (idx, 1)) (the (traverse_indices tr (idxContainer (fast_range P 0 L 1) (threadSpace t N) l
              (iotaCVec (length ne))))))"

lemma concurrent_worker_calls:
  assumes "workerGroup_getThreadSpace wg acc = Some (threadSpace t N)"
    and "length N = length ne" "ne \<noteq> []" "\<forall>c \<in> set N. 0 < c" "in_extents t N"
    and "0 < simdWidth cfg" "0 < numSimdPacksPerFnCall cfg"
  shows "concurrent cfg tr pol acc wg ne = Some (worker_calls cfg tr (resolve_layout acc pol) ne N t)"
  unfolding worker_calls_def Let_def by (rule concurrent_worker[OF assms, unfolded Let_def])

lemma worker_calls_complete:
  assumes ne: "ne \<noteq> []" "length N = length ne" and N: "\<forall>c \<in> set N. 0 < c" and pos: "0 < simdWidth cfg"
  shows "mset (concat (map (\<lambda>t. concat (map call_elements (worker_calls cfg tr l ne N t))) (all_idx N))) = mset (all_idx ne)"
proof -
  let ?P = "butlast ne" and ?L = "last ne" and ?W = "simdWidth cfg" and ?K = "numSimdPacksPerFnCall cfg"
  have len: "length N = Suc (length ?P)" using ne by auto
  let ?h = "\<lambda>t. concat (map call_elements (worker_calls cfg tr l ne N t))"
  have "mset (concat (map ?h (all_idx N))) = mset (all_idx (?P @ [?L]))"
  proof (cases "?W = 1")
    case True
    have wf: "wf_range (fast_range ?P 0 ?L 1) (iotaCVec (length N)) N"
      using wf_fast_range[OF len N, of 1 0 ?L] len by simp
    have "mset (concat (map ?h (all_idx N)))
        = mset (concat (map call_elements (map (\<lambda>idx. (idx, 1)) (concat (map (\<lambda>u. the (traverse_indices tr
            (idxContainer (fast_range ?P 0 ?L 1) (threadSpace u N) l (iotaCVec (length N))))) (all_idx N))))))"
      using True ne(2) by (simp add: worker_calls_def map_concat concat_concat_map comp_def)
    also have "\<dots> = mset (concat (map call_elements (map (\<lambda>idx. (idx, 1)) (range_points (fast_range ?P 0 ?L 1) (iotaCVec (length N))))))"
      by (simp only: map_map) (rule mset_concat_map_mset[OF traverse_indices_mset[OF wf]])
    also have "\<dots> = mset (all_idx (?P @ [?L]))"
      unfolding len remainder_elements all_idx_snoc by (rule refl)
    finally show ?thesis .
  next
    case False
    let ?pk = "worker_packs l tr ?W ?K ?P ?L N" and ?rs = "worker_rest l tr ?W ?K ?P ?L N"
    have "mset (concat (map ?h (all_idx N)))
        = mset (concat (map call_elements (map (\<lambda>idx. (idx, ?W)) (concat (map ?pk (all_idx N))))))
        + mset (concat (map call_elements (map (\<lambda>idx. (idx, 1)) (concat (map ?rs (all_idx N))))))"
      using False by (simp add: worker_calls_def Let_def map_concat concat_concat_map comp_def flip: mset_concat_map_append)
    also have "mset (concat (map call_elements (map (\<lambda>idx. (idx, ?W)) (concat (map ?pk (all_idx N))))))
        = mset (concat (map call_elements (map (\<lambda>idx. (idx, ?W))
            (range_points (fast_range ?P 0 (pack_columns ?W ?K ?L (last N) * ?W) ?W) (iotaCVec (Suc (length ?P)))))))"
      by (simp only: map_map) (rule mset_concat_map_mset[OF worker_packs_mset[OF len N pos]])
    also have "mset (concat (map call_elements (map (\<lambda>idx. (idx, 1)) (concat (map ?rs (all_idx N))))))
        = mset (concat (map call_elements (map (\<lambda>idx. (idx, 1))
            (range_points (fast_range ?P (pack_columns ?W ?K ?L (last N) * ?W) ?L 1) (iotaCVec (Suc (length ?P)))))))"
      by (simp only: map_map) (rule mset_concat_map_mset[OF worker_rest_mset[OF len N]])
    finally show ?thesis by (simp only: simd_partition[OF pos pack_columns_le])
  qed
  then show ?thesis using ne(1) by simp
qed

lemma concurrent_complete:
  assumes dims: "length B = length T" "length ne = length T" "T \<noteq> []"
    and pos: "\<forall>c \<in> set B. 0 < c" "\<forall>c \<in> set T. 0 < (c :: nat)" "0 < simdWidth cfg" "0 < numSimdPacksPerFnCall cfg"
  shows "(\<forall>b t. in_extents b B \<longrightarrow> in_extents t T \<longrightarrow>
            concurrent cfg tr pol (launch_acc ap dk w B T b t) worker_threadsInGrid ne \<noteq> None)
       \<and> mset (concat (map (\<lambda>(b, t). concat (map call_elements
             (the (concurrent cfg tr pol (launch_acc ap dk w B T b t) worker_threadsInGrid ne))))
           (List.product (all_idx B) (all_idx T))))
         = mset (all_idx ne)"
    (is "?ends \<and> ?covers")
proof
  let ?N = "vec_mul B T"
  let ?l = "case pol of Optimized \<Rightarrow> autoIndexMapping ap dk | Layout l \<Rightarrow> l"
  have ne: "ne \<noteq> []" "length ?N = length ne" using dims by auto
  have N: "\<forall>c \<in> set ?N. 0 < c" using pos dims by (auto simp: in_set_conv_nth vec_op_def)
  have l: "resolve_layout (launch_acc ap dk w B T b t) pol = ?l" for b t
    by (simp add: resolve_layout_def adjustMapping_def launch_acc_def split: layoutPolicy.splits)
  note cw = concurrent_worker_calls[OF grid_worker(1) ne(2,1) N grid_worker(2) pos(3,4), unfolded l]
  then show ?ends using dims(1) by simp
  have "mset (concat (map (\<lambda>(b, t). concat (map call_elements
             (the (concurrent cfg tr pol (launch_acc ap dk w B T b t) worker_threadsInGrid ne))))
           (List.product (all_idx B) (all_idx T))))
      = mset (concat (map (\<lambda>u. concat (map call_elements (worker_calls cfg tr ?l ne ?N u))) (all_idx ?N)))"
  proof (rule grid_transport[OF dims(1)])
    fix b t assume bt: "in_extents b B" "in_extents t T"
    show "concat (map call_elements (the (concurrent cfg tr pol (launch_acc ap dk w B T b t) worker_threadsInGrid ne)))
        = concat (map call_elements (worker_calls cfg tr ?l ne ?N (map (\<lambda>i. T ! i * b ! i + t ! i) [0..<length T])))"
      unfolding cw[OF bt dims(1) bt dims(1)] option.sel l by (rule refl)
  qed
  then show ?covers using worker_calls_complete[OF ne N pos(3), of tr ?l] by simp
qed

text \<open>
  Along one dimension every call gets a pack that starts at a multiple of the width, or a single
  element.
\<close>

lemma concurrent_call_shape:
  assumes pos: "0 < nb" "0 < nt" "0 < simdWidth cfg" "0 < numSimdPacksPerFnCall cfg" and bt: "in_extents b [nb]" "in_extents t [nt]"
    and call: "c \<in> set (the (concurrent cfg tr pol (launch_acc ap dk w [nb] [nt] b t) worker_threadsInGrid [L]))"
  shows "(\<exists>k. c = ([k * simdWidth cfg], simdWidth cfg)) \<or> (\<exists>k. c = ([k], 1))"
proof -
  let ?N = "vec_mul [nb] [nt]" and ?W = "simdWidth cfg" and ?K = "numSimdPacksPerFnCall cfg"
  let ?u = "map (\<lambda>i. [nt] ! i * b ! i + t ! i) [0..<length [nt]]"
  let ?l = "resolve_layout (launch_acc ap dk w [nb] [nt] b t) pol"
  have N: "length ?N = Suc (length ([] :: nat vec))" "\<forall>c \<in> set ?N. 0 < c" "[L] \<noteq> []" "length ?N = length [L]"
    using pos by (auto simp: in_set_conv_nth vec_op_def)
  have l1: "length [nb] = length [nt]" by simp
  note u = grid_worker(1)[OF bt l1, of ap dk w] grid_worker(2)[OF bt l1]
  have sub: "set (g ?u) \<subseteq> set ys" if "mset (concat (map g (all_idx ?N))) = mset ys" for g :: "nat vec \<Rightarrow> nat vec list" and ys
    using mset_eq_setD[OF that] u(2) by (auto simp: set_all_idx)
  have pts: "set (range_points (fast_range [] lo hi w') (iotaCVec (Suc (length ([] :: nat vec))))) \<subseteq> range (\<lambda>j. [lo + j * w'])" if "0 < w'" for lo hi w'
    using range_points_fast[OF that, of "[]"] by auto
  have P: "set (worker_packs ?l tr ?W ?K [] L ?N ?u) \<subseteq> range (\<lambda>j. [0 + j * ?W])"
    using sub[OF worker_packs_mset[OF N(1,2) pos(3)]] pts[OF pos(3)] by (rule subset_trans)
  have R: "set (worker_rest ?l tr ?W ?K [] L ?N ?u) \<subseteq> range (\<lambda>j. [pack_columns ?W ?K L (last ?N) * ?W + j * 1])"
    using sub[OF worker_rest_mset[OF N(1,2)]] pts[OF zero_less_one] by (rule subset_trans)
  have "wf_range (fast_range [] 0 L 1) (iotaCVec (length ?N)) ?N" using wf_fast_range[OF N(1,2) zero_less_one] N(1) by simp
  from sub[OF traverse_indices_mset[OF this]] pts[OF zero_less_one]
  have T: "set (the (traverse_indices tr (idxContainer (fast_range [] 0 L 1) (threadSpace ?u ?N) ?l (iotaCVec (length ?N)))))
      \<subseteq> range (\<lambda>j. [0 + j * 1])" unfolding N(1) by (rule subset_trans)
  have c: "c \<in> set (if ?W \<noteq> 1 then map (\<lambda>idx. (idx, ?W)) (worker_packs ?l tr ?W ?K [] L ?N ?u)
          @ map (\<lambda>idx. (idx, 1)) (worker_rest ?l tr ?W ?K [] L ?N ?u)
       else map (\<lambda>idx. (idx, 1)) (the (traverse_indices tr (idxContainer (fast_range [] 0 L 1) (threadSpace ?u ?N) ?l
              (iotaCVec (length ?N))))))"
    using call concurrent_worker[OF u(1) N(4,3,2) u(2) pos(3,4), of tr pol]
    by (simp only: option.sel Let_def N(4) last.simps butlast.simps simp_thms if_True)
  then show ?thesis using P R T by (auto split: if_splits)
qed

text \<open>
  Property C6. \<^verbatim>\<open>SimdAlgo::concurrent\<close> over a grid of threads: every thread's execution ends, and the packs
  and single elements of all threads together touch every element of the extents exactly once,
  for every dimension, traversal, layout and SIMD configuration. In particular the loops that
  advance an iterator several times per comparison never leave their range.
\<close>

theorem concurrent_covers:
  assumes dims: "length B = length T" "length ne = length T" "T \<noteq> []"
    and pos: "\<forall>c \<in> set B. 0 < c" "\<forall>c \<in> set T. 0 < (c :: nat)" "0 < simdWidth cfg" "0 < numSimdPacksPerFnCall cfg"
  shows "(\<forall>b t. in_extents b B \<longrightarrow> in_extents t T \<longrightarrow>
            concurrent cfg tr pol (launch_acc ap dk w B T b t) worker_threadsInGrid ne \<noteq> None)
       \<and> mset (concat (map (\<lambda>(b, t). concat (map call_elements
             (the (concurrent cfg tr pol (launch_acc ap dk w B T b t) worker_threadsInGrid ne))))
           (List.product (all_idx B) (all_idx T))))
         = mset (all_idx ne)"
  using assms by (rule concurrent_complete)

theorem concurrent_covers_witness:
  "mset (concat (map (\<lambda>(b, t). concat (map call_elements
       (the (concurrent \<lparr>simdWidth = 4, numSimdPacksPerFnCall = 2\<rparr> Flat Optimized (launch_acc Host Cpu 1 [2, 2] [1, 2] b t)
              worker_threadsInGrid [3, 37]))))
     (List.product (all_idx [2, 2]) (all_idx [1, 2]))))
   = mset (all_idx [3, 37])"
  by (rule concurrent_covers[THEN conjunct2]) simp_all

end
