(* ===== verification/Launch.thy ===== *)
theory Launch
  imports SimdAlgo
begin

text \<open>
  How a problem size becomes a launch configuration: frame and thread specifications
  (\<^verbatim>\<open>onHost/FrameSpec.hpp\<close>, \<^verbatim>\<open>onHost/ThreadSpec.hpp\<close>), the frame heuristics of
  \<^verbatim>\<open>onHost/internal/interface.hpp\<close>, the adjustments of the host devices (\<^verbatim>\<open>api/host/Device.hpp\<close>) and
  the limits of \<^verbatim>\<open>api/util.hpp\<close>. The theorems say that the loops end and what their results promise.
\<close>

section \<open>Specifications\<close>

datatype executor = AnyExecutor | CpuSerial | CpuOmpBlocks | CpuTbbBlocks | GpuCuda | GpuHip | OneApi

record FrameSpec =
  fs_numFrames :: "nat vec"
  fs_frameExtents :: "nat vec"
  fs_executor :: executor

record ThreadSpec =
  ths_numBlocks :: "nat vec"
  ths_numThreads :: "nat vec"
  ths_executor :: executor

definition frameSpec :: "nat vec \<Rightarrow> nat vec \<Rightarrow> executor \<Rightarrow> FrameSpec" where
  "frameSpec numFrames frameExtent executor =
     \<lparr>fs_numFrames = numFrames, fs_frameExtents = frameExtent, fs_executor = executor\<rparr>"

definition threadSpec :: "nat vec \<Rightarrow> nat vec \<Rightarrow> executor \<Rightarrow> ThreadSpec" where
  "threadSpec numBlocks numThreadsPerBlock executor =
     \<lparr>ths_numBlocks = numBlocks, ths_numThreads = numThreadsPerBlock, ths_executor = executor\<rparr>"

definition frameSpec_toString :: "(nat vec \<Rightarrow> string) \<Rightarrow> FrameSpec \<Rightarrow> string" where
  "frameSpec_toString vecStr d =
     ''FrameSpec{ frames='' @ vecStr (fs_numFrames d) @ '', frameExtent='' @ vecStr (fs_frameExtents d) @ '' }''"

definition threadSpec_toString :: "(nat vec \<Rightarrow> string) \<Rightarrow> ThreadSpec \<Rightarrow> string" where
  "threadSpec_toString vecStr t =
     ''ThreadSpec{ blocks='' @ vecStr (ths_numBlocks t) @ '', threads='' @ vecStr (ths_numThreads t) @ '' }''"

text \<open>
  \<^verbatim>\<open>AdjustThreadSpec\<close>: serial execution gets one block with one thread, the executors whose blocks are
  sequential (\<^verbatim>\<open>exec::isSeqExecutor_v\<close>) one thread per block and a block per frame, a device without a
  rule of its own the frames as they are. CUDA devices shrink the threads below.
\<close>

definition adjustThreadSpec_serial :: "FrameSpec \<Rightarrow> ThreadSpec" where
  "adjustThreadSpec_serial fs =
     (let allOne = vec_fill (length (fs_frameExtents fs)) 1 in threadSpec allOne allOne (fs_executor fs))"

definition adjustThreadSpec_seq :: "FrameSpec \<Rightarrow> ThreadSpec" where
  "adjustThreadSpec_seq fs =
     threadSpec (fs_numFrames fs) (vec_fill (length (fs_frameExtents fs)) 1) (fs_executor fs)"

definition adjustThreadSpec_default :: "FrameSpec \<Rightarrow> ThreadSpec" where
  "adjustThreadSpec_default fs = threadSpec (fs_numFrames fs) (fs_frameExtents fs) (fs_executor fs)"


section \<open>Limits\<close>

text \<open>The first dimension with the largest value, as the scan with strict comparison finds it.\<close>

definition maxDim :: "'a::linorder vec \<Rightarrow> nat" where
  "maxDim input = fst (for_upto 0 (length input)
     (\<lambda>i (maxIdx, maxValue). if maxValue < input ! i then (i, input ! i) else (maxIdx, maxValue)) (0, input ! 0))"

text \<open>
  The limit is converted to the index type, in which the product is computed: both wrap on words. The loop
  need not end, then the result is \<open>None\<close>.
\<close>

partial_function (option) adjustToLimit :: "'a::{semiring_modulo,linorder} vec \<Rightarrow> nat \<Rightarrow> 'a vec option" where
  "adjustToLimit input limit =
     (let limitValue = of_nat limit in
      if vec_product input > limitValue
      then (let maxIdx = maxDim input in adjustToLimit (input[maxIdx := divExZero (input ! maxIdx) 2]) limit)
      else Some input)"

definition adjustThreadSpec_cuda :: "nat \<Rightarrow> FrameSpec \<Rightarrow> ThreadSpec option" where
  "adjustThreadSpec_cuda maxThreadsPerBlock fs =
     map_option (\<lambda>result. threadSpec (fs_numFrames fs) result (fs_executor fs))
       (adjustToLimit (fs_frameExtents fs) maxThreadsPerBlock)"

text \<open>A SYCL device does the same, but does not pass the executor on.\<close>

definition adjustThreadSpec_sycl :: "nat \<Rightarrow> FrameSpec \<Rightarrow> ThreadSpec option" where
  "adjustThreadSpec_sycl maxThreadsPerBlock fs =
     map_option (\<lambda>result. threadSpec (fs_numFrames fs) result AnyExecutor)
       (adjustToLimit (fs_frameExtents fs) maxThreadsPerBlock)"

definition adjustThreadSpec :: "nat \<Rightarrow> FrameSpec \<Rightarrow> ThreadSpec option" where
  "adjustThreadSpec maxThreadsPerBlock fs =
     (case fs_executor fs of
        CpuSerial \<Rightarrow> Some (adjustThreadSpec_serial fs)
      | CpuOmpBlocks \<Rightarrow> Some (adjustThreadSpec_seq fs)
      | CpuTbbBlocks \<Rightarrow> Some (adjustThreadSpec_seq fs)
      | GpuCuda \<Rightarrow> adjustThreadSpec_cuda maxThreadsPerBlock fs
      | GpuHip \<Rightarrow> adjustThreadSpec_cuda maxThreadsPerBlock fs
      | OneApi \<Rightarrow> adjustThreadSpec_sycl maxThreadsPerBlock fs
      | AnyExecutor \<Rightarrow> Some (adjustThreadSpec_default fs))"

text \<open>\<^verbatim>\<open>highestPowerOfTwo\<close> shifts a 32-bit value until it exceeds the argument.\<close>

partial_function (option) highestPowerOfTwo_loop :: "u32 \<Rightarrow> u32 \<Rightarrow> u32 option" where
  "highestPowerOfTwo_loop value result =
     (if push_bit 1 result \<le> value then highestPowerOfTwo_loop value (push_bit 1 result) else Some result)"

definition highestPowerOfTwo :: "u32 \<Rightarrow> u32 option" where
  "highestPowerOfTwo value = highestPowerOfTwo_loop value 1"

definition simdOptimizedAlignment :: "nat \<Rightarrow> nat \<Rightarrow> nat \<Rightarrow> nat option" where
  "simdOptimizedAlignment archSimdWidth sizeofType alignofType =
     map_option (\<lambda>bestSimdPackBytes. max (unat bestSimdPackBytes) alignofType)
       (highestPowerOfTwo (of_nat (archSimdWidth * sizeofType)))"

section \<open>Frames\<close>

text \<open>
  The dimension with the most frame items left to halve; the last one when none is left.
\<close>

definition frame_candidate :: "nat vec \<Rightarrow> nat vec \<Rightarrow> nat" where
  "frame_candidate extentMd frameExtents = fst (for_upto 0 (length extentMd)
     (\<lambda>i (maxIdx, maxValue). let v = extentMd ! i div frameExtents ! i div 2 in
        if maxValue < v then (i, v) else (maxIdx, maxValue)) (length extentMd - 1, 0))"

function frame_distribute :: "nat vec \<Rightarrow> nat \<Rightarrow> nat vec \<Rightarrow> nat vec" where
  "frame_distribute extentMd numFrameElements frameExtents =
     (if numFrameElements > 1
      then (let maxIdx = frame_candidate extentMd frameExtents;
                v = extentMd ! maxIdx div frameExtents ! maxIdx div 2
            in if v \<ge> 1
               then frame_distribute extentMd (numFrameElements div 2) (frameExtents[maxIdx := frameExtents ! maxIdx * 2])
               else frameExtents)
      else frameExtents)"
  by pat_completeness auto
termination by (relation "measure (\<lambda>(_, n, _). n)") auto

declare frame_distribute.simps [simp del]

text \<open>\<open>None\<close> is the assertion that every extent is positive. The index type has 64 bits.\<close>

definition getFrameSpec :: "nat \<Rightarrow> executor \<Rightarrow> nat vec \<Rightarrow> FrameSpec option" where
  "getFrameSpec warpSize executor extentMd =
     (if \<exists>i < length extentMd. \<not> 0 < extentMd ! i then None
      else let numFrameElements = 512;
               fastDimensionValue = unat (roundDownToPowerOfTwo (of_nat (min warpSize (vec_x extentMd)) :: u64));
               frameExtents = vec_rAssign (vec_fill (length extentMd) 1) fastDimensionValue;
               frameExtents = frame_distribute extentMd (numFrameElements div vec_x frameExtents) frameExtents;
               numFrames = vec_divCeil extentMd frameExtents
           in Some (frameSpec numFrames frameExtents executor))"

definition getSimdFrameSpec :: "nat \<Rightarrow> nat \<Rightarrow> executor \<Rightarrow> nat vec \<Rightarrow> FrameSpec option" where
  "getSimdFrameSpec warpSize elementsPerFrameItem executor extentMd =
     map_option (\<lambda>fs. let frameExtents = fs_frameExtents fs;
             numFrames = vec_divExZero extentMd
               (vec_mul frameExtents (vec_rAssign (vec_fill (length extentMd) 1) elementsPerFrameItem))
         in frameSpec numFrames frameExtents executor)
       (getFrameSpec warpSize executor extentMd)"

section \<open>Limits are reached\<close>

lemma maxDim_max:
  fixes input :: "'a::linorder vec"
  assumes "input \<noteq> []"
  shows "maxDim input < length input \<and> (\<forall>i < length input. input ! i \<le> input ! maxDim input)"
proof -
  let ?f = "\<lambda>i (maxIdx, maxValue). if maxValue < input ! i then (i, input ! i) else (maxIdx, maxValue)"
  let ?P = "\<lambda>k (m, v). m < length input \<and> v = input ! m \<and> (\<forall>i < k. input ! i \<le> v)"
  have "?P (length input) (for_upto 0 (length input) ?f (0, input ! 0))"
  proof (rule for_upto_invariant[where P = ?P])
    show "?P 0 (0, input ! 0)" using assms by simp
    fix i s assume "i < length input" "?P i s"
    then show "?P (Suc i) (?f i s)" by (cases s) (auto simp: less_Suc_eq intro: less_imp_le order_trans)
  qed simp
  then show ?thesis by (auto simp: maxDim_def split: prod.splits)
qed

lemma vec_product_pos: "v \<noteq> [] \<Longrightarrow> vec_product (v :: nat vec) = prod_list v"
  by (rule vec_product_prod_list)

lemma prod_list_update_less:
  assumes "i < length v" "y < v ! i" "\<forall>x \<in> set v. 0 < (x :: nat)"
  shows "prod_list (v[i := y]) < prod_list v"
proof -
  have v: "v = take i v @ v ! i # drop (Suc i) v" by (rule id_take_nth_drop[OF assms(1)])
  have "0 < prod_list (take i v)" "0 < prod_list (drop (Suc i) v)"
    using assms(3) by (auto intro!: prod_list_pos_nat dest: in_set_takeD in_set_dropD)
  then have "prod_list (take i v) * (y * prod_list (drop (Suc i) v)) < prod_list (take i v) * (v ! i * prod_list (drop (Suc i) v))"
    using assms(2) by simp
  then show ?thesis
    by (subst (2) v) (simp add: upd_conv_take_nth_drop[OF assms(1)])
qed

lemma adjustToLimit_nat:
  "adjustToLimit (input :: nat vec) limit =
     (if vec_product input > limit
      then (let maxIdx = maxDim input in adjustToLimit (input[maxIdx := divExZero (input ! maxIdx) 2]) limit)
      else Some input)"
  by (subst adjustToLimit.simps) (simp add: Let_def)

lemma adjustToLimit_halves:
  fixes input :: "nat vec"
  assumes "input \<noteq> []" "\<forall>x \<in> set input. 0 < x" "0 < limit"
  shows "\<exists>r. adjustToLimit input limit = Some r \<and> vec_product r \<le> limit \<and> length r = length input
           \<and> (\<forall>i < length input. 1 \<le> r ! i \<and> (\<exists>h. r ! i = input ! i div 2 ^ h))"
  using assms(1,2)
proof (induction "prod_list input" arbitrary: input rule: less_induct)
  case less
  let ?m = "maxDim input"
  note m = maxDim_max[OF less.prems(1)]
  show ?case
  proof (cases "vec_product input \<le> limit")
    case True
    then show ?thesis using less.prems by (subst adjustToLimit_nat) (auto simp: Suc_le_eq intro: exI[of _ 0])
  next
    case False
    let ?v = "input[?m := divExZero (input ! ?m) 2]"
    have "2 \<le> input ! ?m"
    proof (rule ccontr)
      assume "\<not> 2 \<le> input ! ?m"
      then have "\<forall>x \<in> set input. x \<le> 1" using m by (force simp: in_set_conv_nth)
      then have "prod_list input \<le> 1"
      proof (induction input)
        case (Cons a input)
        then show ?case using mult_le_mono[of a 1 "prod_list input" 1] by simp
      qed simp
      then show False using False assms(3) vec_product_pos[OF less.prems(1)] by simp
    qed
    then have d: "divExZero (input ! ?m) 2 < input ! ?m" "1 \<le> divExZero (input ! ?m) 2"
      by (auto simp: divExZero_def)
    have "\<forall>x \<in> set ?v. 0 < x"       using less.prems(2) d(2) set_update_subset_insert[of input ?m "divExZero (input ! ?m) 2"] by fastforce
    moreover have "prod_list ?v < prod_list input" using m d(1) less.prems(2) by (intro prod_list_update_less) auto
    ultimately obtain r where r: "adjustToLimit ?v limit = Some r" "vec_product r \<le> limit" "length r = length input"
      "\<forall>i < length input. 1 \<le> r ! i \<and> (\<exists>h. r ! i = ?v ! i div 2 ^ h)"
      using less.hyps[of ?v] less.prems(1) by auto
    have "divExZero (input ! ?m) 2 = input ! ?m div 2" using \<open>2 \<le> input ! ?m\<close> by (simp add: divExZero_def)
    then have v: "?v ! i = input ! i div 2 ^ (if i = ?m then 1 else 0)" if "i < length input" for i
      using that by (simp add: nth_list_update)
    have "\<exists>h. r ! i = input ! i div 2 ^ h" if "i < length input" for i
    proof -
      from r(4) that obtain h where "r ! i = ?v ! i div 2 ^ h" by blast
      then show ?thesis unfolding v[OF that] div_mult2_eq[symmetric] power_add[symmetric] by blast
    qed
    then show ?thesis using r False by (subst adjustToLimit_nat) (auto simp: Let_def)
  qed
qed

text \<open>On words the loop does the same as long as the first product and the limit fit the index type.\<close>

lemma maxDim_unat:
  fixes input :: "'w::len word vec"
  assumes "input \<noteq> []"
  shows "maxDim (map unat input) = maxDim input"
proof -
  let ?f = "\<lambda>i (maxIdx, maxValue). if maxValue < input ! i then (i, input ! i) else (maxIdx, maxValue)"
  let ?g = "\<lambda>i (maxIdx, maxValue). if maxValue < map unat input ! i then (i, map unat input ! i) else (maxIdx, maxValue)"
  have "for_upto 0 k ?g (0, map unat input ! 0) = map_prod id unat (for_upto 0 k ?f (0, input ! 0))" if "k \<le> length input" for k
    using that
  proof (induction k)
    case 0
    then show ?case using assms by simp
  next
    case (Suc k)
    obtain m v where "for_upto 0 k ?f (0, input ! 0) = (m, v)" by fastforce
    then show ?case using Suc by (simp add: for_upto_Suc word_less_nat_alt)
  qed
  from this[of "length input"] show ?thesis by (simp add: maxDim_def)
qed

lemma unat_vec_product:
  fixes input :: "'w::len word vec"
  assumes "input \<noteq> []" "\<forall>x \<in> set input. 0 < x" "prod_list (map unat input) < 2 ^ LENGTH('w)"
  shows "unat (vec_product input) = prod_list (map unat input)"
  using assms unat_prod_list[OF assms(3)] by (auto simp: vec_product_prod_list)

lemma max_above_one:
  fixes input :: "nat vec"
  assumes "input \<noteq> []" "1 < prod_list input"
  shows "2 \<le> input ! maxDim input"
proof (rule ccontr)
  assume "\<not> 2 \<le> input ! maxDim input"
  then have "\<forall>x \<in> set input. x \<le> 1" using maxDim_max[OF assms(1)] by (force simp: in_set_conv_nth)
  then have "prod_list input \<le> 1"
  proof (induction input)
    case (Cons a input)
    then show ?case using mult_le_mono[of a 1 "prod_list input" 1] by simp
  qed simp
  then show False using assms(2) by simp
qed

lemma adjustToLimit_word:
  fixes input :: "'w::len word vec"
  assumes "input \<noteq> []" "\<forall>x \<in> set input. 0 < x" "0 < limit" "limit < 2 ^ LENGTH('w)"
    "prod_list (map unat input) < 2 ^ LENGTH('w)" "adjustToLimit (map unat input) limit = Some r"
  shows "adjustToLimit input limit = Some (map of_nat r)"
  using assms(1,2,5,6)
proof (induction "prod_list (map unat input)" arbitrary: input rule: less_induct)
  case less
  have lim: "unat (of_nat limit :: 'w word) = limit" using assms(4) by (simp add: unsigned_of_nat take_bit_eq_mod)
  have prod: "unat (vec_product input) = prod_list (map unat input)" "vec_product (map unat input) = prod_list (map unat input)"
    using unat_vec_product[OF less.prems(1-3)] less.prems(1) by (simp_all add: vec_product_pos)
  show ?case
  proof (cases "prod_list (map unat input) \<le> limit")
    case True
    then have "r = map unat input" using less.prems(4) prod(2) by (simp add: adjustToLimit_nat)
    then show ?thesis using True prod(1) lim
      by (subst adjustToLimit.simps) (simp add: word_less_nat_alt not_less comp_def)
  next
    case False
    let ?m = "maxDim input"
    let ?h = "divExZero (input ! ?m) 2"
    let ?v = "input[?m := ?h]" and ?n = "(map unat input)[?m := divExZero (map unat input ! ?m) 2]"
    note m = maxDim_max[OF less.prems(1)]
    have "(2 :: nat) < 2 ^ LENGTH('w)" using False less.prems(3) assms(3) by linarith
    then have u2: "unat (2 :: 'w word) = 2"
      using unsigned_of_nat[of 2, where 'b = 'w and 'a = nat] by (simp only: take_bit_eq_mod of_nat_numeral mod_less)
    have big: "2 \<le> unat (input ! ?m)"
      using max_above_one[of "map unat input"] False assms(3) less.prems(1) m by (simp add: maxDim_unat)
    have half: "unat ?h = unat (input ! ?m) div 2"
      using u2 big by (auto simp: divExZero_def unat_div max_def word_le_nat_alt)
    have v: "map unat ?v = ?n" using m half big by (simp add: map_update divExZero_def)
    have "\<forall>x \<in> set ?v. 0 < x" using less.prems(2) half big set_update_subset_insert[of input ?m ?h]
      by (fastforce simp: word_less_nat_alt)
    moreover have "prod_list (map unat ?v) < prod_list (map unat input)"
      unfolding v using m big less.prems(2)
      by (intro prod_list_update_less) (auto simp: divExZero_def word_less_nat_alt)
    moreover have "adjustToLimit (map unat ?v) limit = Some r"
      using less.prems(4) False prod(2) unfolding v
      by (subst (asm) adjustToLimit_nat) (simp add: Let_def maxDim_unat[OF less.prems(1)])
    ultimately have "adjustToLimit ?v limit = Some (map of_nat r)"
      using less.hyps[of ?v] less.prems(1,3) by simp
    then show ?thesis using False prod(1) lim
      by (subst adjustToLimit.simps) (simp add: word_less_nat_alt Let_def)
  qed
qed

text \<open>
  Property C36. Shrinking a thread block, given in an unsigned index type, to a limit of at least one thread always ends,
  meets the limit, and only ever shrinks dimensions, none below one thread, provided that the limit and the number of
  threads fit the index type. Both conditions are needed: the two lemmas after the theorem give a block
  whose number of threads wraps to zero, which is returned as it is, and show that a limit that is zero in the
  index type keeps the loop running.
\<close>

theorem adjustToLimit_reaches:
  fixes input :: "'w::len word vec"
  assumes "input \<noteq> []" "\<forall>x \<in> set input. 0 < x" "0 < limit" "limit < 2 ^ LENGTH('w)"
    "prod_list (map unat input) < 2 ^ LENGTH('w)"
  shows "\<exists>r. adjustToLimit input limit = Some r \<and> prod_list (map unat r) \<le> limit \<and> length r = length input
           \<and> (\<forall>i < length input. 1 \<le> r ! i \<and> r ! i \<le> input ! i)"
proof -
  have "map unat input \<noteq> []" "\<forall>x \<in> set (map unat input). 0 < x" using assms(1,2) by (auto simp: word_less_nat_alt)
  from adjustToLimit_halves[OF this assms(3)] obtain r where r: "adjustToLimit (map unat input) limit = Some r"
    "vec_product r \<le> limit" "length r = length input"
    "\<forall>i < length input. 1 \<le> r ! i \<and> (\<exists>h. r ! i = unat (input ! i) div 2 ^ h)" by auto
  have le: "1 \<le> r ! i \<and> r ! i \<le> unat (input ! i)" if "i < length input" for i
    using r(4) that by (metis div_le_dividend)
  have u: "map unat (map of_nat r :: 'w word vec) = r"
  proof (rule nth_equalityI)
    fix i assume "i < length (map unat (map of_nat r :: 'w word vec))"
    then have i: "i < length r" by simp
    have "r ! i < 2 ^ LENGTH('w)" using le[of i] i r(3) unsigned_less[of "input ! i", where 'a = nat] by (metis le_less_trans)
    then show "map unat (map of_nat r :: 'w word vec) ! i = r ! i" using i by (simp add: unsigned_of_nat take_bit_eq_mod)
  qed simp
  have "adjustToLimit input limit = Some (map of_nat r)" by (rule adjustToLimit_word[OF assms r(1)])
  moreover have "prod_list (map unat (map of_nat r :: 'w word vec)) \<le> limit"
    unfolding u using r(2,3) assms(1) by (cases r) (simp_all add: vec_product_pos)
  moreover have "1 \<le> (map of_nat r :: 'w word vec) ! i \<and> map of_nat r ! i \<le> input ! i" if "i < length input" for i
    using le[OF that] that r(3) u[THEN arg_cong, of "\<lambda>x. x ! i"] by (simp add: word_le_nat_alt)
  ultimately show ?thesis using r(3) by (intro exI[of _ "map of_nat r"]) simp
qed

theorem adjustToLimit_reaches_witness:
  "\<exists>r. adjustToLimit [16, 8, 32 :: u32] 1024 = Some r \<and> prod_list (map unat r) \<le> 1024"
  using adjustToLimit_reaches[of "[16, 8, 32 :: u32]" 1024] by auto

lemma adjustToLimit_wraps_example: "adjustToLimit [65536, 65536 :: u32] 1024 = Some [65536, 65536]"
  by (subst adjustToLimit.simps) (simp add: vec_product_prod_list)

lemma adjustToLimit_zero_endless:
  fixes x :: "'w::len word"
  assumes "0 < x" "(of_nat limit :: 'w word) = 0"
  shows "adjustToLimit [x] limit = None"
proof (rule ccontr)
  assume "adjustToLimit [x] limit \<noteq> None"
  then obtain r where "adjustToLimit [x] limit = Some r" by blast
  moreover have "\<forall>x. input = [x] \<longrightarrow> lim = limit \<longrightarrow> \<not> 0 < x" if "adjustToLimit input lim = Some r"
    for input :: "'w word vec" and lim
  proof (rule adjustToLimit.raw_induct[where P = "\<lambda>input lim r. \<forall>x. input = [x] \<longrightarrow> lim = limit \<longrightarrow> \<not> 0 < x", OF _ that])
    fix f :: "'w word vec \<Rightarrow> nat \<Rightarrow> 'w word vec option" and input :: "'w word vec" and lim r
    assume 1: "\<And>a b c. f a b = Some c \<Longrightarrow> \<forall>x. a = [x] \<longrightarrow> b = limit \<longrightarrow> \<not> 0 < x"
      "(let limitValue = of_nat lim in
        if vec_product input > limitValue
        then (let maxIdx = maxDim input in f (input[maxIdx := divExZero (input ! maxIdx) 2]) lim)
        else Some input) = Some r"
    show "\<forall>x. input = [x] \<longrightarrow> lim = limit \<longrightarrow> \<not> 0 < x"
    proof (intro allI impI notI)
      fix x assume x: "input = [x]" "lim = limit" "0 < x"
      then have "f [divExZero x 2] limit = Some r"
        using 1(2) assms(2) by (simp add: vec_product_prod_list maxDim_def for_upto_def Let_def)
      then have "\<not> 0 < divExZero x 2" using 1(1) by blast
      moreover have "(0 :: 'w word) < divExZero x 2" by (rule less_le_trans[of _ 1]) (simp_all add: divExZero_def)
      ultimately show False by blast
    qed
  qed
  ultimately show False using assms(1) by blast
qed

section \<open>Frame heuristics\<close>

lemma frame_candidate_bound:
  assumes "extentMd \<noteq> []"
  shows "frame_candidate extentMd fe < length extentMd"
proof -
  let ?f = "\<lambda>i (maxIdx, maxValue). let v = extentMd ! i div fe ! i div 2 in
        if maxValue < v then (i, v) else (maxIdx, maxValue)"
  let ?P = "\<lambda>k (m, v). m < length extentMd"
  have "?P (length extentMd) (for_upto 0 (length extentMd) ?f (length extentMd - 1, 0))"
    by (rule for_upto_invariant[where P = ?P]) (use assms in \<open>auto simp: Let_def split: if_splits\<close>)
  then show ?thesis by (auto simp: frame_candidate_def split: prod.splits)
qed

text \<open>A frame covers a power of two of elements in every dimension, inside the extents.\<close>

definition frame_fits :: "nat vec \<Rightarrow> nat vec \<Rightarrow> bool" where
  "frame_fits extentMd fe \<longleftrightarrow> length fe = length extentMd
     \<and> (\<forall>i < length extentMd. (\<exists>k. fe ! i = 2 ^ k) \<and> fe ! i \<le> extentMd ! i)"

lemma frame_distribute_fits:
  "extentMd \<noteq> [] \<Longrightarrow> frame_fits extentMd fe \<Longrightarrow>
     frame_fits extentMd (frame_distribute extentMd n fe)
     \<and> prod_list (frame_distribute extentMd n fe) \<le> max (prod_list fe) (prod_list fe * n)"
proof (induction extentMd n fe rule: frame_distribute.induct)
  case (1 extentMd n fe)
  let ?m = "frame_candidate extentMd fe"
  let ?fe = "fe[?m := fe ! ?m * 2]"
  have m: "?m < length extentMd" using frame_candidate_bound[OF 1(2)] .
  show ?case
  proof (cases "n > 1 \<and> extentMd ! ?m div fe ! ?m div 2 \<ge> 1")
    case True
    have fm: "fe ! ?m * 2 \<le> extentMd ! ?m"
      using True by (metis div_mult2_eq div_greater_zero_iff less_eq_Suc_le One_nat_def mult_eq_0_iff)
    have fits: "frame_fits extentMd ?fe"
      using 1(3) fm m by (auto simp: frame_fits_def nth_list_update intro: exI[of _ "Suc k" for k])
         (metis power_Suc mult.commute)
    have len: "?m < length fe" using 1(3) m by (simp add: frame_fits_def)
    have "fe = take ?m fe @ fe ! ?m # drop (Suc ?m) fe" by (rule id_take_nth_drop[OF len])
    then have "prod_list fe = prod_list (take ?m fe) * (fe ! ?m * prod_list (drop (Suc ?m) fe))"
      by (metis prod_list.Cons prod_list.append)
    then have pr: "prod_list ?fe = prod_list fe * 2"
      by (simp add: upd_conv_take_nth_drop[OF len] ac_simps)
    have a: "prod_list fe * 2 * (n div 2) \<le> prod_list fe * n" by simp
    have b: "prod_list fe * 2 \<le> prod_list fe * n" using True by simp
    have eq: "frame_distribute extentMd n fe = frame_distribute extentMd (n div 2) ?fe"
      using True by (subst frame_distribute.simps) (simp add: Let_def)
    have ih: "frame_fits extentMd (frame_distribute extentMd (n div 2) ?fe)
        \<and> prod_list (frame_distribute extentMd (n div 2) ?fe) \<le> max (prod_list fe * 2) (prod_list fe * 2 * (n div 2))"
      using 1(1)[OF _ refl refl] True 1(2) fits by (simp only: pr) simp
    have "prod_list (frame_distribute extentMd (n div 2) ?fe) \<le> prod_list fe * n"
      using conjunct2[OF ih] a b by (simp only: le_max_iff_disj) (blast intro: order_trans)
    then show ?thesis using ih by (simp only: eq le_max_iff_disj simp_thms)
  next
    case False
    then have "frame_distribute extentMd n fe = fe" by (subst frame_distribute.simps) (auto simp: Let_def)
    then show ?thesis using 1(3) by simp
  qed
qed

lemma getFrameSpec_fits:
  assumes "extentMd \<noteq> []" "\<forall>i < length extentMd. 0 < extentMd ! i" "0 < warpSize" "warpSize < 2 ^ 64"
  shows "\<exists>fe. getFrameSpec warpSize ex extentMd = Some (frameSpec (vec_divCeil extentMd fe) fe ex)
           \<and> prod_list fe \<le> max 512 warpSize \<and> frame_fits extentMd fe"
proof -
  let ?n = "length extentMd"
  let ?x = "of_nat (min warpSize (vec_x extentMd)) :: u64"
  have x: "vec_x extentMd = extentMd ! (?n - 1)" "0 < vec_x extentMd"
    using assms(1,2) by (simp_all add: vec_x_def)
  have "min warpSize (vec_x extentMd) < 2 ^ 64" using assms(4) by simp
  then have ux: "unat ?x = min warpSize (vec_x extentMd)" by (simp add: unat_of_nat)
  then have "?x \<noteq> 0" using assms(3) x(2) by (metis min_less_iff_conj not_less_zero unat_0)
  then obtain k where k: "unat (roundDownToPowerOfTwo ?x) = 2 ^ k" "2 ^ k \<le> min warpSize (vec_x extentMd)"
    using roundDownToPowerOfTwo_top_bit[of ?x] ux by auto
  obtain P e where e: "extentMd = P @ [e]" using assms(1) by (cases extentMd rule: rev_cases) auto
  let ?f0 = "replicate (length P) 1 @ [2 ^ k :: nat]"
  have f0: "vec_rAssign (vec_fill ?n 1) (2 ^ k) = ?f0" by (simp add: e vec_rAssign_fill)
  have fx: "vec_x ?f0 = 2 ^ k" by (simp add: vec_x_def nth_append)
  have fits0: "frame_fits extentMd ?f0"
    using assms(2) k(2) x(1) by (auto simp: frame_fits_def e nth_append Suc_le_eq less_Suc_eq intro: exI[of _ 0])
  have p0: "prod_list ?f0 = 2 ^ k" by (simp add: prod_list_replicate)
  let ?fe = "frame_distribute extentMd (512 div 2 ^ k) ?f0"
  note fd = frame_distribute_fits[OF assms(1) fits0, of "512 div 2 ^ k"]
  have "2 ^ k \<le> warpSize" "2 ^ k * (512 div 2 ^ k) \<le> (512 :: nat)" using k(2) by simp_all
  then have "prod_list ?fe \<le> max 512 warpSize" using conjunct2[OF fd] unfolding p0 by linarith
  moreover have "getFrameSpec warpSize ex extentMd = Some (frameSpec (vec_divCeil extentMd ?fe) ?fe ex)"
    using assms(2) unfolding getFrameSpec_def Let_def k(1) f0 fx by auto
  ultimately show ?thesis using fd by blast
qed

text \<open>
  Property C35. The frame heuristic: for positive extents it always yields a frame whose extents are powers
  of two, which does not exceed the problem in any dimension nor 512 elements (or the warp size, if
  that is larger), and the frames cover the problem without a superfluous frame in any dimension.
  Extents of zero are rejected.
\<close>

theorem getFrameSpec_covers:
  assumes "extentMd \<noteq> []" "\<forall>i < length extentMd. 0 < extentMd ! i" "0 < warpSize" "warpSize < 2 ^ 64"
  shows "\<exists>nf fe. getFrameSpec warpSize ex extentMd = Some (frameSpec nf fe ex)
           \<and> prod_list fe \<le> max 512 warpSize
           \<and> (\<forall>i < length extentMd. (\<exists>k. fe ! i = 2 ^ k) \<and> fe ! i \<le> extentMd ! i
                \<and> extentMd ! i \<le> nf ! i * fe ! i \<and> nf ! i * fe ! i < extentMd ! i + fe ! i)"
proof -
  let ?n = "length extentMd"
  from getFrameSpec_fits[OF assms, of ex] obtain fe where
    fe: "getFrameSpec warpSize ex extentMd = Some (frameSpec (vec_divCeil extentMd fe) fe ex)"
      "prod_list fe \<le> max 512 warpSize" "frame_fits extentMd fe" by blast
  have "(\<exists>k. fe ! i = 2 ^ k) \<and> fe ! i \<le> extentMd ! i
      \<and> extentMd ! i \<le> vec_divCeil extentMd fe ! i * fe ! i \<and> vec_divCeil extentMd fe ! i * fe ! i < extentMd ! i + fe ! i"
    if "i < ?n" for i
  proof -
    from fe(3) that have f: "\<exists>k. fe ! i = 2 ^ k" "fe ! i \<le> extentMd ! i" "length fe = ?n" by (auto simp: frame_fits_def)
    then have "0 < fe ! i" by auto
    from divCeil_nat_bounds[OF this, of "extentMd ! i"] show ?thesis
      using f that by (simp add: vec_divCeil_nth)
  qed
  with fe(1,2) show ?thesis by blast
qed

theorem getFrameSpec_covers_witness:
  "\<exists>nf fe. getFrameSpec 32 GpuCuda [100, 1000] = Some (frameSpec nf fe GpuCuda) \<and> prod_list fe \<le> max 512 32"
proof -
  have "[100, 1000 :: nat] \<noteq> []" "\<forall>i < length [100, 1000 :: nat]. 0 < [100, 1000 :: nat] ! i" "0 < (32 :: nat)" "32 < (2 :: nat) ^ 64"
    by (simp_all add: less_Suc_eq)
  from getFrameSpec_covers[OF this, of GpuCuda] show ?thesis by blast
qed

section \<open>The largest power of two\<close>

lemma unat_pow2: "m < 32 \<Longrightarrow> unat (2 ^ m :: u32) = 2 ^ m"
proof -
  assume "m < 32"
  then have "(2 :: nat) ^ m < 2 ^ 32" by (intro power_strict_increasing) simp_all
  then show ?thesis using unat_pow_bound[of "2 :: u32" m] by simp
qed

lemma highestPowerOfTwo_loop_ends:
  assumes "unat value < 2 ^ 31" "2 ^ k \<le> unat value" "unat value < 2 * 2 ^ k" "j \<le> k"
  shows "highestPowerOfTwo_loop value (2 ^ j) = Some (2 ^ k)"
proof -
  have "(2 :: nat) ^ k < 2 ^ 31" using assms(1,2) by (rule le_less_trans[rotated])
  then have k: "k < 31" by (simp only: power_strict_increasing_iff)
  have up: "push_bit 1 (2 ^ m :: u32) = 2 ^ Suc m" for m by (simp add: push_bit_eq_mult)
  have last: "\<not> 2 ^ Suc k \<le> value" unfolding word_le_nat_alt using k assms(3) by (simp add: unat_pow2 del: power_Suc) simp
  have cont: "2 ^ Suc i \<le> value" if "i < k" for i
  proof -
    have "(2 :: nat) ^ Suc i \<le> 2 ^ k" using that by (intro power_increasing) simp_all
    also note assms(2)
    finally show ?thesis unfolding word_le_nat_alt using k that by (simp add: unat_pow2 del: power_Suc)
  qed
  show ?thesis using assms(4)
  proof (induction "k - j" arbitrary: j)
    case 0
    with assms(4) have j: "j = k" by simp
    show ?case unfolding j by (subst highestPowerOfTwo_loop.simps) (simp only: up if_not_P[OF last])
  next
    case (Suc d)
    then have "j < k" "d = k - Suc j" "Suc j \<le> k" by auto
    then show ?case
      using Suc.hyps(1)[of "Suc j"] by (subst highestPowerOfTwo_loop.simps) (simp only: up if_P[OF cont])
  qed
qed

text \<open>
  \<^verbatim>\<open>highestPowerOfTwo\<close> of a positive value below \<open>2 ^ 31\<close> ends with the largest power of two
  that does not exceed it. For larger values the shifted result wraps to zero and the loop, which
  is evaluated at compile time, never ends.
\<close>

theorem highestPowerOfTwo_ends:
  assumes "0 < unat value" "unat value < 2 ^ 31"
  shows "\<exists>k. highestPowerOfTwo value = Some (2 ^ k) \<and> 2 ^ k \<le> unat value \<and> unat value < 2 * 2 ^ k"
proof -
  obtain k where "2 ^ k \<le> unat value" "unat value < 2 * 2 ^ k"
    using bit_floor_spec[OF assms(1)] by auto
  then show ?thesis
    using highestPowerOfTwo_loop_ends[OF assms(2), of k 0] by (auto simp: highestPowerOfTwo_def)
qed

theorem highestPowerOfTwo_ends_witness:
  "\<exists>k. highestPowerOfTwo 100 = Some (2 ^ k) \<and> 2 ^ k \<le> (100 :: nat)"
  using highestPowerOfTwo_ends[of 100] by auto

end
