(* ===== verification/Store.thy ===== *)
theory Store
  imports Prelude
begin

text \<open>
  Arrays as kernels use them: reads and writes that fail outside the array, loops whose body can
  fail, and the phases between two barriers of a block, in which the threads work on disjoint
  cells. The locale states what a thread's step promises; the consequence, that a phase has one
  result whatever the order of the threads, is proved once for all of them.
\<close>

definition arr_get :: "'a list \<Rightarrow> nat \<Rightarrow> 'a option" where
  "arr_get xs i = (if i < length xs then Some (xs ! i) else None)"

definition arr_set :: "'a list \<Rightarrow> nat \<Rightarrow> 'a \<Rightarrow> 'a list option" where
  "arr_set xs i v = (if i < length xs then Some (xs[i := v]) else None)"

lemma arr_get_Some [simp]: "i < length xs \<Longrightarrow> arr_get xs i = Some (xs ! i)"
  by (simp add: arr_get_def)

lemma arr_set_Some [simp]: "i < length xs \<Longrightarrow> arr_set xs i v = Some (xs[i := v])"
  by (simp add: arr_set_def)

lemma arr_out_of_bounds [simp]: "length xs \<le> i \<Longrightarrow> arr_get xs i = None \<and> arr_set xs i v = None"
  by (simp add: arr_get_def arr_set_def)

text \<open>A loop whose body can fail.\<close>

fun fold_opt :: "('i \<Rightarrow> 's \<Rightarrow> 's option) \<Rightarrow> 'i list \<Rightarrow> 's \<Rightarrow> 's option" where
  "fold_opt f [] s = Some s"
| "fold_opt f (x # xs) s = Option.bind (f x s) (fold_opt f xs)"

lemma fold_opt_single: "fold_opt f [x] s = f x s"
  by (cases "f x s") simp_all

lemma fold_opt_append: "fold_opt f (xs @ ys) s = Option.bind (fold_opt f xs s) (fold_opt f ys)"
  by (induction xs arbitrary: s) (auto simp: bind_eq_None_conv split: bind_splits)

lemma fold_opt_Some:
  assumes "P 0 s" "\<And>i s. i < length xs \<Longrightarrow> P i s \<Longrightarrow> \<exists>s'. f (xs ! i) s = Some s' \<and> P (Suc i) s'"
  shows "\<exists>s'. fold_opt f xs s = Some s' \<and> P (length xs) s'"
proof -
  have "k \<le> length xs \<Longrightarrow> \<exists>s'. fold_opt f (take k xs) s = Some s' \<and> P k s'" for k
  proof (induction k)
    case (Suc k)
    then obtain s' where "fold_opt f (take k xs) s = Some s'" "P k s'" by auto
    with assms(2)[of k s'] Suc.prems show ?case
      by (auto simp: take_Suc_conv_app_nth fold_opt_append)
  qed (use assms(1) in simp)
  from this[of "length xs"] show ?thesis by simp
qed

lemma fold_opt_cong_map:
  "(\<And>x s. x \<in> set xs \<Longrightarrow> f x s = g (h x) s) \<Longrightarrow> fold_opt f xs s = fold_opt g (map h xs) s"
  by (induction xs arbitrary: s) (auto cong: Option.bind_cong)

lemma fold_opt_filter: "fold_opt (\<lambda>x s. if P x then g x s else Some s) xs s = fold_opt g (filter P xs) s"
  by (induction xs arbitrary: s) (auto cong: Option.bind_cong)

text \<open>
  What loops that fill a segment of an array leave behind: \<open>n\<close> elements from position \<open>b\<close> on hold
  the values of \<open>v\<close>, the others are untouched.
\<close>

definition written :: "nat \<Rightarrow> nat \<Rightarrow> (nat \<Rightarrow> 'a) \<Rightarrow> 'a list \<Rightarrow> 'a list \<Rightarrow> bool" where
  "written b n v s s' \<longleftrightarrow> length s' = length s
     \<and> (\<forall>j < length s. s' ! j = (if b \<le> j \<and> j < b + n then v (j - b) else s ! j))"

lemma written_0 [simp]: "written b 0 v s s"
  by (auto simp: written_def)

lemma written_length: "written b n v s s' \<Longrightarrow> length s' = length s"
  by (simp add: written_def)

lemma written_nth: "written b n v s s' \<Longrightarrow> j < length s \<Longrightarrow> s' ! j = (if b \<le> j \<and> j < b + n then v (j - b) else s ! j)"
  by (simp add: written_def)

lemma written_set: "written b n v s s' \<Longrightarrow> b + n < length s \<Longrightarrow> written b (Suc n) v s (s'[b + n := v n])"
  by (auto simp: written_def nth_list_update)

lemma written_all: "written 0 (length s) v s s' \<Longrightarrow> s' = map v [0..<length s]"
  by (rule nth_equalityI) (auto simp: written_def)

lemma written_app: "written b n v s t \<Longrightarrow> written (b + n) m (\<lambda>i. v (n + i)) t u \<Longrightarrow> written b (n + m) v s u"
  unfolding written_def by (clarsimp simp: add.assoc)

lemma fold_opt_written:
  assumes "b + n \<le> length s" and "\<And>i s'. i < n \<Longrightarrow> written b i v s s' \<Longrightarrow> g i s' = arr_set s' (b + i) (v i)"
  shows "\<exists>s'. fold_opt g [0..<n] s = Some s' \<and> written b n v s s'"
  using fold_opt_Some[where P = "\<lambda>i s'. written b i v s s'" and xs = "[0..<n]" and f = g and s = s] assms
  by (simp add: written_set written_length)

section \<open>Phases between barriers\<close>

locale parallel_phase =
  fixes step :: "'i \<Rightarrow> 'a list \<Rightarrow> 'a list option"
    and cells :: "'i \<Rightarrow> nat set"
    and res :: "'i \<Rightarrow> 'a list \<Rightarrow> nat \<Rightarrow> 'a"
  assumes step_cells: "\<forall>c \<in> cells i. c < length s \<Longrightarrow> \<exists>s'. step i s = Some s' \<and> length s' = length s
        \<and> (\<forall>j < length s. s' ! j = (if j \<in> cells i then res i s j else s ! j))"
    and res_local: "\<forall>c \<in> cells i. s ! c = s' ! c \<Longrightarrow> j \<in> cells i \<Longrightarrow> res i s j = res i s' j"
begin

text \<open>
  Any order of distinct threads on pairwise disjoint cells succeeds and gives every cell the
  value its own thread computes from the memory before the phase.
\<close>

lemma phase:
  assumes "distinct is" "\<forall>i \<in> set is. \<forall>i' \<in> set is. i \<noteq> i' \<longrightarrow> cells i \<inter> cells i' = {}"
    and "\<forall>i \<in> set is. \<forall>c \<in> cells i. c < length s"
  shows "\<exists>s'. fold_opt step is s = Some s' \<and> length s' = length s
     \<and> (\<forall>i \<in> set is. \<forall>j \<in> cells i. s' ! j = res i s j)
     \<and> (\<forall>j < length s. (\<forall>i \<in> set is. j \<notin> cells i) \<longrightarrow> s' ! j = s ! j)"
  using assms
proof (induction "is" arbitrary: s)
  case (Cons i "is")
  then obtain s1 where s1: "step i s = Some s1" "length s1 = length s"
    "\<And>j. j < length s \<Longrightarrow> s1 ! j = (if j \<in> cells i then res i s j else s ! j)"
    using step_cells[of i s] by auto
  from Cons.prems have "distinct is" "\<forall>i \<in> set is. \<forall>i' \<in> set is. i \<noteq> i' \<longrightarrow> cells i \<inter> cells i' = {}"
    "\<forall>i \<in> set is. \<forall>c \<in> cells i. c < length s1" by (auto simp: s1(2))
  from Cons.IH[OF this] obtain s' where s': "fold_opt step is s1 = Some s'" "length s' = length s1"
    "\<And>i j. i \<in> set is \<Longrightarrow> j \<in> cells i \<Longrightarrow> s' ! j = res i s1 j"
    "\<And>j. j < length s1 \<Longrightarrow> \<forall>i \<in> set is. j \<notin> cells i \<Longrightarrow> s' ! j = s1 ! j" by blast
  have disj: "j \<notin> cells i" if "i' \<in> set is" "j \<in> cells i'" for i' j
    using Cons.prems(1,2) that by (auto simp: disjoint_iff)
  have "s' ! j = res i' s j" if "i' \<in> set is" "j \<in> cells i'" for i' j
  proof -
    have "\<forall>c \<in> cells i'. s1 ! c = s ! c" using s1(3) disj[OF that(1)] Cons.prems(3) that(1) by auto
    then show ?thesis using s'(3)[OF that] res_local that(2) by auto
  qed
  moreover have "s' ! j = res i s j" if "j \<in> cells i" for j
    using s'(4)[of j] s1(2,3) disj that Cons.prems(3) by auto
  moreover have "s' ! j = s ! j" if "j < length s" "\<forall>i' \<in> set (i # is). j \<notin> cells i'" for j
    using s'(4)[of j] s1(2,3) that by auto
  ultimately show ?case using s1(1,2) s'(1,2) by auto
qed simp

end

end
