(* ===== verification/Sweep.thy ===== *)
theory Sweep
  imports IntUtil Store
begin

text \<open>
  The two sweeps of the work-efficient prefix sum (\<^verbatim>\<open>onHost/algo/internal/scan.hpp\<close>): the loops over
  the levels of the reduction tree, once over a mini block in the registers of a thread and once
  over the sums of the mini blocks in shared memory, and the in-place scan of a mini block. Within
  a level the frame elements may run in any order, which is what lets the block run them in parallel
  between two barriers.
\<close>

definition conflictFreeAccess :: "nat \<Rightarrow> nat \<Rightarrow> nat" where
  "conflictFreeAccess warpSize n = n + n div warpSize"

section \<open>Sweeps\<close>

text \<open>
  One frame element of a sweep; \<open>adr\<close> places the elements in memory: behind the pointer of the
  mini block, or spread over the shared memory without bank conflicts. With the offset 0 the
  subtraction of 1 wraps to the largest index, which lies outside every array.
\<close>

definition up_step :: "(nat \<Rightarrow> nat) \<Rightarrow> nat \<Rightarrow> nat \<Rightarrow> 'a::plus list \<Rightarrow> 'a list option" where
  "up_step adr offset frameElem block =
     (if offset = 0 then None else
      let left = adr (offset * (frameElem + 1) - 1); right = adr (offset * (frameElem + 2) - 1) in
      Option.bind (arr_get block right) (\<lambda>r. Option.bind (arr_get block left) (\<lambda>l.
        arr_set block right (r + l))))"

definition down_step :: "(nat \<Rightarrow> nat) \<Rightarrow> nat \<Rightarrow> nat \<Rightarrow> 'a::plus list \<Rightarrow> 'a list option" where
  "down_step adr offset frameElem block =
     (if offset = 0 then None else
      let left = adr (offset * (frameElem + 1) - 1); right = adr (offset * (frameElem + 2) - 1) in
      Option.bind (arr_get block left) (\<lambda>t. Option.bind (arr_get block right) (\<lambda>r.
      Option.bind (arr_set block left r) (\<lambda>block.
      Option.bind (arr_get block right) (\<lambda>r. arr_set block right (r + t))))))"

text \<open>\<^verbatim>\<open>for(frameElem = 0; frameElem < end; frameElem += stride)\<close>\<close>

definition frame_elems :: "nat \<Rightarrow> nat \<Rightarrow> nat list" where
  "frame_elems stop stride = map (\<lambda>i. i * stride) [0..<divCeil stop stride]"

fun upsweep :: "(nat \<Rightarrow> nat) \<Rightarrow> (nat \<Rightarrow> nat list \<Rightarrow> nat list) \<Rightarrow> nat \<Rightarrow> nat \<Rightarrow> 'a::plus list \<Rightarrow> 'a list option" where
  "upsweep adr order d offset block =
     (if d > 0
      then Option.bind (fold_opt (up_step adr offset) (order d (frame_elems (2 * d) 2)) block)
             (upsweep adr order (d div 2) (offset * 2))
      else Some block)"

text \<open>The loop variable \<open>d\<close> starts at 1 and doubles.\<close>

function downsweep :: "(nat \<Rightarrow> nat) \<Rightarrow> (nat \<Rightarrow> nat list \<Rightarrow> nat list) \<Rightarrow> nat \<Rightarrow> nat \<Rightarrow> nat \<Rightarrow> 'a::plus list \<Rightarrow> 'a list option" where
  "downsweep adr order extent d offset block =
     (if 0 < d \<and> d < extent
      then Option.bind (fold_opt (down_step adr offset) (order d (frame_elems (2 * d) 2)) block)
             (downsweep adr order extent (d * 2) (offset div 2))
      else Some block)"
  by pat_completeness auto
termination by (relation "measure (\<lambda>(_, _, extent, d, _). extent - d)") auto

declare upsweep.simps [simp del] downsweep.simps [simp del]

definition scanMiniBlock :: "nat \<Rightarrow> nat \<Rightarrow> 'a::{plus,zero} list \<Rightarrow> ('a list \<times> 'a) option" where
  "scanMiniBlock base extent block =
     (let adr = (\<lambda>n. base + n); order = (\<lambda>_ elems. elems) in
      Option.bind (upsweep adr order (extent div 2) 1 block) (\<lambda>block.
      Option.bind (arr_get block (adr (extent - 1))) (\<lambda>blockSum.
      Option.bind (arr_set block (adr (extent - 1)) 0) (\<lambda>block.
        map_option (\<lambda>block. (block, blockSum)) (downsweep adr order extent 1 (extent div 2) block)))))"

definition addIncrements :: "nat \<Rightarrow> 'a::plus \<Rightarrow> nat \<Rightarrow> 'a list \<Rightarrow> 'a list option" where
  "addIncrements base blockSum extent block =
     fold_opt (\<lambda>i block. Option.bind (arr_get block (base + i)) (\<lambda>v. arr_set block (base + i) (v + blockSum)))
       [0..<extent] block"


section \<open>One level\<close>

definition level_cells :: "(nat \<Rightarrow> nat) \<Rightarrow> nat \<Rightarrow> nat \<Rightarrow> nat set" where
  "level_cells adr offset e = {adr (offset * (e + 1) - 1), adr (offset * (e + 2) - 1)}"

definition up_result :: "(nat \<Rightarrow> nat) \<Rightarrow> nat \<Rightarrow> nat \<Rightarrow> 'a::plus list \<Rightarrow> nat \<Rightarrow> 'a" where
  "up_result adr offset e s j =
     (if j = adr (offset * (e + 2) - 1) then s ! j + s ! adr (offset * (e + 1) - 1) else s ! j)"

definition down_result :: "(nat \<Rightarrow> nat) \<Rightarrow> nat \<Rightarrow> nat \<Rightarrow> 'a::plus list \<Rightarrow> nat \<Rightarrow> 'a" where
  "down_result adr offset e s j =
     (let r = adr (offset * (e + 2) - 1)
      in if j = r then s ! r + s ! adr (offset * (e + 1) - 1) else s ! r)"

interpretation up: parallel_phase "up_step adr (Suc offset)" "level_cells adr (Suc offset)" "up_result adr (Suc offset)"
  for adr :: "nat \<Rightarrow> nat" and offset :: nat
  by unfold_locales
     (auto simp: up_step_def level_cells_def up_result_def Let_def nth_list_update)

interpretation down: parallel_phase "down_step adr (Suc offset)" "level_cells adr (Suc offset)" "down_result adr (Suc offset)"
  for adr :: "nat \<Rightarrow> nat" and offset :: nat
  by unfold_locales
     (auto simp: down_step_def level_cells_def down_result_def Let_def nth_list_update)

lemma level_phase:
  assumes "0 < offset" "distinct es"
    "\<forall>e \<in> set es. \<forall>e' \<in> set es. e \<noteq> e' \<longrightarrow> level_cells adr offset e \<inter> level_cells adr offset e' = {}"
    "\<forall>e \<in> set es. \<forall>c \<in> level_cells adr offset e. c < length s"
  shows "\<exists>s'. fold_opt (up_step adr offset) es s = Some s' \<and> length s' = length s
     \<and> (\<forall>e \<in> set es. \<forall>j \<in> level_cells adr offset e. s' ! j = up_result adr offset e s j)
     \<and> (\<forall>j < length s. (\<forall>e \<in> set es. j \<notin> level_cells adr offset e) \<longrightarrow> s' ! j = s ! j)"
    and "\<exists>s'. fold_opt (down_step adr offset) es s = Some s' \<and> length s' = length s
     \<and> (\<forall>e \<in> set es. \<forall>j \<in> level_cells adr offset e. s' ! j = down_result adr offset e s j)
     \<and> (\<forall>j < length s. (\<forall>e \<in> set es. j \<notin> level_cells adr offset e) \<longrightarrow> s' ! j = s ! j)"
  using assms up.phase[of es adr "offset - 1" s] down.phase[of es adr "offset - 1" s] by simp_all

text \<open>The elements of a mini block or of a chunk lie at distinct places of the array.\<close>

definition placed :: "(nat \<Rightarrow> nat) \<Rightarrow> nat \<Rightarrow> 'a list \<Rightarrow> bool" where
  "placed adr n s \<longleftrightarrow> inj_on adr {..<n} \<and> (\<forall>k < n. adr k < length s)"

lemma frame_elems_pairs: "frame_elems (2 * d) 2 = map (\<lambda>i. 2 * i) [0..<d]"
  by (simp add: frame_elems_def divCeil_def mult.commute)

lemma placed_inj: "placed adr n s \<Longrightarrow> i < n \<Longrightarrow> j < n \<Longrightarrow> adr i = adr j \<longleftrightarrow> i = j"
  by (auto simp: placed_def inj_on_def)


lemma level_bounds:
  assumes "0 < offset" "i < (d::nat)"
  shows "offset * (2 * i + 1) - 1 < 2 * offset * d" "offset * (2 * i + 2) - 1 < 2 * offset * d"
proof -
  have "offset * (2 * i + 2) \<le> offset * (2 * d)" using assms(2) by (intro mult_le_mono2) linarith
  moreover have "offset * (2 * i + 1) \<le> offset * (2 * i + 2)" by (intro mult_le_mono2) linarith
  ultimately show "offset * (2 * i + 1) - 1 < 2 * offset * d" "offset * (2 * i + 2) - 1 < 2 * offset * d"
    using assms(1) by (auto simp: algebra_simps)
qed

lemma position_inj: "0 < offset \<Longrightarrow> offset * Suc a - 1 = offset * Suc b - 1 \<longleftrightarrow> a = (b::nat)"
proof
  assume o: "0 < offset" and e: "offset * Suc a - 1 = offset * Suc b - 1"
  have "0 < offset * Suc a" "0 < offset * Suc b" using o by simp_all
  with e have "offset * Suc a = offset * Suc b" by linarith
  then show "a = b" using o by simp
qed simp

text \<open>
  The frame elements of a level touch disjoint cells; the right cells are those whose position,
  counted from 1, is a multiple of twice the offset.
\<close>

lemma level_disjoint:
  assumes "placed adr (2 * offset * d) s" "0 < offset" "mset es = mset (frame_elems (2 * d) 2)"
  shows "distinct es" and "\<forall>e \<in> set es. \<forall>e' \<in> set es. e \<noteq> e' \<longrightarrow> level_cells adr offset e \<inter> level_cells adr offset e' = {}"
    and "\<forall>e \<in> set es. \<forall>c \<in> level_cells adr offset e. c < length s"
proof -
  have set: "set es = (\<lambda>i. 2 * i) ` {..<d}"
    using mset_eq_setD[OF assms(3)] by (simp add: frame_elems_pairs lessThan_atLeast0)
  show "distinct es"
    unfolding mset_eq_imp_distinct_iff[OF assms(3)] by (simp add: frame_elems_pairs distinct_map inj_on_def)
  have pos: "adr (offset * Suc a - 1) = adr (offset * Suc b - 1) \<longleftrightarrow> a = b" if "a < 2 * d" "b < 2 * d" for a b
  proof -
    have "offset * Suc c - 1 < 2 * offset * d" if "c < 2 * d" for c
    proof -
      have "offset * Suc c \<le> offset * (2 * d)" using that by (intro mult_le_mono2) linarith
      then show ?thesis using assms(2) by (simp add: algebra_simps)
    qed
    then show ?thesis using placed_inj[OF assms(1)] that position_inj[OF assms(2)] by simp
  qed
  show "\<forall>e \<in> set es. \<forall>e' \<in> set es. e \<noteq> e' \<longrightarrow> level_cells adr offset e \<inter> level_cells adr offset e' = {}"
  proof (intro ballI impI)
    fix e e' assume "e \<in> set es" "e' \<in> set es" "e \<noteq> e'"
    then obtain i i' where "e = 2 * i" "e' = 2 * i'" "i < d" "i' < d" "i \<noteq> i'" by (auto simp: set)
    then show "level_cells adr offset e \<inter> level_cells adr offset e' = {}"
      using pos[of "2 * i" "2 * i'"] pos[of "2 * i" "2 * i' + 1"] pos[of "2 * i + 1" "2 * i'"]
        pos[of "2 * i + 1" "2 * i' + 1"] by (auto simp: level_cells_def)
  qed
  show "\<forall>e \<in> set es. \<forall>c \<in> level_cells adr offset e. c < length s"
    using assms(1) level_bounds[OF assms(2)] by (auto simp: set level_cells_def placed_def)
qed


lemma right_position:
  assumes "0 < o'" "2 * o' dvd Suc k" "k < 2 * o' * (d::nat)"
  obtains i where "i < d" "k = o' * (2 * i + 2) - 1" "k - o' = o' * (2 * i + 1) - 1"
proof -
  from assms(2) obtain q where q: "Suc k = 2 * o' * q" by (rule dvdE)
  then have "q \<noteq> 0" by (cases q) simp_all
  then obtain i where i: "q = Suc i" by (cases q) simp_all
  have "2 * o' * Suc i \<le> 2 * o' * d" using assms(3) q i by simp
  then have "i < d" using assms(1) unfolding mult_le_cancel1 by simp
  moreover have "k = o' * (2 * i + 2) - 1" using q i by (simp add: algebra_simps)
  moreover have "k - o' = o' * (2 * i + 1) - 1" using calculation(2) assms(1) by (simp add: algebra_simps)
  ultimately show ?thesis by (rule that)
qed

lemma left_position:
  assumes "0 < o'" "o' dvd Suc k" "\<not> 2 * o' dvd Suc k" "k < 2 * o' * (d::nat)"
  obtains i where "i < d" "k = o' * (2 * i + 1) - 1" "k + o' = o' * (2 * i + 2) - 1"
proof -
  from assms(2) obtain q where q: "Suc k = o' * q" by (rule dvdE)
  have "odd q" using assms(3) by (auto simp: q elim!: evenE)
  then obtain i where i: "q = 2 * i + 1" by (rule oddE)
  have "o' * (2 * i + 1) \<le> o' * (2 * d)" using assms(4) q i by (simp add: algebra_simps)
  then have "2 * i + 1 \<le> 2 * d" using assms(1) by (rule_tac mult_le_cancel1[THEN iffD1, rule_format])
  then have "i < d" by simp
  moreover have "k = o' * (2 * i + 1) - 1" using q i by simp
  moreover have "k + o' = o' * (2 * i + 2) - 1" using q i by (simp add: algebra_simps)
  ultimately show ?thesis by (rule that)
qed

lemma level_member:
  assumes "0 < o'" "i < d" "mset es = mset (frame_elems (2 * d) 2)"
  shows "2 * i \<in> set es"
  using mset_eq_setD[OF assms(3)] assms(2) by (simp add: frame_elems_pairs)

lemma level_elem:
  assumes "e \<in> set es" "mset es = mset (frame_elems (2 * d) 2)"
  obtains i where "e = 2 * i" "i < d"
  using mset_eq_setD[OF assms(2)] assms(1) by (auto simp: frame_elems_pairs)

text \<open>What a level does to a cell that no frame element touches, for both sweeps.\<close>

lemma level_untouched:
  assumes "placed adr (2 * o' * d) s" "0 < o'" "mset es = mset (frame_elems (2 * d) 2)"
    and "k < 2 * o' * d" "\<not> o' dvd Suc k"
  shows "\<forall>e \<in> set es. adr k \<notin> level_cells adr o' e"
proof
  fix e assume "e \<in> set es"
  then obtain i where i: "e = 2 * i" "i < d" using assms(3) by (rule level_elem)
  have ne: "k \<noteq> o' * q - 1" if "0 < q" for q
  proof
    assume "k = o' * q - 1"
    moreover have "0 < o' * q" using assms(2) that by simp
    ultimately have "Suc k = o' * q" by linarith
    then show False using assms(5) by simp
  qed
  then show "adr k \<notin> level_cells adr o' e"
    using placed_inj[OF assms(1,4)] level_bounds[OF assms(2) i(2)] ne[of "2 * i + 1"] ne[of "2 * i + 2"]
    unfolding level_cells_def i(1) by simp
qed

lemma level_outside:
  assumes "0 < o'" "mset es = mset (frame_elems (2 * d) 2)" "j \<notin> adr ` {..<2 * o' * d}"
  shows "\<forall>e \<in> set es. j \<notin> level_cells adr o' e"
proof
  fix e assume "e \<in> set es"
  then obtain i where i: "e = 2 * i" "i < d" using assms(2) by (rule level_elem)
  show "j \<notin> level_cells adr o' e"
    using assms(3) level_bounds[OF assms(1) i(2)] by (auto simp: level_cells_def i(1))
qed

lemma up_level:
  assumes "placed adr (2 * o' * d) s" "0 < o'" "mset es = mset (frame_elems (2 * d) 2)"
  shows "\<exists>s'. fold_opt (up_step adr o') es s = Some s' \<and> length s' = length s
     \<and> (\<forall>k < 2 * o' * d. s' ! adr k = (if 2 * o' dvd Suc k then s ! adr k + s ! adr (k - o') else s ! adr k))
     \<and> (\<forall>j < length s. j \<notin> adr ` {..<2 * o' * d} \<longrightarrow> s' ! j = s ! j)"
proof -
  obtain s' where s': "fold_opt (up_step adr o') es s = Some s'" "length s' = length s"
    "\<And>e j. e \<in> set es \<Longrightarrow> j \<in> level_cells adr o' e \<Longrightarrow> s' ! j = up_result adr o' e s j"
    "\<And>j. j < length s \<Longrightarrow> \<forall>e \<in> set es. j \<notin> level_cells adr o' e \<Longrightarrow> s' ! j = s ! j"
    using level_phase(1)[OF assms(2) level_disjoint[OF assms]] by blast
  have "s' ! adr k = (if 2 * o' dvd Suc k then s ! adr k + s ! adr (k - o') else s ! adr k)" if k: "k < 2 * o' * d" for k
  proof (cases "2 * o' dvd Suc k")
    case True
    then obtain i where i: "i < d" "k = o' * (2 * i + 2) - 1" "k - o' = o' * (2 * i + 1) - 1"
      using assms(2) k by (rule_tac right_position)
    then show ?thesis
      using s'(3)[OF level_member[OF assms(2) i(1) assms(3)], of "adr k"] True
      by (simp add: level_cells_def up_result_def)
  next
    case False
    show ?thesis
    proof (cases "o' dvd Suc k")
      case True
      then obtain i where i: "i < d" "k = o' * (2 * i + 1) - 1" "k + o' = o' * (2 * i + 2) - 1"
        using assms(2) k False by (rule_tac left_position)
      then have "adr (o' * (2 * i + 2) - 1) \<noteq> adr k"
        using placed_inj[OF assms(1) _ k] level_bounds[OF assms(2) i(1)] assms(2) by (metis add_cancel_left_right less_not_refl)
      then show ?thesis
        using s'(3)[OF level_member[OF assms(2) i(1) assms(3)], of "adr k"] False i
        by (simp add: level_cells_def up_result_def)
    next
      case no: False
      then show ?thesis
        using s'(4)[OF _ level_untouched[OF assms k no]] assms(1) k False by (simp add: placed_def)
    qed
  qed
  moreover have "\<forall>j < length s. j \<notin> adr ` {..<2 * o' * d} \<longrightarrow> s' ! j = s ! j"
    using s'(4) level_outside[OF assms(2,3)] by simp
  ultimately show ?thesis using s'(1,2) by blast
qed

lemma down_level:
  assumes "placed adr (2 * o' * d) s" "0 < o'" "mset es = mset (frame_elems (2 * d) 2)"
  shows "\<exists>s'. fold_opt (down_step adr o') es s = Some s' \<and> length s' = length s
     \<and> (\<forall>k < 2 * o' * d. s' ! adr k = (if 2 * o' dvd Suc k then s ! adr k + s ! adr (k - o')
          else if o' dvd Suc k then s ! adr (k + o') else s ! adr k))
     \<and> (\<forall>j < length s. j \<notin> adr ` {..<2 * o' * d} \<longrightarrow> s' ! j = s ! j)"
proof -
  obtain s' where s': "fold_opt (down_step adr o') es s = Some s'" "length s' = length s"
    "\<And>e j. e \<in> set es \<Longrightarrow> j \<in> level_cells adr o' e \<Longrightarrow> s' ! j = down_result adr o' e s j"
    "\<And>j. j < length s \<Longrightarrow> \<forall>e \<in> set es. j \<notin> level_cells adr o' e \<Longrightarrow> s' ! j = s ! j"
    using level_phase(2)[OF assms(2) level_disjoint[OF assms]] by blast
  have "s' ! adr k = (if 2 * o' dvd Suc k then s ! adr k + s ! adr (k - o')
      else if o' dvd Suc k then s ! adr (k + o') else s ! adr k)" if k: "k < 2 * o' * d" for k
  proof (cases "2 * o' dvd Suc k")
    case True
    then obtain i where i: "i < d" "k = o' * (2 * i + 2) - 1" "k - o' = o' * (2 * i + 1) - 1"
      using assms(2) k by (rule_tac right_position)
    then show ?thesis
      using s'(3)[OF level_member[OF assms(2) i(1) assms(3)], of "adr k"] True
      by (simp add: level_cells_def down_result_def Let_def)
  next
    case False
    show ?thesis
    proof (cases "o' dvd Suc k")
      case True
      then obtain i where i: "i < d" "k = o' * (2 * i + 1) - 1" "k + o' = o' * (2 * i + 2) - 1"
        using assms(2) k False by (rule_tac left_position)
      then have "adr (o' * (2 * i + 2) - 1) \<noteq> adr k"
        using placed_inj[OF assms(1) _ k] level_bounds[OF assms(2) i(1)] assms(2) by (metis add_cancel_left_right less_not_refl)
      then show ?thesis
        using s'(3)[OF level_member[OF assms(2) i(1) assms(3)], of "adr k"] False True i
        by (simp add: level_cells_def down_result_def Let_def)
    next
      case no: False
      then show ?thesis
        using s'(4)[OF _ level_untouched[OF assms k no]] assms(1) k False by (simp add: placed_def)
    qed
  qed
  moreover have "\<forall>j < length s. j \<notin> adr ` {..<2 * o' * d} \<longrightarrow> s' ! j = s ! j"
    using s'(4) level_outside[OF assms(2,3)] by simp
  ultimately show ?thesis using s'(1,2) by blast
qed


section \<open>The sweeps\<close>

text \<open>
  The number of elements that position \<open>k\<close> sums up after the levels below \<open>t\<close>: the largest
  power of two, at most \<open>2 ^ t\<close>, that divides \<open>k + 1\<close>.
\<close>

primrec span :: "nat \<Rightarrow> nat \<Rightarrow> nat" where
  "span 0 k = 1"
| "span (Suc t) k = (if 2 ^ Suc t dvd Suc k then 2 ^ Suc t else span t k)"

lemma span_dvd: "2 ^ t dvd Suc k \<Longrightarrow> span t k = 2 ^ t"
  by (cases t) auto

definition up_value :: "(nat \<Rightarrow> 'a::comm_monoid_add) \<Rightarrow> nat \<Rightarrow> nat \<Rightarrow> 'a" where
  "up_value x t k = sum x {Suc k - span t k..<Suc k}"

definition down_value :: "(nat \<Rightarrow> 'a::comm_monoid_add) \<Rightarrow> nat \<Rightarrow> nat \<Rightarrow> 'a" where
  "down_value x t k = (if 2 ^ t dvd Suc k then sum x {0..<Suc k - 2 ^ t} else up_value x t k)"

lemma up_value_0 [simp]: "up_value x 0 k = x k"
  by (simp add: up_value_def)

lemma down_value_0 [simp]: "down_value x 0 k = sum x {..<k}"
  by (simp add: down_value_def lessThan_atLeast0)

lemma pow_dvd_Suc:
  assumes "2 ^ Suc t dvd Suc k"
  shows "2 ^ t dvd Suc k" "2 ^ Suc t \<le> Suc k" "Suc (k - 2 ^ t) = Suc k - 2 ^ t" "2 ^ t dvd Suc (k - 2 ^ t)"
    "\<not> 2 ^ Suc t dvd Suc (k - 2 ^ t)"
proof -
  show "2 ^ t dvd Suc k" using assms by (metis dvd_mult_right power_Suc)
  show le: "2 ^ Suc t \<le> Suc k" using assms by (rule dvd_imp_le) simp
  have "1 \<le> (2 ^ t :: nat)" by simp
  then show eq: "Suc (k - 2 ^ t) = Suc k - 2 ^ t" using le unfolding power_Suc by linarith
  show "2 ^ t dvd Suc (k - 2 ^ t)" unfolding eq using \<open>2 ^ t dvd Suc k\<close> by (simp add: dvd_diff_nat)
  show "\<not> 2 ^ Suc t dvd Suc (k - 2 ^ t)"
  proof
    assume "2 ^ Suc t dvd Suc (k - 2 ^ t)"
    then have "2 ^ Suc t dvd Suc k - Suc (k - 2 ^ t)" using assms by (rule_tac dvd_diff_nat)
    moreover have "Suc k - Suc (k - 2 ^ t) = 2 ^ t" unfolding eq using le unfolding power_Suc by linarith
    ultimately show False by (simp add: dvd_imp_le nat_dvd_not_less)
  qed
qed

lemma up_value_Suc:
  "up_value x (Suc t) k = (if 2 * 2 ^ t dvd Suc k then up_value x t k + up_value x t (k - 2 ^ t) else up_value x t k)"
proof (cases "2 ^ Suc t dvd Suc k")
  case True
  note p = pow_dvd_Suc[OF True]
  have "sum x {Suc k - 2 ^ Suc t..<Suc k} = sum x {Suc k - 2 ^ Suc t..<Suc k - 2 ^ t} + sum x {Suc k - 2 ^ t..<Suc k}"
    by (subst sum.atLeastLessThan_concat) auto
  then show ?thesis
    using True p by (simp add: up_value_def span_dvd add.commute mult_2 diff_diff_left del: sum.op_ivl_Suc)
qed (simp add: up_value_def)

lemma down_value_Suc:
  assumes "Suc k \<le> 2 ^ m" "Suc t \<le> m"
  shows "down_value x t k = (if 2 * 2 ^ t dvd Suc k then down_value x (Suc t) k + down_value x (Suc t) (k - 2 ^ t)
           else if 2 ^ t dvd Suc k then down_value x (Suc t) (k + 2 ^ t) else down_value x (Suc t) k)"
proof (cases "2 ^ Suc t dvd Suc k")
  case True
  note p = pow_dvd_Suc[OF True]
  have "sum x {0..<Suc k - 2 ^ t} = sum x {0..<Suc k - 2 ^ Suc t} + sum x {Suc k - 2 ^ Suc t..<Suc k - 2 ^ t}"
    by (subst sum.atLeastLessThan_concat) auto
  then show ?thesis
    using True p by (simp add: down_value_def up_value_def span_dvd mult_2 diff_diff_left del: sum.op_ivl_Suc)
next
  case False
  show ?thesis
  proof (cases "2 ^ t dvd Suc k")
    case True
    then obtain q where q: "Suc k = 2 ^ t * q" by (rule dvdE)
    with False have "odd q" by (auto elim!: evenE)
    then obtain i where i: "q = 2 * i + 1" by (rule oddE)
    have "Suc (k + 2 ^ t) = 2 ^ Suc t * (i + 1)" using q unfolding i by (simp add: algebra_simps)
    then have "2 ^ Suc t dvd Suc (k + 2 ^ t)" by (rule dvdI)
    then show ?thesis using True False by (simp add: down_value_def)
  qed (use False in \<open>simp add: down_value_def up_value_def\<close>)
qed



lemma upsweep_ok:
  assumes "\<And>d xs. mset (order d xs) = mset xs" "t + r = m" "placed adr (2 ^ m) s"
    and "\<forall>k < 2 ^ m. s ! adr k = up_value x t k"
  shows "\<exists>s'. upsweep adr order (2 ^ r div 2) (2 ^ t) s = Some s' \<and> length s' = length s
     \<and> (\<forall>k < 2 ^ m. s' ! adr k = up_value x m k)
     \<and> (\<forall>j < length s. j \<notin> adr ` {..<2 ^ m} \<longrightarrow> s' ! j = s ! j)"
  using assms(2-)
proof (induction r arbitrary: t s)
  case 0
  then show ?case by (simp add: upsweep.simps)
next
  case (Suc r)
  have n: "2 * 2 ^ t * 2 ^ r = (2 ^ m :: nat)" using Suc.prems(1) by (auto simp flip: power_add power_Suc)
  obtain s1 where s1: "fold_opt (up_step adr (2 ^ t)) (order (2 ^ r) (frame_elems (2 * 2 ^ r) 2)) s = Some s1"
    "length s1 = length s"
    "\<forall>k < 2 ^ m. s1 ! adr k = (if 2 * 2 ^ t dvd Suc k then s ! adr k + s ! adr (k - 2 ^ t) else s ! adr k)"
    "\<forall>j < length s. j \<notin> adr ` {..<2 ^ m} \<longrightarrow> s1 ! j = s ! j"
    using up_level[of adr "2 ^ t" "2 ^ r" s "order (2 ^ r) (frame_elems (2 * 2 ^ r) 2)", unfolded n,
        OF Suc.prems(2) zero_less_power[OF zero_less_numeral] assms(1)] by blast
  have "s1 ! adr k = up_value x (Suc t) k" if "k < 2 ^ m" for k
    using s1(3)[rule_format, OF that] Suc.prems(3)[rule_format, OF that]
      Suc.prems(3)[rule_format, OF less_imp_diff_less[OF that], of "2 ^ t"] by (simp only: up_value_Suc)
  moreover have "placed adr (2 ^ m) s1" using Suc.prems(2) s1(2) by (simp add: placed_def)
  ultimately obtain s' where "upsweep adr order (2 ^ r div 2) (2 ^ Suc t) s1 = Some s'" "length s' = length s1"
    "\<forall>k < 2 ^ m. s' ! adr k = up_value x m k" "\<forall>j < length s1. j \<notin> adr ` {..<2 ^ m} \<longrightarrow> s' ! j = s1 ! j"
    using Suc.IH[of "Suc t" s1] Suc.prems(1) by auto
  then show ?case
    using s1(1,2,4) by (subst upsweep.simps) (simp add: mult.commute)
qed

lemma downsweep_ok:
  assumes "\<And>d xs. mset (order d xs) = mset xs" "t + r = m" "placed adr (2 ^ m) s"
    and "\<forall>k < 2 ^ m. s ! adr k = down_value x t k"
  shows "\<exists>s'. downsweep adr order (2 ^ m) (2 ^ r) (2 ^ t div 2) s = Some s' \<and> length s' = length s
     \<and> (\<forall>k < 2 ^ m. s' ! adr k = sum x {..<k})
     \<and> (\<forall>j < length s. j \<notin> adr ` {..<2 ^ m} \<longrightarrow> s' ! j = s ! j)"
  using assms(2-)
proof (induction t arbitrary: r s)
  case 0
  then show ?case by (simp add: downsweep.simps)
next
  case (Suc t)
  have n: "2 * 2 ^ t * 2 ^ r = (2 ^ m :: nat)" using Suc.prems(1) by (auto simp flip: power_add power_Suc)
  obtain s1 where s1: "fold_opt (down_step adr (2 ^ t)) (order (2 ^ r) (frame_elems (2 * 2 ^ r) 2)) s = Some s1"
    "length s1 = length s"
    "\<forall>k < 2 ^ m. s1 ! adr k = (if 2 * 2 ^ t dvd Suc k then s ! adr k + s ! adr (k - 2 ^ t)
        else if 2 ^ t dvd Suc k then s ! adr (k + 2 ^ t) else s ! adr k)"
    "\<forall>j < length s. j \<notin> adr ` {..<2 ^ m} \<longrightarrow> s1 ! j = s ! j"
    using down_level[of adr "2 ^ t" "2 ^ r" s "order (2 ^ r) (frame_elems (2 * 2 ^ r) 2)", unfolded n,
        OF Suc.prems(2) zero_less_power[OF zero_less_numeral] assms(1)] by blast
  have "s1 ! adr k = down_value x t k" if k: "k < 2 ^ m" for k
  proof -
    have "k + 2 ^ t < 2 ^ m" if odd: "2 ^ t dvd Suc k" "\<not> 2 * 2 ^ t dvd Suc k"
    proof -
      obtain i where "i < 2 ^ r" "k + 2 ^ t = 2 ^ t * (2 * i + 2) - 1"
        by (rule left_position[of "2 ^ t" k "2 ^ r", unfolded n, OF zero_less_power[OF zero_less_numeral] odd k])
      then show ?thesis using level_bounds(2)[of "2 ^ t" i "2 ^ r"] unfolding n by simp
    qed
    then show ?thesis
      using s1(3) Suc.prems k down_value_Suc[of k m t x] by (simp add: less_imp_diff_less)
  qed
  moreover have "placed adr (2 ^ m) s1" using Suc.prems(2) s1(2) by (simp add: placed_def)
  ultimately obtain s' where s': "downsweep adr order (2 ^ m) (2 ^ Suc r) (2 ^ t div 2) s1 = Some s'" "length s' = length s1"
    "\<forall>k < 2 ^ m. s' ! adr k = sum x {..<k}" "\<forall>j < length s1. j \<notin> adr ` {..<2 ^ m} \<longrightarrow> s' ! j = s1 ! j"
    using Suc.IH[of "Suc r" s1] Suc.prems(1) by auto
  have "(2 :: nat) ^ r < 2 ^ m" using Suc.prems(1) by (intro power_strict_increasing) auto
  then show ?case
    using s' s1(1,2,4) by (subst downsweep.simps) (simp add: mult.commute)
qed


lemma span_full: "2 ^ m = Suc k \<Longrightarrow> span m k = Suc k"
  by (metis dvd_refl span_dvd)

lemma last_dvd: "k < 2 ^ m \<Longrightarrow> 2 ^ m dvd Suc k \<longleftrightarrow> k = 2 ^ m - 1"
  by (auto dest: dvd_imp_le)

text \<open>
  Both sweeps together, as the mini block and the chunk run them: afterwards every cell holds the
  sum of the cells before it, and the sum of all was on top of the tree between the sweeps.
\<close>

lemma sweeps_ok:
  fixes s :: "'a::comm_monoid_add list"
  assumes "\<And>d xs. mset (order d xs) = mset xs" "\<And>d xs. mset (order' d xs) = mset xs" "placed adr (2 ^ m) s"
  obtains u v where "upsweep adr order (2 ^ m div 2) 1 s = Some u" "length u = length s"
    "adr (2 ^ m - 1) < length u" "u ! adr (2 ^ m - 1) = (\<Sum>k < 2 ^ m. s ! adr k)"
    "downsweep adr order' (2 ^ m) 1 (2 ^ m div 2) (u[adr (2 ^ m - 1) := 0]) = Some v" "length v = length s"
    "\<forall>k < 2 ^ m. v ! adr k = (\<Sum>i < k. s ! adr i)" "\<forall>j < length s. j \<notin> adr ` {..<2 ^ m} \<longrightarrow> v ! j = s ! j"
proof -
  let ?x = "\<lambda>k. s ! adr k" and ?top = "2 ^ m - 1 :: nat"
  have "\<forall>k < 2 ^ m. s ! adr k = up_value ?x 0 k" by simp
  from upsweep_ok[of order 0 m m, OF assms(1) _ assms(3) this]
  obtain u where u: "upsweep adr order (2 ^ m div 2) 1 s = Some u" "length u = length s"
    "\<forall>k < 2 ^ m. u ! adr k = up_value ?x m k" "\<forall>j < length s. j \<notin> adr ` {..<2 ^ m} \<longrightarrow> u ! j = s ! j" by auto
  have pu: "placed adr (2 ^ m) (u[adr ?top := 0])" and tu: "adr ?top < length u"
    using assms(3) u(2) by (simp_all add: placed_def)
  have top: "u ! adr ?top = sum ?x {..<2 ^ m}"
    using u(3) span_full[of m ?top] by (simp add: up_value_def lessThan_atLeast0 del: sum.op_ivl_Suc)
  have "u[adr ?top := 0] ! adr k = down_value ?x m k" if k: "k < 2 ^ m" for k
  proof (cases "k = ?top")
    case True
    then show ?thesis using tu by (simp add: down_value_def)
  next
    case False
    then have "adr k \<noteq> adr ?top" using placed_inj[OF assms(3) k, of ?top] by simp
    then show ?thesis using u(3) k False last_dvd[OF k] by (simp add: down_value_def)
  qed
  from downsweep_ok[of order' m 0 m, OF assms(2) _ pu, of ?x] this
  obtain v where v: "downsweep adr order' (2 ^ m) 1 (2 ^ m div 2) (u[adr ?top := 0]) = Some v"
    "length v = length u" "\<forall>k < 2 ^ m. v ! adr k = sum ?x {..<k}"
    "\<forall>j < length u. j \<notin> adr ` {..<2 ^ m} \<longrightarrow> v ! j = u[adr ?top := 0] ! j" by auto
  have "v ! j = s ! j" if "j < length s" "j \<notin> adr ` {..<2 ^ m}" for j
  proof -
    have "j \<noteq> adr ?top" using that(2) by (auto simp: image_iff)
    then show ?thesis using v(4) u(2,4) that by simp
  qed
  then show ?thesis
    using that[OF u(1,2) tu top v(1) _ v(3)] v(2) u(2) by simp
qed

section \<open>The mini block\<close>

lemma scanMiniBlock_value:
  fixes block :: "'a::comm_monoid_add list"
  assumes "base + 2 ^ m \<le> length block"
  shows "scanMiniBlock base (2 ^ m) block =
    Some (take base block @ map (\<lambda>k. \<Sum>i < k. block ! (base + i)) [0..<2 ^ m] @ drop (base + 2 ^ m) block,
          \<Sum>i < 2 ^ m. block ! (base + i))"
proof -
  have P: "placed ((+) base) (2 ^ m) block" using assms by (simp add: placed_def)
  obtain u v where uv: "upsweep ((+) base) (\<lambda>_ xs. xs) (2 ^ m div 2) 1 block = Some u"
    "base + (2 ^ m - 1) < length u" "u ! (base + (2 ^ m - 1)) = (\<Sum>i < 2 ^ m. block ! (base + i))"
    "downsweep ((+) base) (\<lambda>_ xs. xs) (2 ^ m) 1 (2 ^ m div 2) (u[base + (2 ^ m - 1) := 0]) = Some v"
    "length v = length block" "\<forall>k < 2 ^ m. v ! (base + k) = (\<Sum>i < k. block ! (base + i))"
    "\<forall>j < length block. j \<notin> (+) base ` {..<2 ^ m} \<longrightarrow> v ! j = block ! j"
    by (rule sweeps_ok[of "\<lambda>_ xs. xs" "\<lambda>_ xs. xs", OF refl refl P]) (rule that, assumption+)
  have "v = take base block @ map (\<lambda>k. \<Sum>i < k. block ! (base + i)) [0..<2 ^ m] @ drop (base + 2 ^ m) block"
  proof (rule nth_equalityI)
    fix j assume j: "j < length v"
    show "v ! j = (take base block @ map (\<lambda>k. \<Sum>i < k. block ! (base + i)) [0..<2 ^ m] @ drop (base + 2 ^ m) block) ! j"
    proof (cases "j \<in> (+) base ` {..<2 ^ m}")
      case True
      then obtain k where "j = base + k" "k < 2 ^ m" by auto
      then show ?thesis using uv(6) assms by (simp add: nth_append)
    next
      case False
      have "j \<in> (+) base ` {..<2 ^ m}" if "base \<le> j" "j < base + 2 ^ m"
        using that by (intro image_eqI[of _ _ "j - base"]) simp_all
      with False have "j < base \<or> base + 2 ^ m \<le> j" by linarith
      moreover have "v ! j = block ! j" using uv(5,7) False j by simp
      moreover have "base + (2 ^ m + (j - (base + 2 ^ m))) = j \<and> \<not> j - base < 2 ^ m" if "base + 2 ^ m \<le> j" using that by simp
      ultimately show ?thesis using j uv(5) assms by (elim disjE) (simp_all add: nth_append)
    qed
  qed (use uv(5) assms in simp)
  then show ?thesis
    using uv(1-4) by (simp add: scanMiniBlock_def Let_def)
qed

lemma addIncrements_value:
  assumes "base + extent \<le> length block"
  shows "addIncrements base blockSum extent block =
    Some (take base block @ map (\<lambda>i. block ! (base + i) + blockSum) [0..<extent] @ drop (base + extent) block)"
proof -
  let ?P = "\<lambda>k s. s = take base block @ map (\<lambda>i. block ! (base + i) + blockSum) [0..<k] @ drop (base + k) block"
  have "\<exists>s'. addIncrements base blockSum extent block = Some s' \<and> ?P (length [0..<extent]) s'"
    unfolding addIncrements_def
  proof (rule fold_opt_Some[where P = ?P])
    fix i s assume i: "i < length [0..<extent]" and s: "?P i s"
    then have "drop (base + i) block = block ! (base + i) # drop (base + Suc i) block"
      using assms by (simp add: Cons_nth_drop_Suc)
    then show "\<exists>s'. Option.bind (arr_get s (base + [0..<extent] ! i)) (\<lambda>v. arr_set s (base + [0..<extent] ! i) (v + blockSum)) = Some s' \<and> ?P (Suc i) s'"
      using i s assms by (simp add: list_update_append nth_append)
  qed simp
  then show ?thesis by simp
qed


text \<open>
  Scanning a mini block of a power of two elements never leaves the array, replaces
  the elements of the block by their exclusive prefix sums, leaves everything before and behind the
  block as it was, and returns the sum of the block, for every commutative monoid.
\<close>

theorem scanMiniBlock_exclusive:
  fixes block :: "'a::comm_monoid_add list"
  assumes "base + 2 ^ m \<le> length block"
  shows "scanMiniBlock base (2 ^ m) block =
    Some (take base block @ map (\<lambda>k. \<Sum>i < k. block ! (base + i)) [0..<2 ^ m] @ drop (base + 2 ^ m) block,
          \<Sum>i < 2 ^ m. block ! (base + i))"
  using assms by (rule scanMiniBlock_value)

lemma scanMiniBlock_exclusive_witness:
  "scanMiniBlock 1 4 [9, 3, 1, 7, 0, 5 :: nat] = Some ([9, 0, 3, 4, 11, 5], 11)"
  using scanMiniBlock_exclusive[of 1 2 "[9, 3, 1, 7, 0, 5 :: nat]"]
  by (simp add: numeral_eq_Suc upt_rec)

text \<open>
  Three elements are not a power of two: the sweep up misses the last element, and in the last
  level of the sweep down the offset has become 0, so that the index wraps and leaves the array.
\<close>

lemma scanMiniBlock_three: "scanMiniBlock 0 3 [1, 2, 4 :: nat] = None"
  by code_simp

text \<open>
  Property C38. The sweeps over the shared memory of a block give the same prefix sums whatever
  the order in which the threads run the frame elements of each level: every schedule succeeds,
  the top of the tree holds the total between the sweeps, and no cell outside the placed
  elements changes.
\<close>

theorem sweeps_any_order:
  fixes s :: "'a::comm_monoid_add list"
  assumes "\<And>d xs. mset (up_order d xs) = mset xs" "\<And>d xs. mset (down_order d xs) = mset xs"
    and "inj_on adr {..<2 ^ m}" "\<forall>k < 2 ^ m. adr k < length s"
  shows "\<exists>u v. upsweep adr up_order (2 ^ m div 2) 1 s = Some u
    \<and> u ! adr (2 ^ m - 1) = (\<Sum>k < 2 ^ m. s ! adr k)
    \<and> downsweep adr down_order (2 ^ m) 1 (2 ^ m div 2) (u[adr (2 ^ m - 1) := 0]) = Some v
    \<and> (\<forall>k < 2 ^ m. v ! adr k = (\<Sum>i < k. s ! adr i))
    \<and> (\<forall>j < length s. j \<notin> adr ` {..<2 ^ m} \<longrightarrow> v ! j = s ! j)"
proof -
  have "placed adr (2 ^ m) s" using assms(3,4) by (simp add: placed_def)
  then show ?thesis
    by (rule sweeps_ok[of up_order down_order, OF assms(1,2)]) blast
qed

lemma sweeps_any_order_witness:
  "\<exists>u v. upsweep (conflictFreeAccess 4) (\<lambda>_. rev) (2 ^ 3 div 2) 1 [1, 2, 3, 4, 0, 5, 6, 7, 8 :: nat] = Some u
    \<and> u ! conflictFreeAccess 4 (2 ^ 3 - 1) = 36
    \<and> downsweep (conflictFreeAccess 4) (\<lambda>_. rev) (2 ^ 3) 1 (2 ^ 3 div 2) (u[conflictFreeAccess 4 (2 ^ 3 - 1) := 0]) = Some v
    \<and> v ! conflictFreeAccess 4 7 = 28"
proof -
  define s :: "nat list" where "s = [1, 2, 3, 4, 0, 5, 6, 7, 8]"
  have inj: "inj_on (conflictFreeAccess 4) {..<2 ^ 3}"
    by (auto simp: inj_on_def conflictFreeAccess_def)
  have bound: "\<forall>k < 2 ^ 3. conflictFreeAccess 4 k < length s"
    unfolding s_def by (simp add: conflictFreeAccess_def) presburger
  have sums: "(\<Sum>k < 2 ^ 3. s ! conflictFreeAccess 4 k) = 36" "(\<Sum>k < 7. s ! conflictFreeAccess 4 k) = 28"
    unfolding s_def by code_simp+
  have "(7 :: nat) < 2 ^ 3" by simp
  with sweeps_any_order[of "\<lambda>_. rev" "\<lambda>_. rev", OF mset_rev mset_rev inj bound] sums
  show ?thesis unfolding s_def[symmetric] by metis
qed

end
