(* ===== verification/Scan.thy ===== *)
theory Scan
  imports Launch Sweep
begin

text \<open>
  Prefix sums (\<^verbatim>\<open>onHost/algo/internal/scan.hpp\<close>): the in-place scan of a mini block, the kernel that
  scans the chunks of the input with one block each, the kernel that adds the scanned chunk sums,
  the size of the intermediate buffer and the recursion of the host. Threads of a block run in
  phases between barriers; a schedule gives the order of the threads in every phase and is
  universally quantified in the theorems. Every access of an array is checked: \<open>None\<close> is an access
  out of bounds or a failing assertion.
\<close>

datatype scanType = exclusiveScan | inclusiveScan

definition chunkSize :: nat where "chunkSize = 2048"

datatype scanDevice = nvidiaGpu | amdGpu | intelGpu | cpuDevice

definition maximumMiniBlockSize :: "scanDevice \<Rightarrow> nat \<Rightarrow> nat" where
  "maximumMiniBlockSize kind sizeofData =
     (case kind of nvidiaGpu \<Rightarrow> 8 | amdGpu \<Rightarrow> 8 | intelGpu \<Rightarrow> 8 | cpuDevice \<Rightarrow> 32768 div sizeofData)"

section \<open>The chunk kernel\<close>

record scanCfg =
  sc_elsPerThread :: nat
  sc_chunkExtent :: nat
  sc_miniBlockSize :: nat
  sc_warpSize :: nat

definition scanCfg :: "scanDevice \<Rightarrow> nat \<Rightarrow> nat \<Rightarrow> nat \<Rightarrow> nat \<Rightarrow> scanCfg" where
  "scanCfg kind warpSize sizeofData largeChunkExtent numThreadsPerBlock =
     (let elsPerThread = largeChunkExtent div numThreadsPerBlock in
      \<lparr>sc_elsPerThread = elsPerThread, sc_chunkExtent = elsPerThread * numThreadsPerBlock,
       sc_miniBlockSize = min (maximumMiniBlockSize kind sizeofData) elsPerThread, sc_warpSize = warpSize\<rparr>)"

definition lLocalArrayLength :: "scanCfg \<Rightarrow> nat" where
  "lLocalArrayLength cfg = sc_elsPerThread cfg div sc_miniBlockSize cfg * sc_miniBlockSize cfg"

definition miniBlocksPerChunk :: "scanCfg \<Rightarrow> nat" where
  "miniBlocksPerChunk cfg = sc_chunkExtent cfg div sc_miniBlockSize cfg"

definition conflictFreeAdr :: "scanCfg \<Rightarrow> nat" where
  "conflictFreeAdr cfg = conflictFreeAccess (sc_warpSize cfg) (miniBlocksPerChunk cfg - 1) + 1"

text \<open>
  The memory of a block: the register array of the thread that handles a frame element, the
  shared memory, and the global arrays. In an in-place scan the input is the output array.
\<close>

record 'a scanMem =
  regMem :: "nat \<Rightarrow> 'a list"
  tmp :: "'a list"
  outputVec :: "'a list"
  blockSums :: "'a list"

definition inputVec :: "'a list option \<Rightarrow> 'a scanMem \<Rightarrow> 'a list" where
  "inputVec src st = (case src of Some xs \<Rightarrow> xs | None \<Rightarrow> outputVec st)"

datatype scanPhase = LoadPhase | UpPhase nat | SavePhase | DownPhase nat | StorePhase

text \<open>Whether a frame element is handled element by element, or with SIMD packs of four.\<close>

definition scalarFrame :: "scanCfg \<Rightarrow> nat \<Rightarrow> nat \<Rightarrow> nat \<Rightarrow> bool" where
  "scalarFrame cfg numElements numChunks chunkIdx =
     (let validElementsInLastFrame = (numElements - 1) mod sc_chunkExtent cfg + 1;
          lastFrameFull = (validElementsInLastFrame = sc_chunkExtent cfg);
          isLastFrame = (chunkIdx = numChunks - 1)
      in (\<not> lastFrameFull \<and> isLastFrame) \<or> sc_elsPerThread cfg mod 4 \<noteq> 0)"

definition loadElems :: "scanCfg \<Rightarrow> bool \<Rightarrow> 'a::zero list \<Rightarrow> nat \<Rightarrow> nat \<Rightarrow> 'a list \<Rightarrow> 'a list option" where
  "loadElems cfg scalar inp numElements frameBegin reg =
     (let E = sc_elsPerThread cfg in
      if scalar
      then fold_opt (\<lambda>i reg.
             if frameBegin + i < numElements
             then Option.bind (arr_get inp (frameBegin + i)) (arr_set reg i)
             else arr_set reg i 0) [0..<E] reg
      else fold_opt (\<lambda>i reg. fold_opt (\<lambda>j reg.
             Option.bind (arr_get inp (frameBegin + i + j)) (arr_set reg (i + j))) [0..<4] reg)
             (frame_elems E 4) reg)"

definition scanMiniBlocks :: "scanCfg \<Rightarrow> nat \<Rightarrow> 'a::{plus,zero} list \<times> 'a list \<Rightarrow> ('a list \<times> 'a list) option" where
  "scanMiniBlocks cfg frameElem =
     fold_opt (\<lambda>miniBlockOffset (reg, tmp).
         Option.bind (scanMiniBlock miniBlockOffset (sc_miniBlockSize cfg) reg) (\<lambda>(reg, miniBlockSum).
           map_option (Pair reg) (arr_set tmp
             (conflictFreeAccess (sc_warpSize cfg) ((frameElem + miniBlockOffset) div sc_miniBlockSize cfg)) miniBlockSum)))
       (frame_elems (sc_elsPerThread cfg) (sc_miniBlockSize cfg))"


text \<open>Loading and scanning the elements of one frame element; \<open>junk\<close> is the value of uninitialised memory.\<close>

definition loadThread :: "scanCfg \<Rightarrow> bool \<Rightarrow> nat \<Rightarrow> nat \<Rightarrow> 'a::{plus,zero} list option \<Rightarrow> 'a \<Rightarrow> nat \<Rightarrow> 'a scanMem
    \<Rightarrow> 'a scanMem option" where
  "loadThread cfg scalar numElements frameOffset src junk frameElem st =
     Option.bind (loadElems cfg scalar (inputVec src st) numElements (frameOffset + frameElem)
         (replicate (lLocalArrayLength cfg) junk)) (\<lambda>reg.
       map_option (\<lambda>(reg, t). st\<lparr>regMem := (regMem st)(frameElem := reg), tmp := t\<rparr>)
         (scanMiniBlocks cfg frameElem (reg, tmp st)))"

text \<open>The block saves the sum of the chunk and clears it, before the sweep down.\<close>

definition saveBlockSum :: "scanCfg \<Rightarrow> bool \<Rightarrow> nat \<Rightarrow> 'a::zero scanMem \<Rightarrow> 'a scanMem option" where
  "saveBlockSum cfg withSums chunkIdx st =
     (let top = conflictFreeAccess (sc_warpSize cfg) (miniBlocksPerChunk cfg - 1) in
      Option.bind (if withSums
          then Option.bind (arr_get (tmp st) top) (\<lambda>s.
            map_option (\<lambda>sums. st\<lparr>blockSums := sums\<rparr>) (arr_set (blockSums st) chunkIdx s))
          else Some st) (\<lambda>st.
        map_option (\<lambda>t. st\<lparr>tmp := t\<rparr>) (arr_set (tmp st) top 0)))"

definition addBlockSums :: "scanCfg \<Rightarrow> nat \<Rightarrow> nat \<Rightarrow> 'a::{plus,zero} list \<Rightarrow> nat \<Rightarrow> 'a list \<Rightarrow> 'a list option" where
  "addBlockSums cfg numElements frameOffset t frameElem =
     fold_opt (\<lambda>miniBlockOffset reg.
         Option.bind (if frameOffset + frameElem + miniBlockOffset < numElements
             then arr_get t (conflictFreeAccess (sc_warpSize cfg) ((frameElem + miniBlockOffset) div sc_miniBlockSize cfg))
             else Some 0) (\<lambda>blockSum.
           addIncrements miniBlockOffset blockSum (sc_miniBlockSize cfg) reg))
       (frame_elems (sc_elsPerThread cfg) (sc_miniBlockSize cfg))"

text \<open>The value written for element \<open>i\<close>, and the two ways to write the elements of a frame element.\<close>

definition scanValue :: "scanType \<Rightarrow> 'a::plus list \<Rightarrow> nat \<Rightarrow> 'a list \<Rightarrow> nat \<Rightarrow> 'a option" where
  "scanValue ty inp pos reg i =
     (case ty of
        exclusiveScan \<Rightarrow> arr_get reg i
      | inclusiveScan \<Rightarrow> Option.bind (arr_get inp pos) (\<lambda>x. map_option ((+) x) (arr_get reg i)))"

definition storeElems :: "scanCfg \<Rightarrow> scanType \<Rightarrow> bool \<Rightarrow> nat \<Rightarrow> 'a::plus list option \<Rightarrow> nat \<Rightarrow> 'a list \<Rightarrow> 'a list \<Rightarrow> 'a list option" where
  "storeElems cfg ty scalar numElements src frameBegin reg out =
     (let E = sc_elsPerThread cfg in
      if scalar
      then fold_opt (\<lambda>i out.
             if frameBegin + i < numElements
             then Option.bind (scanValue ty (case src of Some xs \<Rightarrow> xs | None \<Rightarrow> out) (frameBegin + i) reg i)
                    (arr_set out (frameBegin + i))
             else Some out) [0..<E] out
      else fold_opt (\<lambda>i out. let inp = (case src of Some xs \<Rightarrow> xs | None \<Rightarrow> out) in
             fold_opt (\<lambda>j out. Option.bind (scanValue ty inp (frameBegin + i + j) reg (i + j))
                 (arr_set out (frameBegin + i + j))) [0..<4] out)
             (frame_elems E 4) out)"

definition storeThread :: "scanCfg \<Rightarrow> scanType \<Rightarrow> bool \<Rightarrow> nat \<Rightarrow> nat \<Rightarrow> 'a::{plus,zero} list option \<Rightarrow> nat \<Rightarrow> 'a scanMem
    \<Rightarrow> 'a scanMem option" where
  "storeThread cfg ty scalar numElements frameOffset src frameElem st =
     Option.bind (addBlockSums cfg numElements frameOffset (tmp st) frameElem (regMem st frameElem)) (\<lambda>reg.
       map_option (\<lambda>out. st\<lparr>regMem := (regMem st)(frameElem := reg), outputVec := out\<rparr>)
         (storeElems cfg ty scalar numElements src (frameOffset + frameElem) reg (outputVec st)))"

text \<open>One chunk by one block. The contents of the shared memory are whatever was there before.\<close>

definition scanChunk :: "scanCfg \<Rightarrow> scanType \<Rightarrow> bool \<Rightarrow> nat \<Rightarrow> nat \<Rightarrow> 'a::{plus,zero} list option \<Rightarrow> 'a
    \<Rightarrow> (scanPhase \<Rightarrow> nat list \<Rightarrow> nat list) \<Rightarrow> nat \<Rightarrow> 'a scanMem \<Rightarrow> 'a scanMem option" where
  "scanChunk cfg ty withSums numElements numChunks src junk order chunkIdx st =
     (let scalar = scalarFrame cfg numElements numChunks chunkIdx;
          frameOffset = sc_chunkExtent cfg * chunkIdx;
          elems = frame_elems (sc_chunkExtent cfg) (sc_elsPerThread cfg);
          adr = conflictFreeAccess (sc_warpSize cfg); n = miniBlocksPerChunk cfg
      in Option.bind (fold_opt (loadThread cfg scalar numElements frameOffset src junk) (order LoadPhase elems) st) (\<lambda>st.
         Option.bind (upsweep adr (\<lambda>d. order (UpPhase d)) (n div 2) 1 (tmp st)) (\<lambda>t.
         Option.bind (saveBlockSum cfg withSums chunkIdx (st\<lparr>tmp := t\<rparr>)) (\<lambda>st.
         Option.bind (downsweep adr (\<lambda>d. order (DownPhase d)) n 1 (n div 2) (tmp st)) (\<lambda>t.
           fold_opt (storeThread cfg ty scalar numElements frameOffset src) (order StorePhase elems) (st\<lparr>tmp := t\<rparr>))))))"

text \<open>
  A run of the kernels: the device, the launch, what uninitialised registers and shared memory
  hold, and the order in which threads, blocks and functor calls execute.
\<close>

record 'a scanRun =
  run_kind :: scanDevice
  run_warpSize :: nat
  run_sizeofData :: nat
  run_blocks :: "nat \<Rightarrow> nat"
  run_threads :: nat
  run_simd :: simdPackConfig
  run_api :: api
  run_deviceKind :: deviceKind
  run_junk :: 'a
  run_shared :: "nat \<Rightarrow> 'a list"
  run_order :: "nat \<Rightarrow> scanPhase \<Rightarrow> nat list \<Rightarrow> nat list"
  run_chunkOrder :: "nat list \<Rightarrow> nat list"
  run_callOrder :: "simd_call list \<Rightarrow> simd_call list"

definition run_cfg :: "'a scanRun \<Rightarrow> scanCfg" where
  "run_cfg r = scanCfg (run_kind r) (run_warpSize r) (run_sizeofData r) chunkSize (run_threads r)"

definition scanBlocksKernel :: "'a::{plus,zero} scanRun \<Rightarrow> scanType \<Rightarrow> bool \<Rightarrow> nat \<Rightarrow> nat \<Rightarrow> 'a list option
    \<Rightarrow> 'a list \<Rightarrow> 'a list \<Rightarrow> ('a list \<times> 'a list) option" where
  "scanBlocksKernel r ty withSums numElements numChunks src out sums =
     map_option (\<lambda>st. (outputVec st, blockSums st))
       (fold_opt (\<lambda>chunkIdx st. scanChunk (run_cfg r) ty withSums numElements numChunks src (run_junk r)
             (run_order r chunkIdx) chunkIdx (st\<lparr>tmp := run_shared r chunkIdx\<rparr>))
         (run_chunkOrder r [0..<numChunks])
         \<lparr>regMem = (\<lambda>_. []), tmp = [], outputVec = out, blockSums = sums\<rparr>)"

text \<open>Adding the scanned sums: the functor adds one sum to the pack its \<^verbatim>\<open>SimdPtr\<close> points to.\<close>

definition addIncrementsCall :: "nat \<Rightarrow> 'a::plus list \<Rightarrow> simd_call \<Rightarrow> 'a list \<Rightarrow> 'a list option" where
  "addIncrementsCall chunkExtent sums call out =
     (let idx = hd (fst call) in
      Option.bind (arr_get sums (idx div chunkExtent)) (\<lambda>s.
        fold_opt (\<lambda>j out. Option.bind (arr_get out (idx + j)) (\<lambda>v. arr_set out (idx + j) (v + s))) [0..<snd call] out))"

definition scanAddIncrementsKernel :: "'a::plus scanRun \<Rightarrow> nat \<Rightarrow> nat \<Rightarrow> 'a list \<Rightarrow> 'a list \<Rightarrow> 'a list option" where
  "scanAddIncrementsKernel r numChunks numElements sums out =
     (let B = [run_blocks r numChunks]; T = [run_threads r];
          calls = concat (map (\<lambda>(b, t). the (concurrent (run_simd r) Flat Optimized
              (launch_acc (run_api r) (run_deviceKind r) (run_warpSize r) B T b t) worker_threadsInGrid [numElements]))
            (List.product (all_idx B) (all_idx T)))
      in fold_opt (addIncrementsCall (sc_chunkExtent (run_cfg r)) sums) (run_callOrder r calls) out)"

section \<open>The host\<close>

lemma divCeil_chunkSize_less: "1 < n \<Longrightarrow> divCeil n chunkSize < n"
  by (simp add: divCeil_def chunkSize_def)

function scanBufferLoop :: "nat \<Rightarrow> nat \<Rightarrow> nat" where
  "scanBufferLoop elements bufSize =
     (if elements > 1 then scanBufferLoop (divCeil elements chunkSize) (bufSize + elements) else bufSize)"
  by pat_completeness auto

termination by (relation "measure fst") (auto intro: divCeil_chunkSize_less)

declare scanBufferLoop.simps [simp del]

definition scanBufferSize :: "nat \<Rightarrow> nat \<Rightarrow> nat" where
  "scanBufferSize sizeofData extent = scanBufferLoop (divCeil extent chunkSize) 0 * sizeofData"

text \<open>
  The recursion of the host. The buffer is given by its size in bytes; its first \<open>numChunks\<close>
  elements become the increments, the rest is handed down. \<open>src\<close> is \<open>None\<close> for an in-place scan.
\<close>

function scan :: "'a::{plus,zero} scanRun \<Rightarrow> scanType \<Rightarrow> nat \<Rightarrow> nat \<Rightarrow> 'a list option \<Rightarrow> 'a list \<Rightarrow> 'a list option" where
  "scan r ty bufferBytes numElements src out =
     (let numChunks = divCeil numElements chunkSize in
      if numChunks > 1
      then let bufSizeBytes = numChunks * run_sizeofData r in
        if bufferBytes < bufSizeBytes then None
        else Option.bind (scanBlocksKernel r ty True numElements numChunks src out (replicate numChunks (run_junk r)))
          (\<lambda>(out, increments).
            Option.bind (scan r exclusiveScan (bufferBytes - bufSizeBytes) numChunks None increments)
              (\<lambda>increments. scanAddIncrementsKernel r numChunks numElements increments out))
      else map_option fst (scanBlocksKernel r ty False numElements numChunks src out []))"
  by pat_completeness auto
termination
  by (relation "measure (\<lambda>(_, _, _, n, _). n)") (auto intro!: divCeil_chunkSize_less simp: divCeil_def chunkSize_def)

declare scan.simps [simp del]

definition scan_alloc :: "'a::{plus,zero} scanRun \<Rightarrow> scanType \<Rightarrow> nat \<Rightarrow> 'a list option \<Rightarrow> 'a list \<Rightarrow> 'a list option" where
  "scan_alloc r ty numElements src out =
     scan r ty (scanBufferSize (run_sizeofData r) numElements) numElements src out"


section \<open>Well-formed configurations\<close>

text \<open>
  The sweeps need powers of two: the mini block divides the elements of a thread, which divide the
  chunk. The configurations of all GPUs are well formed; on a CPU the size of the element type must
  be a power of two.
\<close>

definition wf_cfg :: "scanCfg \<Rightarrow> bool" where
  "wf_cfg cfg \<longleftrightarrow> 0 < sc_warpSize cfg \<and> (\<exists>a b t. sc_miniBlockSize cfg = 2 ^ a \<and> sc_elsPerThread cfg = 2 ^ a * 2 ^ b
     \<and> sc_chunkExtent cfg = 2 ^ a * 2 ^ b * 2 ^ t)"

lemma divCeil_self_mult: "0 < W \<Longrightarrow> divCeil (W * q) W = (q :: nat)"
  using divCeil_mult[of W q] by (simp add: mult.commute)

lemma frame_elems_mult: "0 < W \<Longrightarrow> frame_elems (W * q) W = map (\<lambda>i. W * i) [0..<q]"
  by (simp add: frame_elems_def divCeil_self_mult mult.commute)

lemma wf_cfgE:
  assumes "wf_cfg cfg"
  obtains q m t where "0 < sc_miniBlockSize cfg" "0 < q" "sc_elsPerThread cfg = sc_miniBlockSize cfg * q"
    "sc_chunkExtent cfg = sc_elsPerThread cfg * t" "miniBlocksPerChunk cfg = 2 ^ m" "2 ^ m = q * t"
    "lLocalArrayLength cfg = sc_elsPerThread cfg" "0 < sc_warpSize cfg" "0 < t" "\<exists>a. sc_miniBlockSize cfg = 2 ^ a"
proof -
  from assms obtain a b t where abt: "sc_miniBlockSize cfg = 2 ^ a" "sc_elsPerThread cfg = 2 ^ a * 2 ^ b"
    "sc_chunkExtent cfg = 2 ^ a * 2 ^ b * 2 ^ t" "0 < sc_warpSize cfg" by (auto simp: wf_cfg_def)
  show ?thesis
    by (rule that[of "2 ^ b" "2 ^ t" "b + t"]) (use abt in \<open>auto simp: miniBlocksPerChunk_def lLocalArrayLength_def power_add\<close>)
qed

lemma pow2_dvd_pow2: "(a :: nat) dvd 2 ^ n \<Longrightarrow> \<exists>k \<le> n. a = 2 ^ k"
proof (induction n arbitrary: a)
  case (Suc n)
  show ?case
  proof (cases "even a")
    case True
    then obtain b where b: "a = 2 * b" by (rule evenE)
    with Suc.prems have "b dvd 2 ^ n" by simp
    from Suc.IH[OF this] obtain k where "k \<le> n" "b = 2 ^ k" by blast
    then show ?thesis using b by (intro exI[of _ "Suc k"]) simp
  next
    case False
    then have "coprime a 2" by (simp only: coprime_right_2_iff_odd simp_thms)
    then have "a dvd 2 ^ n" using Suc.prems by (simp add: coprime_dvd_mult_right_iff)
    from Suc.IH[OF this] show ?thesis using le_SucI by blast
  qed
qed simp

lemma wf_scanCfg:
  assumes "T dvd chunkSize" "0 < warp" "0 < sizeofData" "kind = cpuDevice \<longrightarrow> sizeofData dvd 32768"
  shows "wf_cfg (scanCfg kind warp sizeofData chunkSize T)"
proof -
  have c: "chunkSize = 2 ^ 11" by (simp add: chunkSize_def)
  have "T dvd 2 ^ 11" using assms(1) unfolding c .
  from pow2_dvd_pow2[OF this] obtain k where k: "k \<le> 11" "T = 2 ^ k" by blast
  have E: "chunkSize div T = 2 ^ (11 - k)" "chunkSize div T * T = 2 ^ (11 - k) * 2 ^ k"
    unfolding c k(2) using k(1) by (simp_all only: power_diff zero_neq_numeral dvd_div_mult_self le_imp_power_dvd not_False_eq_True)
  have "\<exists>z. maximumMiniBlockSize kind sizeofData = 2 ^ z"
  proof (cases kind)
    case cpuDevice
    have "32768 = (2 :: nat) ^ 15" by simp
    then have "sizeofData dvd 2 ^ 15" using assms(4) cpuDevice by simp
    from pow2_dvd_pow2[OF this] obtain y where y: "y \<le> 15" "sizeofData = 2 ^ y" by blast
    have "32768 div sizeofData = 2 ^ (15 - y)"
      unfolding y(2) \<open>32768 = (2 :: nat) ^ 15\<close> by (rule power_diff[symmetric]) (use y(1) in simp_all)
    then show ?thesis using cpuDevice by (auto simp: maximumMiniBlockSize_def)
  qed (auto simp: maximumMiniBlockSize_def intro: exI[of _ 3])
  then obtain z where z: "maximumMiniBlockSize kind sizeofData = 2 ^ z" ..
  have mb: "min (2 ^ z) (2 ^ (11 - k) :: nat) = 2 ^ min z (11 - k)"
    by (simp add: min_def)
  have "2 ^ (11 - k) = (2 :: nat) ^ min z (11 - k) * 2 ^ (11 - k - min z (11 - k))"
    by (simp flip: power_add)
  then show ?thesis
    unfolding wf_cfg_def scanCfg_def Let_def scanCfg.simps E z mb unfolding k(2) using assms(2) by metis
qed

text \<open>Packs of four are four elements.\<close>

lemma fold_opt_packs:
  "fold_opt (\<lambda>i s. fold_opt (\<lambda>j s. f (i + j) s) [0..<w] s) (map (\<lambda>i. w * i) [0..<q]) s = fold_opt f [0..<w * q] s"
proof (induction q)
  case (Suc q)
  have "fold_opt (\<lambda>j s. f (w * q + j) s) [0..<w] u = fold_opt f [w * q..<w * q + w] u" for u
  proof -
    have "fold_opt (\<lambda>j s. f (b + j) s) xs u = fold_opt f (map ((+) b) xs) u" for b xs
      by (induction xs arbitrary: u) (auto split: bind_splits)
    moreover have "map ((+) (w * q)) [0..<w] = [w * q..<w * q + w]" by (rule nth_equalityI) simp_all
    ultimately show ?thesis by metis
  qed
  moreover have "[0..<w * Suc q] = [0..<w * q] @ [w * q..<w * q + w]"
    using upt_add_eq_append[of 0 "w * q" w] by (simp add: add.commute)
  ultimately show ?case using Suc by (simp add: fold_opt_append fold_opt_single[abs_def] del: fold_opt.simps)
qed simp

section \<open>Loading\<close>

definition padded :: "'a::zero list \<Rightarrow> nat \<Rightarrow> 'a" where
  "padded xs i = (if i < length xs then xs ! i else 0)"

lemma loadElems_written:
  assumes "sc_elsPerThread cfg \<le> length reg"
    and "\<not> scalar \<Longrightarrow> sc_elsPerThread cfg mod 4 = 0 \<and> fb + sc_elsPerThread cfg \<le> length inp"
  shows "\<exists>reg'. loadElems cfg scalar inp (length inp) fb reg = Some reg'
    \<and> written 0 (sc_elsPerThread cfg) (\<lambda>i. padded inp (fb + i)) reg reg'"
proof (cases scalar)
  case True
  show ?thesis
    unfolding loadElems_def Let_def if_P[OF True]
    by (rule fold_opt_written) (use assms(1) in \<open>auto simp: padded_def written_length\<close>)
next
  case False
  then have E: "4 * (sc_elsPerThread cfg div 4) = sc_elsPerThread cfg" "fb + sc_elsPerThread cfg \<le> length inp"
    using assms(2) by auto
  let ?f = "\<lambda>i reg. Option.bind (arr_get inp (fb + i)) (arr_set reg i)"
  have "loadElems cfg scalar inp (length inp) fb reg = fold_opt ?f [0..<sc_elsPerThread cfg] reg"
    using fold_opt_packs[of ?f 4 "sc_elsPerThread cfg div 4" reg] frame_elems_mult[of 4 "sc_elsPerThread cfg div 4"]
    unfolding loadElems_def Let_def if_not_P[OF False] E by (simp add: add.assoc)
  moreover have "\<exists>s'. fold_opt ?f [0..<sc_elsPerThread cfg] reg = Some s'
      \<and> written 0 (sc_elsPerThread cfg) (\<lambda>i. padded inp (fb + i)) reg s'"
    by (rule fold_opt_written) (use E(2) assms(1) in \<open>auto simp: padded_def\<close>)
  ultimately show ?thesis by simp
qed

lemma loadElems_value:
  assumes "length reg = sc_elsPerThread cfg"
    and "\<not> scalar \<Longrightarrow> sc_elsPerThread cfg mod 4 = 0 \<and> fb + sc_elsPerThread cfg \<le> length inp"
  shows "loadElems cfg scalar inp (length inp) fb reg = Some (map (\<lambda>i. padded inp (fb + i)) [0..<sc_elsPerThread cfg])"
  using loadElems_written[of cfg reg scalar fb inp] written_all assms by (metis order_refl)

section \<open>Mini blocks\<close>

lemma conflictFreeAccess_less: "i < j \<Longrightarrow> conflictFreeAccess w i < conflictFreeAccess w j"
  using div_le_mono[of i j w] by (simp add: conflictFreeAccess_def)

lemma conflictFreeAccess_eq [simp]: "conflictFreeAccess w i = conflictFreeAccess w j \<longleftrightarrow> i = j"
  by (metis conflictFreeAccess_less less_irrefl_nat linorder_neqE_nat)

lemma conflictFreeAccess_inj: "inj_on (conflictFreeAccess w) A"
  by (simp add: inj_on_def)

text \<open>The prefix sums inside the mini blocks of size \<open>mb\<close>, and the sum of mini block \<open>q\<close>.\<close>

definition mini_prefix :: "nat \<Rightarrow> (nat \<Rightarrow> 'a::comm_monoid_add) \<Rightarrow> nat \<Rightarrow> 'a" where
  "mini_prefix mb x i = (\<Sum>j < i mod mb. x (i div mb * mb + j))"

definition mini_sum :: "nat \<Rightarrow> (nat \<Rightarrow> 'a::comm_monoid_add) \<Rightarrow> nat \<Rightarrow> 'a" where
  "mini_sum mb x q = (\<Sum>j < mb. x (q * mb + j))"

lemma sum_lessThan_add: "sum f {..<n + m} = sum f {..<n} + (\<Sum>j < m. f (n + j :: nat) :: 'a::comm_monoid_add)"
  by (induction m) (simp_all add: add.assoc)

lemma mini_sums: "(\<Sum>k < q. mini_sum mb x k) = sum x {..<q * mb}"
  by (induction q) (simp_all add: mini_sum_def sum_lessThan_add[of x "q * mb" mb for q] add.commute[of mb])

lemma mini_prefix_total: "sum x {..<i div mb * mb} + mini_prefix mb x i = sum x {..<i}"
  unfolding mini_prefix_def sum_lessThan_add[symmetric] by simp

text \<open>The state after the first \<open>k\<close> mini blocks of a thread whose sums go to the cells from \<open>o'\<close> on.\<close>

definition mini_scanned :: "nat \<Rightarrow> nat \<Rightarrow> nat \<Rightarrow> nat \<Rightarrow> (nat \<Rightarrow> 'a::comm_monoid_add) \<Rightarrow> nat \<Rightarrow> 'a list \<Rightarrow> 'a list \<Rightarrow> 'a list \<Rightarrow> bool" where
  "mini_scanned mb w E o' x k t0 reg' t1 \<longleftrightarrow> length reg' = E \<and> length t1 = length t0
     \<and> (\<forall>i < E. reg' ! i = (if i < mb * k then mini_prefix mb x i else x i))
     \<and> (\<forall>i < k. t1 ! conflictFreeAccess w (o' + i) = mini_sum mb x i)
     \<and> (\<forall>j < length t0. j \<notin> conflictFreeAccess w ` {o'..<o' + k} \<longrightarrow> t1 ! j = t0 ! j)"

lemma mini_scanned_step:
  assumes "mini_scanned mb w E o' x k t0 r t" "0 < mb" "mb = 2 ^ a" "mb * Suc k \<le> E" "conflictFreeAccess w (o' + k) < length t0"
  shows "\<exists>r' t'. Option.bind (scanMiniBlock (mb * k) mb r) (\<lambda>(reg, miniBlockSum).
      map_option (Pair reg) (arr_set t (conflictFreeAccess w (o' + k)) miniBlockSum)) = Some (r', t')
    \<and> mini_scanned mb w E o' x (Suc k) t0 r' t'"
proof -
  let ?r = "take (mb * k) r @ map (\<lambda>i. \<Sum>j < i. r ! (mb * k + j)) [0..<mb] @ drop (mb * k + mb) r"
  let ?t = "t[conflictFreeAccess w (o' + k) := \<Sum>j < mb. r ! (mb * k + j)]"
  have len: "length r = E" "length t = length t0" using assms(1) by (simp_all add: mini_scanned_def)
  have x: "r ! (mb * k + j) = x (mb * k + j)" if "j < mb" for j
    using assms(1,4) that by (simp add: mini_scanned_def)
  have "scanMiniBlock (mb * k) mb r = Some (?r, \<Sum>j < mb. r ! (mb * k + j))"
    using scanMiniBlock_value[of "mb * k" a r] assms(3,4) len by simp
  moreover have "?r ! i = (if i < mb * Suc k then mini_prefix mb x i else x i)" if i: "i < E" for i
  proof -
    consider "i < mb * k" | j where "i = mb * k + j" "j < mb" | "mb * Suc k \<le> i"
      using that by (metis less_add_eq_less le_add_diff_inverse mult_Suc_right nat_add_left_cancel_less not_less add.commute)
    then show ?thesis
    proof cases
      case 1
      then show ?thesis using assms(1) i len by (simp add: mini_scanned_def nth_append)
    next
      case (2 j)
      have "(\<Sum>l < j. r ! (mb * k + l)) = (\<Sum>l < j. x (mb * k + l))" using x 2(2) by simp
      moreover have "(mb * k + j) div mb = k" "(mb * k + j) mod mb = j" using 2(2) by simp_all
      ultimately show ?thesis using 2 i len assms(4)
        by (simp add: nth_append mini_prefix_def mult.commute)
    next
      case 3
      then have "\<not> i < mb * k" "\<not> i < mb * k + mb" by (simp_all add: not_less)
      moreover have "mb * k + (mb + (i - mb * k - mb)) = i" using 3 by simp
      ultimately show ?thesis using assms(1,4) i len 3 by (auto simp: mini_scanned_def nth_append)
    qed
  qed
  moreover have "(\<Sum>j < mb. r ! (mb * k + j)) = mini_sum mb x k" using x by (simp add: mini_sum_def mult.commute)
  ultimately show ?thesis
    using assms(1,4,5) len
    by (auto simp: mini_scanned_def less_Suc_eq nth_list_update atLeastLessThanSuc image_iff)
qed


lemma scanMiniBlocks_value:
  assumes "wf_cfg cfg" "length reg = sc_elsPerThread cfg" "frameElem = sc_elsPerThread cfg * e"
    and "sc_elsPerThread cfg = sc_miniBlockSize cfg * q"
    and "\<forall>i < q. conflictFreeAccess (sc_warpSize cfg) (e * q + i) < length t"
  shows "\<exists>reg' t'. scanMiniBlocks cfg frameElem (reg, t) = Some (reg', t')
    \<and> mini_scanned (sc_miniBlockSize cfg) (sc_warpSize cfg) (sc_elsPerThread cfg) (e * q) (\<lambda>i. reg ! i) q t reg' t'"
proof -
  obtain a where mb: "0 < sc_miniBlockSize cfg" "sc_miniBlockSize cfg = 2 ^ a"
    using assms(1) by (auto elim: wf_cfgE)
  let ?mb = "sc_miniBlockSize cfg"
  let ?P = "\<lambda>k (r, t'). mini_scanned ?mb (sc_warpSize cfg) (sc_elsPerThread cfg) (e * q) (\<lambda>i. reg ! i) k t r t'"
  have pos: "(frameElem + ?mb * i) div ?mb = e * q + i" for i
  proof -
    have "frameElem + ?mb * i = ?mb * (e * q + i)" unfolding assms(3,4) by (simp add: algebra_simps)
    then show ?thesis using mb(1) by simp
  qed
  have "\<exists>s'. scanMiniBlocks cfg frameElem (reg, t) = Some s' \<and> ?P (length (map (\<lambda>i. ?mb * i) [0..<q])) s'"
    unfolding scanMiniBlocks_def assms(4) frame_elems_mult[OF mb(1)] unfolding assms(4)[symmetric]
  proof (rule fold_opt_Some[where P = ?P])
    show "?P 0 (reg, t)" using assms(2) by (simp add: mini_scanned_def)
  next
    fix k s assume k: "k < length (map (\<lambda>i. ?mb * i) [0..<q])" and s: "?P k s"
    obtain r t' where rt: "s = (r, t')" by (cases s)
    have nth: "map (\<lambda>i. ?mb * i) [0..<q] ! k = ?mb * k" using k by simp
    have le: "?mb * Suc k \<le> sc_elsPerThread cfg"
      using k unfolding assms(4) by (intro mult_le_mono2) simp
    have "conflictFreeAccess (sc_warpSize cfg) (e * q + k) < length t" using assms(5) k by simp
    with mini_scanned_step[of ?mb _ _ _ _ k t r t', OF s[unfolded rt prod.case] mb le]
    show "\<exists>s'. (case s of (reg, tm) \<Rightarrow> Option.bind (scanMiniBlock (map (\<lambda>i. ?mb * i) [0..<q] ! k) ?mb reg)
        (\<lambda>(reg, miniBlockSum). map_option (Pair reg) (arr_set tm (conflictFreeAccess (sc_warpSize cfg)
            ((frameElem + map (\<lambda>i. ?mb * i) [0..<q] ! k) div ?mb)) miniBlockSum))) = Some s' \<and> ?P (Suc k) s'"
      unfolding nth pos rt prod.case by blast
  qed
  then show ?thesis by auto
qed

text \<open>What the sums of the mini blocks of the chunk, scanned, add to the elements of a thread.\<close>

lemma addBlockSums_value:
  assumes "wf_cfg cfg" "length reg = sc_elsPerThread cfg" "frameElem = sc_elsPerThread cfg * e"
    and "sc_elsPerThread cfg = sc_miniBlockSize cfg * q"
    and "\<forall>i < q. conflictFreeAccess (sc_warpSize cfg) (e * q + i) < length t"
  shows "\<exists>reg'. addBlockSums cfg N F t frameElem reg = Some reg' \<and> length reg' = length reg
    \<and> (\<forall>i < length reg. F + frameElem + i < N \<longrightarrow>
         reg' ! i = reg ! i + t ! conflictFreeAccess (sc_warpSize cfg) (e * q + i div sc_miniBlockSize cfg))"
proof -
  let ?mb = "sc_miniBlockSize cfg" and ?w = "sc_warpSize cfg"
  have mb: "0 < ?mb" using assms(1) by (auto elim: wf_cfgE)
  let ?P = "\<lambda>k r. length r = length reg \<and> (\<forall>i < length reg. ?mb * k \<le> i \<longrightarrow> r ! i = reg ! i)
      \<and> (\<forall>i < ?mb * k. F + frameElem + i < N \<longrightarrow> r ! i = reg ! i + t ! conflictFreeAccess ?w (e * q + i div ?mb))"
  have pos: "(frameElem + ?mb * i) div ?mb = e * q + i" for i
  proof -
    have "frameElem + ?mb * i = ?mb * (e * q + i)" unfolding assms(3,4) by (simp add: algebra_simps)
    then show ?thesis using mb by simp
  qed
  have "\<exists>s'. addBlockSums cfg N F t frameElem reg = Some s' \<and> ?P (length (map (\<lambda>i. ?mb * i) [0..<q])) s'"
    unfolding addBlockSums_def assms(4) frame_elems_mult[OF mb] unfolding assms(4)[symmetric]
  proof (rule fold_opt_Some[where P = ?P])
    fix k r assume k: "k < length (map (\<lambda>i. ?mb * i) [0..<q])" and r: "?P k r"
    have nth: "map (\<lambda>i. ?mb * i) [0..<q] ! k = ?mb * k" using k by simp
    have le: "?mb * k + ?mb \<le> length r"
      using mult_le_mono2[of "Suc k" q ?mb] k r unfolding assms(2,4) by simp
    obtain v where v: "(if F + frameElem + ?mb * k < N then arr_get t (conflictFreeAccess ?w (e * q + k)) else Some 0) = Some v"
      "F + frameElem + ?mb * k < N \<Longrightarrow> v = t ! conflictFreeAccess ?w (e * q + k)"
      using assms(5) k by (cases "F + frameElem + ?mb * k < N") simp_all
    let ?r = "take (?mb * k) r @ map (\<lambda>i. r ! (?mb * k + i) + v) [0..<?mb] @ drop (?mb * k + ?mb) r"
    have "?r ! i = reg ! i" if "i < length reg" "?mb * Suc k \<le> i" for i
    proof -
      have "?mb * k + (?mb + (i - ?mb * k - ?mb)) = i" "\<not> i < ?mb * k" "\<not> i - ?mb * k < ?mb" using that(2) by simp_all
      then show ?thesis using that r le by (simp add: nth_append)
    qed
    moreover have "?r ! i = reg ! i + t ! conflictFreeAccess ?w (e * q + i div ?mb)"
      if "i < ?mb * Suc k" "F + frameElem + i < N" for i
    proof (cases "i < ?mb * k")
      case True
      then show ?thesis using r le that by (simp add: nth_append)
    next
      case False
      then have "i = ?mb * k + (i - ?mb * k)" "i - ?mb * k < ?mb" using that(1) by simp_all
      then obtain j where j: "i = ?mb * k + j" "j < ?mb" by blast
      then have "i div ?mb = k" by simp
      moreover have "?r ! i = r ! i + v" using j le by (simp add: nth_append)
      moreover have "r ! i = reg ! i" using r j le by simp
      moreover have "F + frameElem + ?mb * k < N" using that(2) j(1) by simp
      ultimately show ?thesis using v(2) by simp
    qed
    ultimately show "\<exists>s'. Option.bind (if F + frameElem + map (\<lambda>i. ?mb * i) [0..<q] ! k < N
          then arr_get t (conflictFreeAccess ?w ((frameElem + map (\<lambda>i. ?mb * i) [0..<q] ! k) div ?mb)) else Some 0)
          (\<lambda>blockSum. addIncrements (map (\<lambda>i. ?mb * i) [0..<q] ! k) blockSum ?mb r) = Some s' \<and> ?P (Suc k) s'"
      unfolding nth pos v(1) bind.bind_lunit addIncrements_value[OF le] using r le by auto
  qed simp
  then show ?thesis using assms(2,4) by auto
qed


section \<open>Storing\<close>

definition source :: "'a list option \<Rightarrow> 'a list \<Rightarrow> 'a list" where
  "source src out = (case src of Some xs \<Rightarrow> xs | None \<Rightarrow> out)"

definition scan_out :: "scanType \<Rightarrow> 'a::plus \<Rightarrow> 'a \<Rightarrow> 'a" where
  "scan_out ty x prefix = (case ty of exclusiveScan \<Rightarrow> prefix | inclusiveScan \<Rightarrow> x + prefix)"

lemma scanValue_written:
  assumes "written fb i v out s" "i \<le> k" "fb + k < length (source src out)" "k < length reg"
    "length (source src out) = length out"
  shows "scanValue ty (source src s) (fb + k) reg k = Some (scan_out ty (source src out ! (fb + k)) (reg ! k))"
proof -
  have "length (source src s) = length (source src out)" "source src s ! (fb + k) = source src out ! (fb + k)"
    using assms by (cases src; simp add: source_def written_length written_nth)+
  then show ?thesis using assms(3,4) by (simp add: scanValue_def scan_out_def split: scanType.split)
qed

lemma storeElems_value:
  assumes "length reg = sc_elsPerThread cfg" "length (source src out) = N" "length out = N"
    and "\<not> scalar \<Longrightarrow> sc_elsPerThread cfg mod 4 = 0 \<and> fb + sc_elsPerThread cfg \<le> N"
  shows "\<exists>out'. storeElems cfg ty scalar N src fb reg out = Some out'
    \<and> written fb (min (sc_elsPerThread cfg) (N - fb)) (\<lambda>i. scan_out ty (source src out ! (fb + i)) (reg ! i)) out out'"
proof -
  let ?E = "sc_elsPerThread cfg" and ?v = "\<lambda>i. scan_out ty (source src out ! (fb + i)) (reg ! i)"
  show ?thesis
  proof (cases scalar)
    case True
    let ?f = "\<lambda>i out. if fb + i < N then Option.bind (scanValue ty (source src out) (fb + i) reg i) (arr_set out (fb + i)) else Some out"
    have "\<exists>s'. fold_opt ?f [0..<?E] out = Some s' \<and> written fb (min (length [0..<?E]) (N - fb)) ?v out s'"
    proof (rule fold_opt_Some[where P = "\<lambda>k. written fb (min k (N - fb)) ?v out"])
      fix i s assume i: "i < length [0..<?E]" and s: "written fb (min i (N - fb)) ?v out s"
      show "\<exists>s'. ?f ([0..<?E] ! i) s = Some s' \<and> written fb (min (Suc i) (N - fb)) ?v out s'"
      proof (cases "fb + i < N")
        case True
        then have m: "min i (N - fb) = i" "min (Suc i) (N - fb) = Suc i" by auto
        show ?thesis
          using scanValue_written[OF s[unfolded m(1)], of i src reg ty] written_set[OF s[unfolded m(1)]]
            written_length[OF s] True i assms by (simp add: m(2))
      next
        case False
        then have "min (Suc i) (N - fb) = min i (N - fb)" by auto
        then show ?thesis using s False i by simp
      qed
    qed simp
    then show ?thesis unfolding storeElems_def Let_def source_def[symmetric] using True by simp
  next
    case False
    have E: "4 * (?E div 4) = ?E" "fb + ?E \<le> N" using assms(4)[OF False] by auto
    let ?g = "\<lambda>i out. fold_opt (\<lambda>j out'. Option.bind (scanValue ty (source src out) (fb + i + j) reg (i + j))
                 (arr_set out' (fb + i + j))) [0..<4] out"
    have "\<exists>s'. fold_opt ?g (map (\<lambda>i. 4 * i) [0..<?E div 4]) out = Some s'
       \<and> written fb (4 * length (map (\<lambda>i. 4 * i) [0..<?E div 4])) ?v out s'"
    proof (rule fold_opt_Some[where P = "\<lambda>k. written fb (4 * k) ?v out"])
      fix k s assume k: "k < length (map (\<lambda>i. 4 * i) [0..<?E div 4])" and s: "written fb (4 * k) ?v out s"
      then have k4: "4 * k + 4 \<le> ?E" using E(1) by simp
      have "\<exists>s'. ?g (4 * k) s = Some s' \<and> written (fb + 4 * k) 4 (\<lambda>i. ?v (4 * k + i)) s s'"
      proof (rule fold_opt_written)
        fix j s' assume j: "j < 4" "written (fb + 4 * k) j (\<lambda>i. ?v (4 * k + i)) s s'"
        show "Option.bind (scanValue ty (source src s) (fb + 4 * k + j) reg (4 * k + j)) (arr_set s' (fb + 4 * k + j))
            = arr_set s' (fb + 4 * k + j) (?v (4 * k + j))"
          using scanValue_written[OF s, of "4 * k + j" src reg ty] j(1) k4 E assms by (simp add: add.assoc)
      qed (use k4 E written_length[OF s] assms in simp)
      then show "\<exists>s'. ?g (map (\<lambda>i. 4 * i) [0..<?E div 4] ! k) s = Some s' \<and> written fb (4 * Suc k) ?v out s'"
        using written_app[OF s, of 4] k by (fastforce simp: add.commute)
    qed simp
    then show ?thesis
      using False E frame_elems_mult[of 4 "?E div 4"] by (simp add: storeElems_def source_def Let_def min_absorb1)
  qed
qed


section \<open>A chunk\<close>

lemma mini_prefix_shift: "mb dvd e \<Longrightarrow> mini_prefix mb (\<lambda>i. x (e + i)) i = mini_prefix mb x (e + i)"
  by (cases "mb = 0") (auto simp: mini_prefix_def div_add add.assoc algebra_simps elim!: dvdE)

lemma mini_sum_shift: "mini_sum mb (\<lambda>i. x (mb * k + i)) i = mini_sum mb x (k + i)"
  by (simp add: mini_sum_def algebra_simps)

lemma mini_prefix_cong: "(\<And>j. j \<le> i \<Longrightarrow> x j = y j) \<Longrightarrow> mini_prefix mb x i = mini_prefix mb y i"
proof -
  assume eq: "\<And>j. j \<le> i \<Longrightarrow> x j = y j"
  have "i div mb * mb + j \<le> i" if "j < i mod mb" for j
    using that by (metis add_le_cancel_left div_mult_mod_eq less_imp_le_nat)
  then show ?thesis using eq by (simp add: mini_prefix_def)
qed

lemma mini_sum_cong: "(\<And>j. j < (q + 1) * mb \<Longrightarrow> x j = y j) \<Longrightarrow> mini_sum mb x q = mini_sum mb y q"
  by (simp add: mini_sum_def algebra_simps)

text \<open>
  What the load phase establishes: \<open>q\<close> mini blocks per thread, and the frame elements \<open>E * e\<close> with
  \<open>e\<close> in a set are done.
\<close>

definition loaded :: "scanCfg \<Rightarrow> nat \<Rightarrow> (nat \<Rightarrow> 'a::comm_monoid_add) \<Rightarrow> 'a scanMem \<Rightarrow> nat set \<Rightarrow> 'a scanMem \<Rightarrow> bool" where
  "loaded cfg q X st es st' \<longleftrightarrow> outputVec st' = outputVec st \<and> blockSums st' = blockSums st
     \<and> length (tmp st') = length (tmp st)
     \<and> (\<forall>e \<in> es. length (regMem st' (sc_elsPerThread cfg * e)) = sc_elsPerThread cfg
          \<and> (\<forall>i < sc_elsPerThread cfg. regMem st' (sc_elsPerThread cfg * e) ! i
                = mini_prefix (sc_miniBlockSize cfg) X (sc_elsPerThread cfg * e + i))
          \<and> (\<forall>i < q. tmp st' ! conflictFreeAccess (sc_warpSize cfg) (e * q + i) = mini_sum (sc_miniBlockSize cfg) X (e * q + i)))"

lemma index_less: "e < t \<Longrightarrow> i < q \<Longrightarrow> e * q + i < t * (q :: nat)"
proof -
  assume "e < t" "i < q"
  then have "e * q + i < Suc e * q" by simp
  also have "\<dots> \<le> t * q" using \<open>e < t\<close> by (intro mult_le_mono1) simp
  finally show ?thesis .
qed

lemma index_unique: "i < q \<Longrightarrow> j < q \<Longrightarrow> e * q + i = f * q + j \<Longrightarrow> e = (f :: nat)"
proof -
  assume h: "i < q" "j < q" "e * q + i = f * q + j"
  have "(e * q + i) div q = e" "(f * q + j) div q = f" using h(1,2) by simp_all
  then show ?thesis using h(3) by metis
qed

lemma cell_bound:
  assumes "k < miniBlocksPerChunk cfg"
  shows "conflictFreeAccess (sc_warpSize cfg) k < conflictFreeAdr cfg"
  using conflictFreeAccess_less[of k "miniBlocksPerChunk cfg - 1" "sc_warpSize cfg"] assms
  by (cases "k = miniBlocksPerChunk cfg - 1") (simp_all add: conflictFreeAdr_def less_Suc_eq)

lemma loadThread_step:
  assumes wf: "wf_cfg cfg" and E: "sc_elsPerThread cfg = sc_miniBlockSize cfg * q" "sc_chunkExtent cfg = sc_elsPerThread cfg * t"
    and n: "miniBlocksPerChunk cfg = t * q"
    and len: "length (tmp st) = conflictFreeAdr cfg" "e < t" "length xs = N" "source src (outputVec st) = xs"
    and vec: "\<not> scalar \<Longrightarrow> sc_elsPerThread cfg mod 4 = 0 \<and> F + sc_chunkExtent cfg \<le> N"
    and st': "loaded cfg q (\<lambda>i. padded xs (F + i)) st es st'" "es \<subseteq> {..<t}" "e \<notin> es"
  shows "\<exists>st''. loadThread cfg scalar N F src junk (sc_elsPerThread cfg * e) st' = Some st''
    \<and> loaded cfg q (\<lambda>i. padded xs (F + i)) st (insert e es) st''"
proof -
  let ?E = "sc_elsPerThread cfg" and ?mb = "sc_miniBlockSize cfg" and ?w = "sc_warpSize cfg"
  let ?X = "\<lambda>i. padded xs (F + i)" and ?e = "sc_elsPerThread cfg * e"
  have mb: "0 < ?mb" "lLocalArrayLength cfg = ?E" using wf by (auto elim!: wf_cfgE)
  have keep: "outputVec st' = outputVec st" "length (tmp st') = length (tmp st)"
    using st'(1) by (simp_all add: loaded_def)
  have cell: "conflictFreeAccess ?w (f * q + i) < length (tmp st')" if "f < t" "i < q" for f i
    using cell_bound[of "f * q + i" cfg] index_less[OF that] n keep(2) len(1) by simp
  have fits: "?e + ?E \<le> sc_chunkExtent cfg"
    using mult_le_mono2[of "Suc e" t ?E] len(2) unfolding E(2) by simp
  let ?reg = "map (\<lambda>i. padded xs (F + ?e + i)) [0..<?E]"
  have load: "loadElems cfg scalar (inputVec src st') N (F + ?e) (replicate (lLocalArrayLength cfg) junk) = Some ?reg"
  proof -
    have "inputVec src st' = xs" using len(4) keep(1) by (cases src) (simp_all add: inputVec_def source_def)
    moreover have "F + ?e + ?E \<le> N" if "\<not> scalar" using vec[OF that] fits by simp
    ultimately show ?thesis
      using loadElems_value[of "replicate (lLocalArrayLength cfg) junk" cfg scalar "F + ?e" xs] vec
      unfolding len(3) by (simp add: mb(2))
  qed
  obtain reg' t' where rt: "scanMiniBlocks cfg ?e (?reg, tmp st') = Some (reg', t')"
    "mini_scanned ?mb ?w ?E (e * q) (\<lambda>i. ?reg ! i) q (tmp st') reg' t'"
    using scanMiniBlocks_value[OF wf, of ?reg ?e e q "tmp st'"] E(1) cell[OF len(2)] by auto
  have reg: "reg' ! i = mini_prefix ?mb ?X (?e + i)" if "i < ?E" for i
  proof -
    have "reg' ! i = mini_prefix ?mb (\<lambda>i. ?reg ! i) i" using rt(2) that E(1) by (simp add: mini_scanned_def)
    also have "\<dots> = mini_prefix ?mb (\<lambda>i. ?X (?e + i)) i" using that by (intro mini_prefix_cong) (simp add: add.assoc)
    also have "\<dots> = mini_prefix ?mb ?X (?e + i)" by (rule mini_prefix_shift) (simp add: E(1))
    finally show ?thesis .
  qed
  have eq: "?e = ?mb * (e * q)" unfolding E(1) by simp
  have mine: "t' ! conflictFreeAccess ?w (e * q + i) = mini_sum ?mb ?X (e * q + i)" if i: "i < q" for i
  proof -
    have "t' ! conflictFreeAccess ?w (e * q + i) = mini_sum ?mb (\<lambda>i. ?reg ! i) i" using rt(2) i by (simp add: mini_scanned_def)
    also have "\<dots> = mini_sum ?mb (\<lambda>i. ?X (?mb * (e * q) + i)) i"
    proof (rule mini_sum_cong)
      fix j assume "j < (i + 1) * ?mb"
      also have "\<dots> \<le> ?E" using mult_le_mono2[of "i + 1" q ?mb] i by (simp add: E(1) mult.commute)
      finally show "?reg ! j = ?X (?mb * (e * q) + j)" unfolding eq by (simp add: add.assoc)
    qed
    also have "\<dots> = mini_sum ?mb ?X (e * q + i)" by (rule mini_sum_shift)
    finally show ?thesis .
  qed
  have others: "t' ! conflictFreeAccess ?w (f * q + i) = tmp st' ! conflictFreeAccess ?w (f * q + i)"
    if "f \<in> es" "i < q" for f i
  proof -
    have "f * q + i \<notin> {e * q..<e * q + q}"
    proof
      assume "f * q + i \<in> {e * q..<e * q + q}"
      then have "f * q + i = e * q + (f * q + i - e * q)" "f * q + i - e * q < q" by auto
      then show False using index_unique[OF that(2), of "f * q + i - e * q" f e] st'(3) that(1) by simp
    qed
    moreover have "conflictFreeAccess ?w (f * q + i) < length (tmp st')" using cell that st'(2) by blast
    moreover have "t' ! j = tmp st' ! j" if "j < length (tmp st')" "j \<notin> conflictFreeAccess ?w ` {e * q..<e * q + q}" for j
      using rt(2) that unfolding mini_scanned_def by blast
    ultimately show ?thesis by (metis (no_types, lifting) conflictFreeAccess_eq imageE)
  qed
  have E0: "0 < ?E" using wf by (auto elim!: wf_cfgE)
  show ?thesis
    using load rt(1) reg mine others st' E0 rt(2)
    by (auto simp: loadThread_def loaded_def mini_scanned_def)
qed


text \<open>What the store phase establishes: the elements of the threads in a set are written.\<close>

definition chunk_value :: "scanType \<Rightarrow> 'a::comm_monoid_add list \<Rightarrow> nat \<Rightarrow> nat \<Rightarrow> 'a" where
  "chunk_value ty xs F p = scan_out ty (xs ! p) (\<Sum>i < p - F. padded xs (F + i))"

definition stored :: "scanCfg \<Rightarrow> scanType \<Rightarrow> 'a::comm_monoid_add list \<Rightarrow> nat \<Rightarrow> 'a scanMem \<Rightarrow> nat set \<Rightarrow> 'a scanMem \<Rightarrow> bool" where
  "stored cfg ty xs F st es st' \<longleftrightarrow> blockSums st' = blockSums st \<and> tmp st' = tmp st
     \<and> (\<forall>e. e \<notin> es \<longrightarrow> regMem st' (sc_elsPerThread cfg * e) = regMem st (sc_elsPerThread cfg * e))
     \<and> length (outputVec st') = length (outputVec st)
     \<and> (\<forall>p < length (outputVec st). outputVec st' ! p =
          (if F \<le> p \<and> (p - F) div sc_elsPerThread cfg \<in> es then chunk_value ty xs F p else outputVec st ! p))"

lemma storeThread_step:
  assumes wf: "wf_cfg cfg" and E: "sc_elsPerThread cfg = sc_miniBlockSize cfg * q" "sc_chunkExtent cfg = sc_elsPerThread cfg * t"
    and n: "miniBlocksPerChunk cfg = t * q"
    and len: "length (tmp st) = conflictFreeAdr cfg" "e < t" "length xs = N" "source src (outputVec st) = xs" "length (outputVec st) = N"
    and vec: "\<not> scalar \<Longrightarrow> sc_elsPerThread cfg mod 4 = 0 \<and> F + sc_chunkExtent cfg \<le> N"
    and reg: "length (regMem st (sc_elsPerThread cfg * e)) = sc_elsPerThread cfg"
      "\<forall>i < sc_elsPerThread cfg. regMem st (sc_elsPerThread cfg * e) ! i
         = mini_prefix (sc_miniBlockSize cfg) (\<lambda>i. padded xs (F + i)) (sc_elsPerThread cfg * e + i)"
    and sums: "\<forall>k < t * q. tmp st ! conflictFreeAccess (sc_warpSize cfg) k = (\<Sum>i < k * sc_miniBlockSize cfg. padded xs (F + i))"
    and st': "stored cfg ty xs F st es st'" "es \<subseteq> {..<t}" "e \<notin> es"
  shows "\<exists>st''. storeThread cfg ty scalar N F src (sc_elsPerThread cfg * e) st' = Some st''
    \<and> stored cfg ty xs F st (insert e es) st''"
proof -
  let ?E = "sc_elsPerThread cfg" and ?mb = "sc_miniBlockSize cfg" and ?w = "sc_warpSize cfg"
  let ?X = "\<lambda>i. padded xs (F + i)" and ?e = "sc_elsPerThread cfg * e" and ?fb = "F + sc_elsPerThread cfg * e"
  have pos: "0 < ?mb" "0 < ?E" using wf by (auto elim!: wf_cfgE)
  have keep: "tmp st' = tmp st" "length (outputVec st') = N" "regMem st' ?e = regMem st ?e"
    using st'(1,3) len(5) by (simp_all add: stored_def)
  have cell: "\<forall>i < q. conflictFreeAccess ?w (e * q + i) < length (tmp st)"
    using cell_bound[of _ cfg] index_less[OF len(2)] n len(1) by simp
  have fits: "?e + ?E \<le> sc_chunkExtent cfg"
    using mult_le_mono2[of "Suc e" t ?E] len(2) unfolding E(2) by simp
  obtain r where r: "addBlockSums cfg N F (tmp st) ?e (regMem st ?e) = Some r" "length r = ?E"
    "\<And>i. i < ?E \<Longrightarrow> ?fb + i < N \<Longrightarrow> r ! i = regMem st ?e ! i + tmp st ! conflictFreeAccess ?w (e * q + i div ?mb)"
    using addBlockSums_value[OF wf reg(1) refl E(1) cell, of N F] unfolding reg(1) by blast
  have total: "r ! i = (\<Sum>j < ?e + i. ?X j)" if "i < ?E" "?fb + i < N" for i
  proof -
    have "i div ?mb < q" using that(1) pos(1) unfolding E(1) by (simp add: less_mult_imp_div_less mult.commute)
    then have "tmp st ! conflictFreeAccess ?w (e * q + i div ?mb) = (\<Sum>j < (e * q + i div ?mb) * ?mb. ?X j)"
      using sums index_less[OF len(2)] by simp
    moreover have "e * q + i div ?mb = (?e + i) div ?mb" unfolding E(1) using pos(1) by (simp add: mult.assoc mult.commute[of q])
    ultimately have "r ! i = mini_prefix ?mb ?X (?e + i) + (\<Sum>j < (?e + i) div ?mb * ?mb. ?X j)"
      using r(3)[OF that] reg(2) that(1) by simp
    also have "\<dots> = (\<Sum>j < ?e + i. ?X j)" using mini_prefix_total[of ?X "?e + i" ?mb] by (simp add: add.commute)
    finally show ?thesis .
  qed
  have old: "outputVec st' ! p = outputVec st ! p" if "?fb \<le> p" "p < ?fb + ?E" "p < N" for p
  proof -
    have "(p - F) div ?E = e" using that by (intro div_nat_eqI) (simp_all add: algebra_simps)
    then show ?thesis using st'(1,3) that(3) len(5) by (simp add: stored_def)
  qed
  have slen: "length (source src (outputVec st')) = N"
    using len(3-5) keep(2) by (cases src) (simp_all add: source_def)
  have src: "source src (outputVec st') ! p = xs ! p" if "?fb \<le> p" "p < ?fb + ?E" "p < N" for p
    using old[OF that] len(4) by (cases src) (simp_all add: source_def)
  have "\<exists>out. storeElems cfg ty scalar N src ?fb r (outputVec st') = Some out
    \<and> written ?fb (min ?E (N - ?fb)) (\<lambda>i. scan_out ty (source src (outputVec st') ! (?fb + i)) (r ! i)) (outputVec st') out"
    by (rule storeElems_value[OF r(2) slen keep(2)]) (use vec fits in auto)
  then obtain out where out: "storeElems cfg ty scalar N src ?fb r (outputVec st') = Some out"
    "written ?fb (min ?E (N - ?fb)) (\<lambda>i. scan_out ty (source src (outputVec st') ! (?fb + i)) (r ! i)) (outputVec st') out"
    by blast
  have mine: "F \<le> p \<and> (p - F) div ?E = e \<longleftrightarrow> ?fb \<le> p \<and> p < ?fb + ?E" for p
  proof (cases "F \<le> p")
    case True
    then obtain d where d: "p = F + d" by (auto simp: le_iff_add)
    have "d div ?E = e \<longleftrightarrow> ?e \<le> d \<and> d < ?e + ?E"
      using div_nat_eqI[of ?E e d] dividend_less_times_div[of ?E d] times_div_less_eq_dividend[of ?E d] pos(2)
      by (auto simp: algebra_simps)
    then show ?thesis by (simp add: d)
  qed auto
  have vals: "out ! p = (if F \<le> p \<and> (p - F) div ?E \<in> insert e es then chunk_value ty xs F p else outputVec st ! p)"
    if p: "p < N" for p
  proof (cases "F \<le> p \<and> (p - F) div ?E = e")
    case True
    then have seg: "?fb \<le> p" "p < ?fb + ?E" using mine by auto
    then have "?fb + (p - ?fb) = p" "p - ?fb < ?E" by auto
    moreover have "p < ?fb + min ?E (N - ?fb)" using seg p by (simp add: min_def)
    then have "out ! p = scan_out ty (source src (outputVec st') ! (?fb + (p - ?fb))) (r ! (p - ?fb))"
      using written_nth[OF out(2), of p] seg(1) p unfolding keep(2) by presburger
    moreover have "r ! (p - ?fb) = (\<Sum>j < p - F. ?X j)"
      using total[of "p - ?fb"] calculation(1,2) p by (simp add: algebra_simps)
    ultimately show ?thesis using True src[OF seg p] by (simp only: chunk_value_def insertI1 simp_thms if_True)
  next
    case False
    then have "\<not> (?fb \<le> p \<and> p < ?fb + min ?E (N - ?fb))" using mine[of p] p by auto
    then have "out ! p = outputVec st' ! p" using written_nth[OF out(2), of p] p keep(2) by auto
    then show ?thesis using st'(1) False p len(5) by (auto simp: stored_def)
  qed
  have "storeThread cfg ty scalar N F src ?e st' = Some (st'\<lparr>regMem := (regMem st')(?e := r), outputVec := out\<rparr>)"
    using r(1) out(1) keep(1,3) by (simp add: storeThread_def)
  moreover have "stored cfg ty xs F st (insert e es) (st'\<lparr>regMem := (regMem st')(?e := r), outputVec := out\<rparr>)"
    using st'(1) vals written_length[OF out(2)] len(5) pos(2) by (auto simp: stored_def)
  ultimately show ?thesis by blast
qed


text \<open>A phase in which every thread handles its frame element, in any order.\<close>

lemma phase_fold:
  assumes "0 < E" "mset es = mset (map (\<lambda>i. E * i) [0..<t])" "P {} s"
    and step: "\<And>I e s. I \<subseteq> {..<t} \<Longrightarrow> e < t \<Longrightarrow> e \<notin> I \<Longrightarrow> P I s \<Longrightarrow> \<exists>s'. f (E * e) s = Some s' \<and> P (insert e I) s'"
  shows "\<exists>s'. fold_opt f es s = Some s' \<and> P {..<t} s'"
proof -
  have set: "set es = (\<lambda>i. E * i) ` {..<t}" using mset_eq_setD[OF assms(2)] by auto
  have "distinct es"
    unfolding mset_eq_imp_distinct_iff[OF assms(2)] using assms(1) by (simp add: distinct_map inj_on_def)
  have "\<exists>s'. fold_opt f es s = Some s' \<and> P {e. E * e \<in> set (take (length es) es)} s'"
  proof (rule fold_opt_Some[where P = "\<lambda>k. P {e. E * e \<in> set (take k es)}"])
    fix k s assume k: "k < length es" and s: "P {e. E * e \<in> set (take k es)} s"
    obtain e where e: "es ! k = E * e" "e < t" using nth_mem[OF k] set by auto
    have "{e. E * e \<in> set (take k es)} \<subseteq> {..<t}" using set assms(1) by (auto dest!: in_set_takeD)
    moreover have "e \<notin> {e. E * e \<in> set (take k es)}"
    proof
      assume "e \<in> {e. E * e \<in> set (take k es)}"
      then obtain i where "i < k" "es ! i = es ! k" using e(1) k by (auto simp: in_set_conv_nth)
      then show False using nth_eq_iff_index_eq[OF \<open>distinct es\<close> _ k] k by simp
    qed
    moreover have "{e. E * e \<in> set (take (Suc k) es)} = insert e {e. E * e \<in> set (take k es)}"
      using k e(1) assms(1) by (auto simp: take_Suc_conv_app_nth)
    ultimately show "\<exists>s'. f (es ! k) s = Some s' \<and> P {e. E * e \<in> set (take (Suc k) es)} s'"
      using step[OF _ e(2) _ s] e(1) by simp
  qed (use assms(3) in simp)
  moreover have "{e. E * e \<in> set (take (length es) es)} = {..<t}" using set assms(1) by auto
  ultimately show ?thesis by simp
qed

lemma scalarFrame_vector:
  assumes "\<not> scalarFrame cfg N nc c" "c < nc" "nc = divCeil N (sc_chunkExtent cfg)" "0 < sc_chunkExtent cfg" "0 < N"
  shows "sc_elsPerThread cfg mod 4 = 0 \<and> sc_chunkExtent cfg * c + sc_chunkExtent cfg \<le> N"
proof -
  let ?ce = "sc_chunkExtent cfg"
  have b: "N \<le> nc * ?ce" "nc * ?ce < N + ?ce" using divCeil_nat_bounds[OF assms(4), of N] by (simp_all add: assms(3))
  have "?ce * (c + 1) \<le> N"
  proof (cases "c = nc - 1")
    case True
    then have "(N - 1) mod ?ce + 1 = ?ce" using assms(1) by (auto simp: scalarFrame_def Let_def)
    then have "?ce dvd N"
      using assms(5) by (metis Suc_eq_plus1 Suc_pred' mod_Suc mod_0_imp_dvd)
    then obtain r where r: "N = ?ce * r" by (rule dvdE)
    have "nc = r" unfolding assms(3) r by (rule divCeil_self_mult[OF assms(4)])
    then show ?thesis using True assms(2) r by simp
  next
    case False
    then have "(c + 1) * ?ce \<le> (nc - 1) * ?ce" using assms(2) by (intro mult_le_mono1) simp
    also have "\<dots> \<le> N" using b(2) by (simp add: diff_mult_distrib)
    finally show ?thesis by (simp add: mult.commute)
  qed
  moreover have "sc_elsPerThread cfg mod 4 = 0" using assms(1) by (auto simp: scalarFrame_def Let_def)
  ultimately show ?thesis by simp
qed

lemma scanChunk_value:
  fixes st :: "'a::comm_monoid_add scanMem"
  assumes wf: "wf_cfg cfg" and perm: "\<And>ph ys. mset (order ph ys) = mset ys"
    and len: "length (outputVec st) = N" "length (tmp st) = conflictFreeAdr cfg" "length xs = N"
      "source src (outputVec st) = xs" "withSums \<longrightarrow> c < length (blockSums st)"
    and c: "c < nc" "nc = divCeil N (sc_chunkExtent cfg)" "0 < N"
  defines "F \<equiv> sc_chunkExtent cfg * c"
  shows "\<exists>st'. scanChunk cfg ty withSums N nc src junk order c st = Some st'
    \<and> length (outputVec st') = N
    \<and> (\<forall>p < N. outputVec st' ! p = (if F \<le> p \<and> p < F + sc_chunkExtent cfg then chunk_value ty xs F p else outputVec st ! p))
    \<and> blockSums st' = (if withSums then (blockSums st)[c := \<Sum>i < sc_chunkExtent cfg. padded xs (F + i)] else blockSums st)"
proof -
  let ?E = "sc_elsPerThread cfg" and ?mb = "sc_miniBlockSize cfg" and ?w = "sc_warpSize cfg"
  let ?X = "\<lambda>i. padded xs (F + i)" and ?sc = "scalarFrame cfg N nc c" and ?adr = "conflictFreeAccess (sc_warpSize cfg)"
  obtain q m t where f: "0 < ?mb" "0 < q" "?E = ?mb * q" "sc_chunkExtent cfg = ?E * t" "miniBlocksPerChunk cfg = 2 ^ m"
    "2 ^ m = q * t" "0 < t" using wf by (auto elim!: wf_cfgE)
  have n: "miniBlocksPerChunk cfg = t * q" "2 ^ m = t * q" using f(5,6) by (simp_all add: mult.commute)
  have E0: "0 < ?E" "0 < sc_chunkExtent cfg" using f by simp_all
  have elems: "frame_elems (sc_chunkExtent cfg) ?E = map (\<lambda>i. ?E * i) [0..<t]"
    unfolding f(4) by (rule frame_elems_mult[OF E0(1)])
  note vec = scalarFrame_vector[OF _ c(1,2) E0(2) c(3), folded F_def]
  have "\<exists>s'. fold_opt (loadThread cfg ?sc N F src junk) (order LoadPhase (map (\<lambda>i. ?E * i) [0..<t])) st = Some s'
      \<and> loaded cfg q ?X st {..<t} s'"
    by (rule phase_fold[OF E0(1) perm, where P = "loaded cfg q ?X st"])
      (auto simp: loaded_def[of _ _ _ _ "{}"] intro!: loadThread_step[OF wf f(3,4) n(1) len(2) _ len(3,4) vec])
  then obtain s1 where s1: "fold_opt (loadThread cfg ?sc N F src junk) (order LoadPhase (map (\<lambda>i. ?E * i) [0..<t])) st = Some s1"
    "loaded cfg q ?X st {..<t} s1" by blast
  have keep1: "outputVec s1 = outputVec st" "blockSums s1 = blockSums st" "length (tmp s1) = conflictFreeAdr cfg"
    using s1(2) len(2) by (simp_all add: loaded_def)
  have mini: "tmp s1 ! ?adr k = mini_sum ?mb ?X k" if "k < 2 ^ m" for k
  proof -
    have "k div q < t" using that f(2) unfolding n(2) by (simp add: less_mult_imp_div_less)
    moreover have "k = k div q * q + k mod q" "k mod q < q" using f(2) by simp_all
    ultimately show ?thesis using s1(2) unfolding loaded_def by (metis lessThan_iff)
  qed
  have "placed ?adr (2 ^ m) (tmp s1)"
    using cell_bound[of _ cfg] f(5) keep1(3) by (simp add: placed_def conflictFreeAccess_inj)
  then obtain u v where uv: "upsweep ?adr (\<lambda>d. order (UpPhase d)) (2 ^ m div 2) 1 (tmp s1) = Some u" "length u = length (tmp s1)"
    "?adr (2 ^ m - 1) < length u" "u ! ?adr (2 ^ m - 1) = (\<Sum>k < 2 ^ m. tmp s1 ! ?adr k)"
    "downsweep ?adr (\<lambda>d. order (DownPhase d)) (2 ^ m) 1 (2 ^ m div 2) (u[?adr (2 ^ m - 1) := 0]) = Some v" "length v = length (tmp s1)"
    "\<forall>k < 2 ^ m. v ! ?adr k = (\<Sum>i < k. tmp s1 ! ?adr i)"
    by (rule sweeps_ok[of "\<lambda>d. order (UpPhase d)" "\<lambda>d. order (DownPhase d)", OF perm perm])
  have sums: "(\<Sum>i < k. tmp s1 ! ?adr i) = (\<Sum>i < k * ?mb. ?X i)" if "k \<le> 2 ^ m" for k
    using mini_sums[of ?mb ?X k] mini that by simp
  define sums' where "sums' = (if withSums then (blockSums st)[c := \<Sum>i < sc_chunkExtent cfg. ?X i] else blockSums st)"
  define s3 where "s3 = s1\<lparr>blockSums := sums', tmp := v\<rparr>"
  have "2 ^ m * ?mb = sc_chunkExtent cfg" unfolding f(3,4,6) by simp
  then have top: "u ! ?adr (2 ^ m - 1) = (\<Sum>i < sc_chunkExtent cfg. ?X i)" using uv(4) sums[of "2 ^ m"] by simp
  have save: "saveBlockSum cfg withSums c (s1\<lparr>tmp := u\<rparr>) = Some (s1\<lparr>tmp := u[?adr (2 ^ m - 1) := 0], blockSums := sums'\<rparr>)"
    using uv(3) top keep1(2) len(5) by (cases withSums) (simp_all add: saveBlockSum_def f(5) sums'_def Let_def)
  have "\<exists>s'. fold_opt (storeThread cfg ty ?sc N F src) (order StorePhase (map (\<lambda>i. ?E * i) [0..<t])) s3 = Some s'
      \<and> stored cfg ty xs F s3 {..<t} s'"
  proof (rule phase_fold[OF E0(1) perm, where P = "stored cfg ty xs F s3"])
    fix I e s assume e: "I \<subseteq> {..<t}" "e < t" "e \<notin> I" "stored cfg ty xs F s3 I s"
    show "\<exists>s'. storeThread cfg ty ?sc N F src (?E * e) s = Some s' \<and> stored cfg ty xs F s3 (insert e I) s'"
    proof (rule storeThread_step[OF wf f(3,4) n(1) _ e(2) len(3) _ _ vec _ _ _ e(4,1,3)])
      show "\<forall>k < t * q. tmp s3 ! ?adr k = (\<Sum>i < k * ?mb. ?X i)"
        using uv(7) sums by (simp add: s3_def flip: n(2))
    qed (use s1(2) e(2) keep1 uv(6) len(1,4) in \<open>auto simp: s3_def loaded_def\<close>)
  qed (auto simp: stored_def)
  then obtain s4 where s4: "fold_opt (storeThread cfg ty ?sc N F src) (order StorePhase (map (\<lambda>i. ?E * i) [0..<t])) s3 = Some s4"
    "stored cfg ty xs F s3 {..<t} s4" by blast
  have "scanChunk cfg ty withSums N nc src junk order c st = Some s4"
    using s1(1) uv(1,5) save s4(1) by (simp add: scanChunk_def F_def[symmetric] elems f(5) s3_def Let_def)
  moreover have "(p - F) div ?E < t \<longleftrightarrow> p < F + sc_chunkExtent cfg" if "F \<le> p" for p
    using that E0(1) by (auto simp: f(4) div_less_iff_less_mult mult.commute)
  ultimately show ?thesis
    using s4(2) keep1(1) len(1) by (auto simp: stored_def s3_def sums'_def)
qed


section \<open>All chunks\<close>

definition schedule_ok :: "'a scanRun \<Rightarrow> bool" where
  "schedule_ok r \<longleftrightarrow> 0 < run_warpSize r
     \<and> (\<forall>c ph ys. mset (run_order r c ph ys) = mset ys) \<and> (\<forall>ys. mset (run_chunkOrder r ys) = mset ys)
     \<and> (\<forall>ys. mset (run_callOrder r ys) = mset ys) \<and> (\<forall>c. length (run_shared r c) = conflictFreeAdr (run_cfg r))
     \<and> (\<forall>n. 0 < run_blocks r n) \<and> simdWidth (run_simd r) dvd chunkSize \<and> 0 < numSimdPacksPerFnCall (run_simd r)"

text \<open>On a CPU the size of an element must divide 32768, on every device the threads of a block the chunk.\<close>

definition run_ok :: "'a scanRun \<Rightarrow> bool" where
  "run_ok r \<longleftrightarrow> run_threads r dvd chunkSize \<and> 0 < run_sizeofData r
     \<and> (run_kind r = cpuDevice \<longrightarrow> run_sizeofData r dvd 32768) \<and> schedule_ok r"

lemma run_ok_cfg:
  assumes "run_ok r"
  shows "wf_cfg (run_cfg r)" "sc_chunkExtent (run_cfg r) = chunkSize"
  using assms wf_scanCfg by (auto simp: run_ok_def schedule_ok_def run_cfg_def scanCfg_def Let_def)

lemma chunk_value_cong:
  assumes "length xs = length ys" "\<And>i. F \<le> i \<Longrightarrow> i \<le> p \<Longrightarrow> i < length ys \<Longrightarrow> xs ! i = ys ! i" "F \<le> p" "p < length ys"
  shows "chunk_value ty xs F p = chunk_value ty ys F p"
proof -
  have "padded xs (F + i) = padded ys (F + i)" if "i < p - F" for i using assms that by (simp add: padded_def)
  then show ?thesis using assms by (simp add: chunk_value_def)
qed

definition chunk_sum :: "'a::comm_monoid_add list \<Rightarrow> nat \<Rightarrow> 'a" where
  "chunk_sum xs c = (\<Sum>i < chunkSize. padded xs (chunkSize * c + i))"

lemma chunk_sum_cong:
  assumes "length xs = length ys" "\<And>i. chunkSize * c \<le> i \<Longrightarrow> i < chunkSize * c + chunkSize \<Longrightarrow> i < length ys \<Longrightarrow> xs ! i = ys ! i"
  shows "chunk_sum xs c = chunk_sum ys c"
  unfolding chunk_sum_def by (rule sum.cong) (use assms in \<open>auto simp: padded_def\<close>)

definition chunks_done :: "scanType \<Rightarrow> bool \<Rightarrow> 'a::comm_monoid_add list option \<Rightarrow> 'a list \<Rightarrow> 'a list \<Rightarrow> nat set \<Rightarrow> 'a scanMem \<Rightarrow> bool" where
  "chunks_done ty withSums src out sums cs st \<longleftrightarrow> length (outputVec st) = length out \<and> length (blockSums st) = length sums
     \<and> (\<forall>p < length out. outputVec st ! p = (if p div chunkSize \<in> cs
          then chunk_value ty (source src out) (chunkSize * (p div chunkSize)) p else out ! p))
     \<and> (withSums \<longrightarrow> (\<forall>c \<in> cs. blockSums st ! c = chunk_sum (source src out) c))"

lemma chunk_step:
  fixes st :: "'a::comm_monoid_add scanMem"
  assumes r: "run_ok r" and N: "length out = N" "length (source src out) = N" "0 < N" "nc = divCeil N chunkSize"
    and sums: "withSums \<longrightarrow> nc \<le> length sums" and c: "c < nc" "c \<notin> cs"
    and st: "chunks_done ty withSums src out sums cs st" "cs \<subseteq> {..<nc}"
  shows "\<exists>st'. scanChunk (run_cfg r) ty withSums N nc src (run_junk r) (run_order r c) c (st\<lparr>tmp := run_shared r c\<rparr>) = Some st'
    \<and> chunks_done ty withSums src out sums (insert c cs) st'"
proof -
  note cfg = run_ok_cfg[OF r]
  let ?st = "st\<lparr>tmp := run_shared r c\<rparr>" and ?F = "chunkSize * c"
  let ?xs = "source src (outputVec st)"
  have perm: "\<And>ph ys. mset (run_order r c ph ys) = mset ys" and sh: "length (run_shared r c) = conflictFreeAdr (run_cfg r)"
    using r by (simp_all add: run_ok_def schedule_ok_def)
  have ce: "0 < chunkSize" by (simp add: chunkSize_def)
  have div: "p div chunkSize = c \<longleftrightarrow> ?F \<le> p \<and> p < ?F + chunkSize" for p
    using div_nat_eqI[of chunkSize c p] dividend_less_times_div[OF ce, of p] times_div_less_eq_dividend[of chunkSize p]
    by (auto simp: algebra_simps)
  have len: "length (outputVec st) = N" "length ?xs = N"
    using st(1) N by (cases src; simp add: chunks_done_def source_def)+
  have same: "?xs ! i = source src out ! i" if "?F \<le> i" "i < ?F + chunkSize" "i < N" for i
  proof (cases src)
    case None
    have "i div chunkSize = c" using that div by blast
    then show ?thesis using st(1) c(2) that(3) N(1) None by (simp add: chunks_done_def source_def)
  qed (simp add: source_def)
  have "\<exists>st'. scanChunk (run_cfg r) ty withSums N nc src (run_junk r) (run_order r c) c ?st = Some st'
    \<and> length (outputVec st') = N
    \<and> (\<forall>p < N. outputVec st' ! p = (if ?F \<le> p \<and> p < ?F + chunkSize then chunk_value ty ?xs ?F p else outputVec st ! p))
    \<and> blockSums st' = (if withSums then (blockSums st)[c := chunk_sum ?xs c] else blockSums st)"
  proof -
    have b: "withSums \<longrightarrow> c < length (blockSums ?st)" using sums c(1) st(1) by (auto simp: chunks_done_def)
    have l: "length (outputVec ?st) = N" "length (tmp ?st) = conflictFreeAdr (run_cfg r)" "source src (outputVec ?st) = ?xs"
      using len(1) sh by simp_all
    from scanChunk_value[where st = ?st and xs = ?xs and N = N and nc = nc and c = c and src = src
        and withSums = withSums and ty = ty and junk = "run_junk r" and order = "run_order r c",
        OF cfg(1) perm l(1,2) len(2) l(3) b c(1) N(4)[folded cfg(2)] N(3), unfolded cfg(2), folded chunk_sum_def]
    show ?thesis by (simp split del: if_split cong: if_cong)
  qed
  then obtain st' where st': "scanChunk (run_cfg r) ty withSums N nc src (run_junk r) (run_order r c) c ?st = Some st'"
    "length (outputVec st') = N"
    "\<And>p. p < N \<Longrightarrow> outputVec st' ! p = (if ?F \<le> p \<and> p < ?F + chunkSize then chunk_value ty ?xs ?F p else outputVec st ! p)"
    "blockSums st' = (if withSums then (blockSums st)[c := chunk_sum ?xs c] else blockSums st)" by blast
  have "outputVec st' ! p = (if p div chunkSize \<in> insert c cs
      then chunk_value ty (source src out) (chunkSize * (p div chunkSize)) p else out ! p)" if p: "p < N" for p
  proof (cases "p div chunkSize = c")
    case True
    then have "chunk_value ty ?xs ?F p = chunk_value ty (source src out) ?F p"
      using div[of p] same p len(2) N(2) by (intro chunk_value_cong) auto
    then show ?thesis using st'(3)[OF p] True div[of p] by simp
  next
    case False
    then show ?thesis using st'(3)[OF p] div[of p] st(1) p N(1) by (auto simp: chunks_done_def)
  qed
  moreover have "chunk_sum ?xs c = chunk_sum (source src out) c"
    by (rule chunk_sum_cong) (use len(2) N(2) same in auto)
  ultimately have "chunks_done ty withSums src out sums (insert c cs) st'"
    using st' st N(1) sums c by (auto simp: chunks_done_def nth_list_update)
  then show ?thesis using st'(1) by blast
qed

lemma scanBlocksKernel_value:
  fixes out :: "'a::comm_monoid_add list"
  assumes r: "run_ok r" and N: "length out = N" "length (source src out) = N" "nc = divCeil N chunkSize"
    and sums: "withSums \<longrightarrow> nc \<le> length sums"
  shows "\<exists>out' sums'. scanBlocksKernel r ty withSums N nc src out sums = Some (out', sums')
    \<and> length out' = N \<and> length sums' = length sums
    \<and> (\<forall>p < N. out' ! p = chunk_value ty (source src out) (chunkSize * (p div chunkSize)) p)
    \<and> (withSums \<longrightarrow> (\<forall>c < nc. sums' ! c = chunk_sum (source src out) c))"
proof -
  let ?cs = "run_chunkOrder r [0..<nc]"
  let ?f = "\<lambda>c st. scanChunk (run_cfg r) ty withSums N nc src (run_junk r) (run_order r c) c (st\<lparr>tmp := run_shared r c\<rparr>)"
  let ?st = "\<lparr>regMem = (\<lambda>_. []), tmp = [], outputVec = out, blockSums = sums\<rparr>"
  have perm: "mset ?cs = mset (map (\<lambda>i. 1 * i) [0..<nc])" using r by (simp add: run_ok_def schedule_ok_def)
  have "\<exists>st. fold_opt ?f ?cs ?st = Some st \<and> chunks_done ty withSums src out sums {..<nc} st"
  proof (rule phase_fold[OF zero_less_one perm, where P = "chunks_done ty withSums src out sums"])
    fix I c st assume c: "I \<subseteq> {..<nc}" "c < nc" "c \<notin> I" "chunks_done ty withSums src out sums I st"
    then have "0 < N" using N(3) by (cases N) (simp_all add: divCeil_def chunkSize_def)
    then show "\<exists>s'. ?f (1 * c) st = Some s' \<and> chunks_done ty withSums src out sums (insert c I) s'"
      using chunk_step[OF r N(1,2) _ N(3) sums c(2,3,4,1)] by simp
  qed (simp add: chunks_done_def)
  then obtain st where st: "fold_opt ?f ?cs ?st = Some st" "chunks_done ty withSums src out sums {..<nc} st" by blast
  have "p div chunkSize < nc" if "p < N" for p
  proof -
    have "N \<le> nc * chunkSize" unfolding N(3) by (rule divCeil_nat_bounds) (simp add: chunkSize_def)
    then show ?thesis using that by (simp add: less_mult_imp_div_less)
  qed
  then show ?thesis using st N(1) by (simp add: scanBlocksKernel_def chunks_done_def)
qed


section \<open>Adding the increments\<close>

definition segment_step :: "nat \<times> nat \<times> 'a::plus \<Rightarrow> 'a list \<Rightarrow> 'a list option" where
  "segment_step = (\<lambda>(b, n, v). addIncrements b v n)"

interpretation segment: parallel_phase segment_step "\<lambda>(b, n, v). {b..<b + n}" "\<lambda>(b, n, v) s j. s ! j + v"
proof
  fix x :: "nat \<times> nat \<times> 'a::plus" and s :: "'a list"
  obtain b n v where x: "x = (b, n, v)" by (cases x)
  assume bound: "\<forall>c \<in> (case x of (b, n, v) \<Rightarrow> {b..<b + n}). c < length s"
  show "\<exists>s'. segment_step x s = Some s' \<and> length s' = length s
      \<and> (\<forall>j < length s. s' ! j = (if j \<in> (case x of (b, n, v) \<Rightarrow> {b..<b + n})
            then (case x of (b, n, v) \<Rightarrow> \<lambda>s j. s ! j + v) s j else s ! j))"
  proof (cases "n = 0")
    case True
    then show ?thesis by (simp add: x segment_step_def addIncrements_def)
  next
    case False
    then have "b + (n - 1) < length s" using bound by (simp add: x)
    then have le: "b + n \<le> length s" using False by simp
    have "(take b s @ map (\<lambda>i. s ! (b + i) + v) [0..<n] @ drop (b + n) s) ! j
        = (if j \<in> {b..<b + n} then s ! j + v else s ! j)" if "j < length s" for j
      using that le by (auto simp: nth_append)
    then show ?thesis using addIncrements_value[OF le, of v] le by (simp add: x segment_step_def)
  qed
qed auto

lemma addIncrementsCall_segment:
  assumes "hd (fst c) div chunkSize < length sums"
  shows "addIncrementsCall chunkSize sums c out
    = segment_step (hd (fst c), snd c, sums ! (hd (fst c) div chunkSize)) out"
  using assms by (simp add: addIncrementsCall_def segment_step_def addIncrements_def Let_def)

text \<open>A pack lies in one chunk, because its width divides the chunk and its first index.\<close>

lemma pack_chunk:
  assumes "w dvd chunkSize" "w dvd b" "b \<le> i" "i < b + (w :: nat)"
  shows "i div chunkSize = b div chunkSize"
proof -
  from assms(1,2) obtain k m where k: "chunkSize = w * k" and m: "b = w * m" by (auto elim!: dvdE)
  have "0 < w" using assms(3,4) by simp
  have "i div w = m" using assms(3,4) m by (intro div_nat_eqI) (simp_all add: algebra_simps)
  then show ?thesis using \<open>0 < w\<close> unfolding k m by (simp add: div_mult2_eq)
qed

text \<open>Calls that cover every element once add the increment of its chunk to every element, in any order.\<close>

lemma addIncrementsCalls_value:
  fixes out :: "'a::comm_monoid_add list"
  assumes cover: "mset (concat (map call_elements cs)) = mset (all_idx [N])"
    and shape: "\<And>c. c \<in> set cs \<Longrightarrow> (\<exists>k. c = ([k * W], W)) \<or> (\<exists>k. c = ([k], 1))" and W: "0 < W" "W dvd chunkSize"
    and N: "length out = N" "nc = divCeil N chunkSize" "nc \<le> length sums"
  shows "\<exists>out'. fold_opt (addIncrementsCall chunkSize sums) cs out = Some out' \<and> length out' = N
    \<and> (\<forall>p < N. out' ! p = out ! p + sums ! (p div chunkSize))"
proof -
  have elems: "call_elements c = map (\<lambda>j. [hd (fst c) + j]) [0..<snd c]" if "c \<in> set cs" for c
    using shape[OF that] call_elements_snoc[of "[]"] by auto
  have idx: "set (concat (map call_elements cs)) = (\<lambda>i. [i]) ` {..<N}" "distinct (concat (map call_elements cs))"
    using mset_eq_setD[OF cover] mset_eq_imp_distinct_iff[OF cover] all_idx_snoc[of "[]" N]
    by (auto simp: distinct_map inj_on_def)
  let ?conv = "\<lambda>c :: simd_call. (hd (fst c), snd c, sums ! (hd (fst c) div chunkSize))"
  have ne: "call_elements c \<noteq> []" if "c \<in> set cs" for c using shape[OF that] elems[OF that] W(1) by auto
  then have "[] \<notin> call_elements ` set cs" by (metis imageE)
  then have "removeAll [] (map call_elements cs) = map call_elements cs" by (simp only: removeAll_id set_map not_False_eq_True)
  then have "distinct (map call_elements cs)" and pair: "\<And>ys zs. ys \<in> call_elements ` set cs \<Longrightarrow> zs \<in> call_elements ` set cs \<Longrightarrow> ys \<noteq> zs \<Longrightarrow> set ys \<inter> set zs = {}"
    using idx(2) unfolding distinct_concat_iff set_map by (metis, blast)
  then have dist: "distinct cs" "inj_on call_elements (set cs)" by (simp_all add: distinct_map)
  have disj: "set (call_elements c) \<inter> set (call_elements c') = {}" if "c \<in> set cs" "c' \<in> set cs" "c \<noteq> c'" for c c'
    using pair[OF imageI imageI, OF that(1,2)] inj_onD[OF dist(2) _ that(1,2)] that(3) by blast
  have range: "set (call_elements c) = (\<lambda>i. [i]) ` {hd (fst c)..<hd (fst c) + snd c}" if "c \<in> set cs" for c
    unfolding elems[OF that] by (auto simp: image_iff Bex_def) (metis add_diff_inverse_nat nat_add_left_cancel_less not_less)
  have sub: "{hd (fst c)..<hd (fst c) + snd c} \<subseteq> {..<N}" if "c \<in> set cs" for c
  proof -
    have "set (call_elements c) \<subseteq> (\<lambda>i. [i]) ` {..<N}" using idx(1) that by auto
    then show ?thesis unfolding range[OF that] by auto
  qed
  have first: "hd (fst c) < N" if "c \<in> set cs" for c
  proof -
    have "0 < snd c" using ne[OF that] elems[OF that] by simp
    then show ?thesis using subsetD[OF sub[OF that], of "hd (fst c)"] by simp
  qed
  have lookup: "i div chunkSize < length sums" if "i < N" for i
    using that divCeil_nat_bounds(1)[of chunkSize N] N(2,3) by (simp add: chunkSize_def less_mult_imp_div_less)
  have conv: "distinct (map ?conv cs)"
    using dist elems by (auto simp: distinct_map inj_on_def)
  have "\<exists>s'. fold_opt segment_step (map ?conv cs) out = Some s' \<and> length s' = length out
     \<and> (\<forall>x \<in> set (map ?conv cs). \<forall>j \<in> (case x of (b, n, v) \<Rightarrow> {b..<b + n}). s' ! j = (case x of (b, n, v) \<Rightarrow> \<lambda>s j. s ! j + v) out j)
     \<and> (\<forall>j < length out. (\<forall>x \<in> set (map ?conv cs). j \<notin> (case x of (b, n, v) \<Rightarrow> {b..<b + n})) \<longrightarrow> s' ! j = out ! j)"
  proof (rule segment.phase[OF conv])
    show "\<forall>x \<in> set (map ?conv cs). \<forall>y \<in> set (map ?conv cs). x \<noteq> y \<longrightarrow>
        (case x of (b, n, v) \<Rightarrow> {b..<b + n}) \<inter> (case y of (b, n, v) \<Rightarrow> {b..<b + n}) = {}"
    proof (intro ballI impI)
      fix x y assume "x \<in> set (map ?conv cs)" "y \<in> set (map ?conv cs)" "x \<noteq> y"
      then obtain c c' where c: "x = ?conv c" "y = ?conv c'" "c \<in> set cs" "c' \<in> set cs" "c \<noteq> c'" by auto
      have "(\<lambda>i. [i]) ` {hd (fst c)..<hd (fst c) + snd c} \<inter> (\<lambda>i. [i]) ` {hd (fst c')..<hd (fst c') + snd c'} = {}"
        using disj[OF c(3-5)] unfolding range[OF c(3)] range[OF c(4)] .
      then show "(case x of (b, n, v) \<Rightarrow> {b..<b + n}) \<inter> (case y of (b, n, v) \<Rightarrow> {b..<b + n}) = {}"
        unfolding c(1,2) prod.case by blast
    qed
    show "\<forall>x \<in> set (map ?conv cs). \<forall>c \<in> (case x of (b, n, v) \<Rightarrow> {b..<b + n}). c < length out"
      using sub N(1) by fastforce
  qed
  then obtain s' where s': "fold_opt segment_step (map ?conv cs) out = Some s'" "length s' = length out"
    "\<And>c j. c \<in> set cs \<Longrightarrow> j \<in> {hd (fst c)..<hd (fst c) + snd c} \<Longrightarrow> s' ! j = out ! j + sums ! (hd (fst c) div chunkSize)"
    by fastforce
  have "fold_opt (addIncrementsCall chunkSize sums) cs out = fold_opt segment_step (map ?conv cs) out"
    by (rule fold_opt_cong_map) (use addIncrementsCall_segment lookup first in blast)
  moreover have "s' ! p = out ! p + sums ! (p div chunkSize)" if p: "p < N" for p
  proof -
    have "[p] \<in> set (concat (map call_elements cs))" unfolding idx(1) using p by simp
    then obtain c where c: "c \<in> set cs" "[p] \<in> set (call_elements c)" by auto
    then have "p \<in> {hd (fst c)..<hd (fst c) + snd c}" using range[OF c(1)] by auto
    moreover from this have "p div chunkSize = hd (fst c) div chunkSize"
      using shape[OF c(1)] pack_chunk[OF W(2), of "hd (fst c)" p] by (auto simp: less_Suc_eq_le dest: order.antisym)
    ultimately show ?thesis using s'(3)[OF c(1)] by simp
  qed
  ultimately show ?thesis using s'(1,2) N(1) by auto
qed

lemma scanAddIncrementsKernel_value:
  fixes out :: "'a::comm_monoid_add list"
  assumes r: "run_ok r" and N: "length out = N" "nc = divCeil N chunkSize" "nc \<le> length sums"
  shows "\<exists>out'. scanAddIncrementsKernel r nc N sums out = Some out' \<and> length out' = N
    \<and> (\<forall>p < N. out' ! p = out ! p + sums ! (p div chunkSize))"
proof -
  let ?B = "[run_blocks r nc]" and ?T = "[run_threads r]" and ?W = "simdWidth (run_simd r)"
  let ?call = "\<lambda>b t. the (concurrent (run_simd r) Flat Optimized
              (launch_acc (run_api r) (run_deviceKind r) (run_warpSize r) ?B ?T b t) worker_threadsInGrid [N])"
  let ?C = "concat (map (\<lambda>(b, t). ?call b t) (List.product (all_idx ?B) (all_idx ?T)))"
  let ?cs = "run_callOrder r ?C"
  have pos: "0 < run_blocks r nc" "0 < run_threads r" "0 < ?W" "0 < numSimdPacksPerFnCall (run_simd r)" "?W dvd chunkSize"
    using r by (auto simp: run_ok_def schedule_ok_def chunkSize_def intro!: Nat.gr0I)
  have perm: "mset ?cs = mset ?C" using r by (simp add: run_ok_def schedule_ok_def)
  have "mset (concat (map call_elements ?C)) = mset (all_idx [N])"
    using concurrent_complete[of ?B ?T "[N]" "run_simd r" Flat Optimized "run_api r" "run_deviceKind r" "run_warpSize r"] pos
    by (simp add: map_concat comp_def case_prod_unfold concat_concat_map del: all_idx.simps)
  then have cover: "mset (concat (map call_elements ?cs)) = mset (all_idx [N])"
    using mset_concat_map_mset[OF perm, of call_elements] by (simp only:)
  have shape: "(\<exists>k. c = ([k * ?W], ?W)) \<or> (\<exists>k. c = ([k], 1))" if "c \<in> set ?cs" for c
  proof -
    have "c \<in> set ?C" using mset_eq_setD[OF perm] that by simp
    then obtain b t where "in_extents b ?B" "in_extents t ?T" "c \<in> set (?call b t)" by (auto simp: set_all_idx simp del: all_idx.simps)
    then show ?thesis by (rule_tac concurrent_call_shape[OF pos(1-4)])
  qed
  obtain out' where "fold_opt (addIncrementsCall chunkSize sums) ?cs out = Some out'" "length out' = N"
    "\<forall>p < N. out' ! p = out ! p + sums ! (p div chunkSize)"
    using addIncrementsCalls_value[OF cover shape pos(3,5) N] by blast
  then show ?thesis using run_ok_cfg(2)[OF r] by (simp add: scanAddIncrementsKernel_def Let_def)
qed


section \<open>The host recursion\<close>

lemma scanBufferLoop_add: "scanBufferLoop n b = b + scanBufferLoop n 0"
proof (induction n arbitrary: b rule: less_induct)
  case (less n)
  show ?case
  proof (cases "1 < n")
    case True
    from less.IH[OF divCeil_chunkSize_less[OF True]]
    have "scanBufferLoop (divCeil n chunkSize) (b + n) = b + n + scanBufferLoop (divCeil n chunkSize) 0"
      "scanBufferLoop (divCeil n chunkSize) n = n + scanBufferLoop (divCeil n chunkSize) 0" by metis+
    then show ?thesis using True by (subst (1 2) scanBufferLoop.simps) simp
  qed (simp add: scanBufferLoop.simps)
qed

lemma scanBufferLoop_rec: "1 < n \<Longrightarrow> scanBufferLoop n 0 = n + scanBufferLoop (divCeil n chunkSize) 0"
  using scanBufferLoop_add[of "divCeil n chunkSize" n] by (subst scanBufferLoop.simps) simp

text \<open>The specification: every element becomes the sum of the elements before it, plus itself if inclusive.\<close>

definition prefix_sums :: "scanType \<Rightarrow> 'a::comm_monoid_add list \<Rightarrow> 'a list" where
  "prefix_sums ty xs = map (\<lambda>p. scan_out ty (xs ! p) (\<Sum>i < p. xs ! i)) [0..<length xs]"

lemma chunk_sums: "(\<Sum>k < c. chunk_sum xs k) = (\<Sum>i < chunkSize * c. padded xs i)"
  by (induction c) (simp_all add: chunk_sum_def sum_lessThan_add[of "padded xs" "chunkSize * c" chunkSize for c] add.commute[of chunkSize])

lemma chunk_value_total:
  assumes "p < length xs"
  shows "chunk_value ty xs (chunkSize * (p div chunkSize)) p + (\<Sum>k < p div chunkSize. chunk_sum xs k) = prefix_sums ty xs ! p"
proof -
  let ?F = "chunkSize * (p div chunkSize)"
  have "(\<Sum>i < ?F + (p - ?F). padded xs i) = (\<Sum>i < ?F. padded xs i) + (\<Sum>i < p - ?F. padded xs (?F + i))"
    by (rule sum_lessThan_add)
  then have "(\<Sum>i < p. padded xs i) = (\<Sum>i < ?F. padded xs i) + (\<Sum>i < p - ?F. padded xs (?F + i))" by simp
  moreover have "(\<Sum>i < p. padded xs i) = (\<Sum>i < p. xs ! i)" using assms by (simp add: padded_def)
  ultimately show ?thesis
    using assms by (cases ty) (simp_all add: chunk_value_def prefix_sums_def scan_out_def chunk_sums ac_simps)
qed

lemma scan_value:
  fixes out :: "'a::comm_monoid_add list"
  assumes r: "run_ok r" and "length out = N" "length (source src out) = N"
    and "scanBufferLoop (divCeil N chunkSize) 0 * run_sizeofData r \<le> bytes"
  shows "scan r ty bytes N src out = Some (prefix_sums ty (source src out))"
  using assms(2-)
proof (induction N arbitrary: ty bytes src out rule: less_induct)
  case (less N)
  let ?nc = "divCeil N chunkSize" and ?xs = "source src out"
  note kernel = scanBlocksKernel_value[OF r less.prems(1,2) refl, of _ _ ty]
  show ?case
  proof (cases "?nc > 1")
    case False
    from kernel[of False "[]"] obtain out' sums' where out': "scanBlocksKernel r ty False N ?nc src out [] = Some (out', sums')"
      "length out' = N" "\<forall>p < N. out' ! p = chunk_value ty ?xs (chunkSize * (p div chunkSize)) p" by auto
    have "out' ! p = prefix_sums ty ?xs ! p" if p: "p < N" for p
    proof -
      have "N \<le> ?nc * chunkSize" by (rule divCeil_nat_bounds) (simp add: chunkSize_def)
      also have "\<dots> \<le> 1 * chunkSize" using False by (intro mult_le_mono1) simp
      finally have "p div chunkSize = 0" using p by simp
      then show ?thesis using chunk_value_total[of p ?xs ty] out'(3) p less.prems(2) by simp
    qed
    then have "out' = prefix_sums ty ?xs"
      using out'(2) less.prems(2) by (intro nth_equalityI) (simp_all add: prefix_sums_def)
    then show ?thesis using False out'(1) by (subst scan.simps) (simp add: Let_def)
  next
    case True
    let ?sz = "run_sizeofData r" and ?inc = "replicate ?nc (run_junk r)"
    have buf: "?nc * ?sz \<le> bytes" "scanBufferLoop (divCeil ?nc chunkSize) 0 * ?sz \<le> bytes - ?nc * ?sz"
      using less.prems(3) scanBufferLoop_rec[OF True] by (simp_all add: algebra_simps)
    from kernel[of True ?inc] obtain out' sums' where out': "scanBlocksKernel r ty True N ?nc src out ?inc = Some (out', sums')"
      "length out' = N" "length sums' = ?nc" "\<forall>p < N. out' ! p = chunk_value ty ?xs (chunkSize * (p div chunkSize)) p"
      "\<forall>c < ?nc. sums' ! c = chunk_sum ?xs c" by auto
    have "?nc < N" using True divCeil_chunkSize_less[of N] by (cases "1 < N") (auto simp: divCeil_def chunkSize_def)
    from less.IH[OF this out'(3), of None "bytes - ?nc * ?sz" exclusiveScan] buf(2)
    have inc: "scan r exclusiveScan (bytes - ?nc * ?sz) ?nc None sums' = Some (prefix_sums exclusiveScan sums')"
      using out'(3) by (simp add: source_def)
    obtain out'' where out'': "scanAddIncrementsKernel r ?nc N (prefix_sums exclusiveScan sums') out' = Some out''"
      "length out'' = N" "\<forall>p < N. out'' ! p = out' ! p + prefix_sums exclusiveScan sums' ! (p div chunkSize)"
      using scanAddIncrementsKernel_value[OF r out'(2) refl, of "prefix_sums exclusiveScan sums'"] out'(3)
      by (auto simp: prefix_sums_def)
    have "out'' ! p = prefix_sums ty ?xs ! p" if p: "p < N" for p
    proof -
      have "N \<le> ?nc * chunkSize" by (rule divCeil_nat_bounds) (simp add: chunkSize_def)
      then have c: "p div chunkSize < ?nc" using p by (simp add: less_mult_imp_div_less)
      have "prefix_sums exclusiveScan sums' ! (p div chunkSize) = (\<Sum>k < p div chunkSize. chunk_sum ?xs k)"
        using c out'(3,5) by (simp add: prefix_sums_def scan_out_def)
      then show ?thesis using chunk_value_total[of p ?xs ty] out''(3) out'(4) p less.prems(2) by simp
    qed
    then have "out'' = prefix_sums ty ?xs"
      using out''(2) less.prems(2) by (intro nth_equalityI) (simp_all add: prefix_sums_def)
    then show ?thesis using True out'(1) inc out''(1) buf(1) by (subst scan.simps) (simp add: Let_def not_less)
  qed
qed

text \<open>
  Property C2. The prefix sum of the host, when the threads of a block divide the chunk size and, on a
  CPU, the size of the element type divides 32768 (it is a power of two of at most 32 KiB): with the buffer
  it allocates itself it never fails an assertion, never accesses an array out of bounds, ends, and the
  output holds the prefix sums of the input, for every number of elements whose indices fit the index
  type, both scan types, separate or in-place input, every order of the threads of a block in every phase,
  of the blocks and of the calls that add the increments, and whatever the registers and the shared
  memory held before. For other element sizes on a CPU the claim is false, as the next section shows.
\<close>

theorem scan_correct:
  fixes out :: "'a::comm_monoid_add list"
  assumes "run_threads r dvd chunkSize" and "0 < run_sizeofData r"
    and "run_kind r = cpuDevice \<longrightarrow> run_sizeofData r dvd 32768" and "schedule_ok r"
    and "length out = N" and "length (source src out) = N"
  shows "scan_alloc r ty N src out = Some (prefix_sums ty (source src out))"
  unfolding scan_alloc_def scanBufferSize_def
  by (rule scan_value) (use assms in \<open>simp_all add: run_ok_def\<close>)


definition example_run :: "nat \<Rightarrow> nat scanRun" where
  "example_run sz = \<lparr>run_kind = cpuDevice, run_warpSize = 1, run_sizeofData = sz, run_blocks = Suc, run_threads = 1,
     run_simd = \<lparr>simdWidth = 4, numSimdPacksPerFnCall = 2\<rparr>, run_api = Host, run_deviceKind = Cpu, run_junk = 77,
     run_shared = (\<lambda>_. [99]), run_order = (\<lambda>_ _. rev), run_chunkOrder = rev, run_callOrder = rev\<rparr>"

lemma scan_correct_witness: "scan_alloc (example_run 8) inclusiveScan 3 None [1, 2, 3 :: nat] = Some [1, 3, 6]"
proof -
  have "conflictFreeAdr (run_cfg (example_run 8)) = 1"
    by (simp add: example_run_def run_cfg_def scanCfg_def maximumMiniBlockSize_def chunkSize_def conflictFreeAdr_def
        miniBlocksPerChunk_def conflictFreeAccess_def)
  moreover have "(8 :: nat) dvd 32768" "(4 :: nat) dvd 2048" by presburger+
  ultimately have ok: "run_threads (example_run 8) dvd chunkSize" "0 < run_sizeofData (example_run 8)"
      "run_kind (example_run 8) = cpuDevice \<longrightarrow> run_sizeofData (example_run 8) dvd 32768" "schedule_ok (example_run 8)"
    by (simp_all add: schedule_ok_def example_run_def chunkSize_def)
  from scan_correct[OF ok, of "[1, 2, 3]" 3 None inclusiveScan]
  show ?thesis by (simp add: source_def prefix_sums_def scan_out_def upt_rec numeral_eq_Suc)
qed

section \<open>When the mini blocks do not divide the elements of a thread\<close>

lemma fold_opt_length:
  assumes "\<And>x s s'. f x s = Some s' \<Longrightarrow> length s' = length s"
  shows "fold_opt f xs s = Some s' \<Longrightarrow> length s' = length s"
proof (induction xs arbitrary: s)
  case (Cons x xs)
  then show ?case using assms by (auto simp: bind_eq_Some_conv)
qed simp

lemma fold_opt_overrun:
  assumes "\<And>x s s'. f x s = Some s' \<Longrightarrow> length s' = length s" "\<And>s'. length s' = length s \<Longrightarrow> f (length s) s' = None" "length s < n"
  shows "fold_opt f [0..<n] s = None"
proof -
  have "[0..<n] = [0..<length s] @ [length s..<n]" using upt_append[of 0 "length s" n] assms(3) by simp
  then have "[0..<n] = [0..<length s] @ length s # [Suc (length s)..<n]" using assms(3) by (simp add: upt_conv_Cons)
  then have split: "fold_opt f [0..<n] s = Option.bind (fold_opt f [0..<length s] s) (fold_opt f (length s # [Suc (length s)..<n]))"
    by (simp only: fold_opt_append)
  show ?thesis
  proof (cases "fold_opt f [0..<length s] s")
    case (Some s')
    have "length s' = length s" using assms(1) Some by (rule fold_opt_length)
    then show ?thesis unfolding split Some using assms(2) by simp
  qed (simp add: split)
qed

lemma arr_set_length: "arr_set xs i v = Some ys \<Longrightarrow> length ys = length xs"
  by (auto simp: arr_set_def split: if_splits)

lemma loadElems_overrun:
  assumes "length reg < sc_elsPerThread cfg" "\<not> scalar \<Longrightarrow> sc_elsPerThread cfg mod 4 = 0"
  shows "loadElems cfg scalar inp N fb reg = None"
proof (cases scalar)
  case True
  let ?g = "\<lambda>i reg. if fb + i < N then Option.bind (arr_get inp (fb + i)) (arr_set reg i) else arr_set reg i 0"
  have "length s' = length s" if "?g i s = Some s'" for i s s'
    using that by (cases "fb + i < N"; cases "arr_get inp (fb + i)") (auto dest: arr_set_length)
  moreover have "?g (length reg) s' = None" if "length s' = length reg" for s'
    using that by (cases "fb + length reg < N"; cases "arr_get inp (fb + length reg)") simp_all
  ultimately show ?thesis unfolding loadElems_def Let_def if_P[OF True] using assms(1) by (rule fold_opt_overrun)
next
  case False
  then have E: "4 * (sc_elsPerThread cfg div 4) = sc_elsPerThread cfg" using assms(2) by auto
  let ?f = "\<lambda>i reg. Option.bind (arr_get inp (fb + i)) (arr_set reg i)"
  have "loadElems cfg scalar inp N fb reg = fold_opt ?f [0..<sc_elsPerThread cfg] reg"
    using fold_opt_packs[of ?f 4 "sc_elsPerThread cfg div 4" reg] frame_elems_mult[of 4 "sc_elsPerThread cfg div 4"]
    unfolding loadElems_def Let_def if_not_P[OF False] E by (simp add: add.assoc)
  also have "\<dots> = None"
  proof (rule fold_opt_overrun[OF _ _ assms(1)])
    show "length s' = length s" if "?f i s = Some s'" for i s s'
      using that by (cases "arr_get inp (fb + i)") (auto dest: arr_set_length)
    show "?f (length reg) s' = None" if "length s' = length reg" for s'
      using that by (cases "arr_get inp (fb + length reg)") simp_all
  qed
  finally show ?thesis .
qed

lemma loadElems_behind:
  assumes "length reg = l" "l < sc_elsPerThread cfg" "sc_elsPerThread cfg - l \<le> length behind"
    and "scalar \<or> sc_elsPerThread cfg mod 4 = 0 \<and> fb + sc_elsPerThread cfg \<le> length inp"
  shows "loadElems cfg scalar inp (length inp) fb (reg @ behind)
    = Some (map (\<lambda>i. padded inp (fb + i)) [0..<sc_elsPerThread cfg] @ drop (sc_elsPerThread cfg - l) behind)"
proof -
  let ?E = "sc_elsPerThread cfg"
  have fit: "?E \<le> length (reg @ behind)" using assms(1-3) by simp
  have packs: "\<not> scalar \<Longrightarrow> ?E mod 4 = 0 \<and> fb + ?E \<le> length inp" using assms(4) by blast
  obtain reg' where reg': "loadElems cfg scalar inp (length inp) fb (reg @ behind) = Some reg'"
    "written 0 ?E (\<lambda>i. padded inp (fb + i)) (reg @ behind) reg'"
    using loadElems_written[OF fit packs] by blast
  have "reg' = map (\<lambda>i. padded inp (fb + i)) [0..<?E] @ drop (?E - l) behind"
  proof (rule nth_equalityI)
    show len: "length reg' = length (map (\<lambda>i. padded inp (fb + i)) [0..<?E] @ drop (?E - l) behind)"
      using written_length[OF reg'(2)] assms(1-3) by simp
    fix i assume "i < length reg'"
    then have "reg' ! i = (if i < ?E then padded inp (fb + i) else (reg @ behind) ! i)"
      using written_nth[OF reg'(2)] written_length[OF reg'(2)] by simp
    then show "reg' ! i = (map (\<lambda>i. padded inp (fb + i)) [0..<?E] @ drop (?E - l) behind) ! i"
      using assms(1-3) len \<open>i < length reg'\<close> by (simp add: nth_append)
  qed
  then show ?thesis using reg'(1) by simp
qed

lemma div_mult_less: "\<not> m dvd (n :: nat) \<Longrightarrow> n div m * m < n"
  by (metis dvd_triv_right le_neq_implies_less div_times_less_eq_dividend)

text \<open>
  Property C37. On a CPU the mini block size is 32768 divided by the size of the element type. When
  that does not divide the number of elements of a thread, the register array is shorter than the
  elements the thread loads. Loading then overwrites the memory behind the array: with anything
  behind it, the missing cells are taken from there and the rest of the elements is stored in them. As writes
  behind an array are errors of the model, the load fails for the array that is declared,
  and with it every scan of a non-empty input.
\<close>

theorem scan_register_overrun:
  fixes out :: "'a::comm_monoid_add list"
  assumes "run_threads r dvd chunkSize" "0 < sc_miniBlockSize (run_cfg r)"
    and "\<not> sc_miniBlockSize (run_cfg r) dvd sc_elsPerThread (run_cfg r)"
    and "\<And>c ph ys. mset (run_order r c ph ys) = mset ys" "\<And>ys. mset (run_chunkOrder r ys) = mset ys" "0 < N"
  shows "lLocalArrayLength (run_cfg r) < sc_elsPerThread (run_cfg r)
    \<and> (\<forall>scalar inp fb reg behind. length reg = lLocalArrayLength (run_cfg r)
        \<longrightarrow> sc_elsPerThread (run_cfg r) - lLocalArrayLength (run_cfg r) \<le> length behind
        \<longrightarrow> (scalar \<or> sc_elsPerThread (run_cfg r) mod 4 = 0 \<and> fb + sc_elsPerThread (run_cfg r) \<le> length inp)
        \<longrightarrow> loadElems (run_cfg r) scalar (inp :: 'a list) (length inp) fb reg = None
          \<and> loadElems (run_cfg r) scalar inp (length inp) fb (reg @ behind)
            = Some (map (\<lambda>i. padded inp (fb + i)) [0..<sc_elsPerThread (run_cfg r)]
                @ drop (sc_elsPerThread (run_cfg r) - lLocalArrayLength (run_cfg r)) behind))
    \<and> scan_alloc r ty N src out = None"
proof -
  let ?cfg = "run_cfg r" and ?nc = "divCeil N chunkSize"
  have nil: "order ys = [] \<longleftrightarrow> ys = []" if "\<And>ys. mset (order ys) = mset ys" for order :: "nat list \<Rightarrow> nat list" and ys
    using that[of ys] by (metis mset_zero_iff)
  have short: "lLocalArrayLength ?cfg < sc_elsPerThread ?cfg"
    using div_mult_less[OF assms(3)] by (simp only: lLocalArrayLength_def)
  have "0 < run_threads r" using assms(1) by (auto simp: chunkSize_def intro!: Nat.gr0I)
  moreover have "0 < sc_elsPerThread ?cfg" using short by simp
  ultimately have "0 < sc_chunkExtent ?cfg" by (simp add: run_cfg_def scanCfg_def Let_def)
  then have elems: "frame_elems (sc_chunkExtent ?cfg) (sc_elsPerThread ?cfg) \<noteq> []"
    using divCeil_nat_bounds(1)[of "sc_elsPerThread ?cfg" "sc_chunkExtent ?cfg"] short
    by (auto simp: frame_elems_def intro!: Nat.gr0I)
  have thread: "loadThread ?cfg (scalarFrame ?cfg N nc c) N F src junk e st = None" for nc c F src and junk :: 'a and e st
    using loadElems_overrun[of "replicate (lLocalArrayLength ?cfg) junk" ?cfg "scalarFrame ?cfg N nc c"] short
    by (simp add: loadThread_def scalarFrame_def Let_def)
  have "fold_opt (loadThread ?cfg (scalarFrame ?cfg N nc c) N F src junk) ys st = None" if "ys \<noteq> []" for nc c F src and junk :: 'a and ys st
    using that thread by (cases ys) simp_all
  then have chunk: "scanChunk ?cfg ty ws N nc src junk (run_order r c) c st = None" for ty ws nc src and junk :: 'a and c st
    using nil[of "run_order r c LoadPhase", OF assms(4)] elems by (simp add: scanChunk_def Let_def)
  have "0 < ?nc" using divCeil_nat_bounds(1)[of chunkSize N] assms(6) by (auto simp: chunkSize_def intro!: Nat.gr0I)
  then have "run_chunkOrder r [0..<?nc] \<noteq> []" using nil[OF assms(5)] by simp
  then have "scanBlocksKernel r ty ws N ?nc src out sums = None" for ws sums
    using chunk by (cases "run_chunkOrder r [0..<?nc]") (simp_all add: scanBlocksKernel_def)
  then have failing: "scan_alloc r ty N src out = None" unfolding scan_alloc_def by (subst scan.simps) (simp add: Let_def)
  have load: "loadElems ?cfg scalar inp (length inp) fb reg = None \<and> loadElems ?cfg scalar inp (length inp) fb (reg @ behind)
      = Some (map (\<lambda>i. padded inp (fb + i)) [0..<sc_elsPerThread ?cfg] @ drop (sc_elsPerThread ?cfg - lLocalArrayLength ?cfg) behind)"
    if "length reg = lLocalArrayLength ?cfg" "sc_elsPerThread ?cfg - lLocalArrayLength ?cfg \<le> length behind"
      "scalar \<or> sc_elsPerThread ?cfg mod 4 = 0 \<and> fb + sc_elsPerThread ?cfg \<le> length inp"
    for scalar fb and inp reg behind :: "'a list"
    using loadElems_behind[OF that(1) short that(2,3)] loadElems_overrun[of reg ?cfg scalar inp "length inp" fb] that short by auto
  show ?thesis
    by (intro conjI[OF short] conjI[OF _ failing] allI impI) (rule load; assumption)
qed

lemma scan_register_overrun_witness:
  "lLocalArrayLength (run_cfg (example_run 24)) < sc_elsPerThread (run_cfg (example_run 24))
   \<and> scan_alloc (example_run 24) exclusiveScan 5 None [1, 2, 3, 4, 5 :: nat] = None"
proof -
  have cfg: "sc_miniBlockSize (run_cfg (example_run 24)) = 1365" "sc_elsPerThread (run_cfg (example_run 24)) = 2048"
    by (simp_all add: example_run_def run_cfg_def scanCfg_def maximumMiniBlockSize_def chunkSize_def)
  have 1: "run_threads (example_run 24) dvd chunkSize" by (simp add: example_run_def)
  have 2: "0 < sc_miniBlockSize (run_cfg (example_run 24))" by (simp add: cfg)
  have 3: "\<not> sc_miniBlockSize (run_cfg (example_run 24)) dvd sc_elsPerThread (run_cfg (example_run 24))"
    unfolding cfg by presburger
  show ?thesis
    using scan_register_overrun[OF 1 2 3, of 5 exclusiveScan None "[1, 2, 3, 4, 5]"] by (simp add: example_run_def)
qed

end
