(* ===== verification/HostQueue.thy ===== *)
theory HostQueue
  imports Store
begin

text \<open>
  The queues of the host back end: the worker thread that executes tasks asynchronously
  (\<^verbatim>\<open>core/CallbackThread.hpp\<close>), the queue in its blocking and non-blocking form
  (\<^verbatim>\<open>api/host/Queue.hpp\<close>) and the events that synchronise queues (\<^verbatim>\<open>api/host/Event.hpp\<close>). A step is
  what one thread does while it holds a mutex; the steps of all threads interleave freely. What a
  user function computes is not modelled, only whether it throws. Two history fields record what was
  submitted to a worker and what it has run.
\<close>

type_synonym fut = nat
type_synonym qid = nat
type_synonym evid = nat
type_synonym thread = nat

text \<open>The functions the queue submits: user functions and kernels, the marker of \<^verbatim>\<open>wait\<close>, and the two event tasks.\<close>

datatype task = HostFn nat bool | Marker | EventDone evid nat | AwaitFuture fut

datatype promise = Pending | Fulfilled | Failed

section \<open>The worker thread\<close>

datatype worker = NotStarted | AtLoop | Executing task fut | Executed fut promise | Popped fut promise | Stopped

record callback =
  cb_tasks :: "(task \<times> fut) list"
  cb_worker :: worker
  cb_stop :: bool

definition callback_init :: callback where
  "callback_init = \<lparr>cb_tasks = [], cb_worker = NotStarted, cb_stop = False\<rparr>"

definition callback_submit :: "task \<Rightarrow> fut \<Rightarrow> callback \<Rightarrow> callback" where
  "callback_submit t f cb = cb\<lparr>cb_tasks := cb_tasks cb @ [(t, f)],
     cb_worker := (if cb_worker cb = NotStarted then AtLoop else cb_worker cb)\<rparr>"

definition callback_isEmpty :: "callback \<Rightarrow> bool" where
  "callback_isEmpty cb \<longleftrightarrow> cb_tasks cb = []"

text \<open>The destructor requests the stop; the worker still runs the tasks that are in the queue.\<close>

definition callback_destroy :: "callback \<Rightarrow> callback" where
  "callback_destroy cb = cb\<lparr>cb_stop := True\<rparr>"

text \<open>The top of the loop: wait for a task or the stop; the entry stays in the queue while the task runs.\<close>

definition worker_take :: "callback \<Rightarrow> callback option" where
  "worker_take cb =
     (if cb_worker cb \<noteq> AtLoop then None
      else case cb_tasks cb of
        [] \<Rightarrow> if cb_stop cb then Some (cb\<lparr>cb_worker := Stopped\<rparr>) else None
      | (t, f) # _ \<Rightarrow> Some (cb\<lparr>cb_worker := Executing t f\<rparr>))"

definition worker_pop :: "callback \<Rightarrow> callback option" where
  "worker_pop cb =
     (case cb_worker cb of
        Executed f r \<Rightarrow> Some (cb\<lparr>cb_tasks := tl (cb_tasks cb), cb_worker := Popped f r\<rparr>)
      | _ \<Rightarrow> None)"

definition worker_publish :: "callback \<Rightarrow> promise list \<Rightarrow> (callback \<times> promise list) option" where
  "worker_publish cb promises =
     (case cb_worker cb of
        Popped f r \<Rightarrow> Some (cb\<lparr>cb_worker := AtLoop\<rparr>, promises[f := r])
      | _ \<Rightarrow> None)"

section \<open>Events\<close>

text \<open>A thread that holds the mutex of an event while it waits for the mutex of a blocking queue.\<close>

datatype lock_use = RecordIn qid | WaitIn qid

record event =
  ev_enqueueCount :: nat
  ev_lastReadyEnqueueCount :: nat
  ev_future :: "fut option"
  ev_timingEnabled :: bool
  ev_timestamp :: nat
  ev_lock :: "(thread \<times> lock_use) option"

definition event_init :: "bool \<Rightarrow> event" where
  "event_init timing = \<lparr>ev_enqueueCount = 0, ev_lastReadyEnqueueCount = 0, ev_future = None,
     ev_timingEnabled = timing, ev_timestamp = 0, ev_lock = None\<rparr>"

definition event_isReady :: "event \<Rightarrow> bool" where
  "event_isReady e \<longleftrightarrow> ev_lastReadyEnqueueCount e = ev_enqueueCount e"

text \<open>The body of the task that marks an event, and of the immediate marking in a blocking queue.\<close>

definition event_complete :: "nat \<Rightarrow> nat \<Rightarrow> event \<Rightarrow> event" where
  "event_complete timestamp enqueueCount e =
     (if enqueueCount = ev_enqueueCount e
      then e\<lparr>ev_timestamp := (if ev_timingEnabled e then timestamp else ev_timestamp e),
             ev_lastReadyEnqueueCount := max enqueueCount (ev_lastReadyEnqueueCount e)\<rparr>
      else e)"

text \<open>One turn of the loop of \<^verbatim>\<open>Event::wait\<close>: done, or the future to wait for.\<close>

datatype wait_turn = WaitDone | WaitOn "fut option"

definition event_wait_turn :: "nat \<Rightarrow> event \<Rightarrow> wait_turn" where
  "event_wait_turn enqueueCount e =
     (if ev_lastReadyEnqueueCount e < enqueueCount then WaitOn (ev_future e) else WaitDone)"

datatype elapsed_error = NotRecorded | NoTiming

definition elapsedTime :: "bool \<Rightarrow> event \<Rightarrow> event \<Rightarrow> elapsed_error + int" where
  "elapsedTime same start stop =
     (if same
      then if ev_enqueueCount start = 0 then Inl NotRecorded
           else if \<not> ev_timingEnabled start then Inl NoTiming
           else Inr 0
      else if ev_enqueueCount start = 0 \<or> ev_enqueueCount stop = 0 then Inl NotRecorded
           else if \<not> ev_timingEnabled start \<or> \<not> ev_timingEnabled stop then Inl NoTiming
           else Inr (int (ev_timestamp stop) - int (ev_timestamp start)))"

section \<open>Queues\<close>

text \<open>
  A blocking queue runs a task in the calling thread, which holds the recursive mutex of the queue:
  the frames are the calls that hold it, innermost first.
\<close>

datatype frame = RunTask task | AwaitFrame fut

record queue =
  q_callback :: callback
  q_isBlocking :: bool
  q_depth :: nat
  q_frames :: "(thread \<times> frame) list"
  q_submitted :: "(task \<times> fut) list"
  q_done :: "(task \<times> fut) list"

definition queue_init :: "bool \<Rightarrow> queue" where
  "queue_init blocking = \<lparr>q_callback = callback_init, q_isBlocking = blocking, q_depth = 0, q_frames = [],
     q_submitted = [], q_done = []\<rparr>"

definition queue_lockable :: "thread \<Rightarrow> queue \<Rightarrow> bool" where
  "queue_lockable th q \<longleftrightarrow> q_frames q = [] \<or> fst (hd (q_frames q)) = th"

definition isQueueEmpty :: "queue \<Rightarrow> bool" where
  "isQueueEmpty q = (if q_isBlocking q then q_depth q = 0 else callback_isEmpty (q_callback q))"

record system =
  queues :: "queue list"
  events :: "event list"
  promises :: "promise list"

definition system_init :: "bool list \<Rightarrow> bool list \<Rightarrow> system" where
  "system_init blocking timing = \<lparr>queues = map queue_init blocking, events = map event_init timing, promises = []\<rparr>"

definition set_queue :: "qid \<Rightarrow> queue \<Rightarrow> system \<Rightarrow> system" where
  "set_queue i q s = s\<lparr>queues := (queues s)[i := q]\<rparr>"

definition set_event :: "evid \<Rightarrow> event \<Rightarrow> system \<Rightarrow> system" where
  "set_event i e s = s\<lparr>events := (events s)[i := e]\<rparr>"

text \<open>A task submitted to the worker of a queue gets a new future.\<close>

definition async_submit :: "qid \<Rightarrow> task \<Rightarrow> system \<Rightarrow> system" where
  "async_submit i t s =
     (let q = queues s ! i; f = length (promises s)
      in set_queue i (q\<lparr>q_callback := callback_submit t f (q_callback q), q_submitted := q_submitted q @ [(t, f)]\<rparr>)
           (s\<lparr>promises := promises s @ [Pending]\<rparr>))"

text \<open>\<^verbatim>\<open>Queue::submit\<close>: a blocking queue locks itself and starts to run the function in the calling thread.\<close>

definition queue_submit :: "thread \<Rightarrow> qid \<Rightarrow> task \<Rightarrow> system \<Rightarrow> system option" where
  "queue_submit th i t s =
     (let q = queues s ! i in
      if q_isBlocking q
      then if queue_lockable th q
           then Some (set_queue i (q\<lparr>q_depth := q_depth q + 1, q_frames := (th, RunTask t) # q_frames q\<rparr>) s)
           else None
      else Some (async_submit i t s))"

definition enqueueHostFnDeferred :: "thread \<Rightarrow> qid \<Rightarrow> task \<Rightarrow> system \<Rightarrow> system option" where
  "enqueueHostFnDeferred th i t s =
     (let q = queues s ! i in
      if q_isBlocking q
      then if queue_lockable th q then Some (async_submit i t s) else None
      else Some (async_submit i t s))"

definition queue_wait :: "thread \<Rightarrow> qid \<Rightarrow> system \<Rightarrow> system option" where
  "queue_wait th i s = (if \<not> isQueueEmpty (queues s ! i) then queue_submit th i Marker s else Some s)"


section \<open>Events in queues\<close>

text \<open>
  \<^verbatim>\<open>Enqueue::Event\<close>: the mutex of the event is held throughout. In a blocking queue the caller
  then waits for the mutex of the queue, so the operation takes two steps.
\<close>

definition recordEvent :: "thread \<Rightarrow> qid \<Rightarrow> evid \<Rightarrow> system \<Rightarrow> system option" where
  "recordEvent th i e s =
     (let ev = events s ! e; enqueueCount = ev_enqueueCount ev + 1; ev = ev\<lparr>ev_enqueueCount := enqueueCount\<rparr> in
      if ev_lock ev \<noteq> None then None
      else if q_isBlocking (queues s ! i) then Some (set_event e (ev\<lparr>ev_lock := Some (th, RecordIn i)\<rparr>) s)
      else Some (set_event e (ev\<lparr>ev_future := Some (length (promises s))\<rparr>) (async_submit i (EventDone e enqueueCount) s)))"

definition recordFinish :: "thread \<Rightarrow> qid \<Rightarrow> evid \<Rightarrow> nat \<Rightarrow> system \<Rightarrow> system option" where
  "recordFinish th i e now s =
     (let ev = events s ! e in
      if ev_lock ev = Some (th, RecordIn i) \<and> queue_lockable th (queues s ! i)
      then let ev = event_complete now (ev_enqueueCount ev) ev
           in Some (set_event e (ev\<lparr>ev_future := Some (length (promises s)), ev_lock := None\<rparr>)
                     (s\<lparr>promises := promises s @ [Fulfilled]\<rparr>))
      else None)"

text \<open>\<^verbatim>\<open>WaitFor::Op\<close>: the future is read while the event is locked; a blocking queue is held while waiting for it.\<close>

definition waitForEvent :: "thread \<Rightarrow> qid \<Rightarrow> evid \<Rightarrow> system \<Rightarrow> system option" where
  "waitForEvent th i e s =
     (let ev = events s ! e in
      if ev_lock ev \<noteq> None then None
      else if event_isReady ev then Some s
      else if q_isBlocking (queues s ! i) then Some (set_event e (ev\<lparr>ev_lock := Some (th, WaitIn i)\<rparr>) s)
      else map_option (\<lambda>f. async_submit i (AwaitFuture f) s) (ev_future ev))"

definition waitForEnter :: "thread \<Rightarrow> qid \<Rightarrow> evid \<Rightarrow> system \<Rightarrow> system option" where
  "waitForEnter th i e s =
     (let ev = events s ! e; q = queues s ! i in
      if ev_lock ev = Some (th, WaitIn i) \<and> queue_lockable th q
      then map_option (\<lambda>f. set_event e (ev\<lparr>ev_lock := None\<rparr>)
             (set_queue i (q\<lparr>q_frames := (th, AwaitFrame f) # q_frames q\<rparr>) s)) (ev_future ev)
      else None)"

section \<open>Running tasks\<close>

text \<open>Running a function: its effect and how it ends. It blocks on the mutex of an event and on a future.\<close>

definition task_run :: "nat \<Rightarrow> task \<Rightarrow> system \<Rightarrow> (system \<times> promise) option" where
  "task_run now t s =
     (case t of
        HostFn n throws \<Rightarrow> Some (s, if throws then Failed else Fulfilled)
      | Marker \<Rightarrow> Some (s, Fulfilled)
      | EventDone e enqueueCount \<Rightarrow>
          (if ev_lock (events s ! e) = None
           then Some (set_event e (event_complete now enqueueCount (events s ! e)) s, Fulfilled) else None)
      | AwaitFuture f \<Rightarrow> (if promises s ! f = Pending then None else Some (s, promises s ! f)))"

definition worker_run :: "qid \<Rightarrow> nat \<Rightarrow> system \<Rightarrow> system option" where
  "worker_run i now s =
     (let q = queues s ! i in
      case cb_worker (q_callback q) of
        Executing t f \<Rightarrow> map_option (\<lambda>(s', r). set_queue i
            (q\<lparr>q_callback := (q_callback q)\<lparr>cb_worker := Executed f r\<rparr>, q_done := q_done q @ [(t, f)]\<rparr>) s') (task_run now t s)
      | _ \<Rightarrow> None)"

text \<open>The innermost call that holds a blocking queue ends: the depth guard and the lock are released.\<close>

definition blocking_return :: "thread \<Rightarrow> qid \<Rightarrow> nat \<Rightarrow> system \<Rightarrow> system option" where
  "blocking_return th i now s =
     (let q = queues s ! i in
      case q_frames q of
        [] \<Rightarrow> None
      | (owner, fr) # rest \<Rightarrow>
          if owner \<noteq> th then None
          else case fr of
            RunTask t \<Rightarrow> map_option (\<lambda>(s', r). set_queue i (q\<lparr>q_depth := q_depth q - 1, q_frames := rest\<rparr>) s') (task_run now t s)
          | AwaitFrame f \<Rightarrow> if promises s ! f = Pending then None else Some (set_queue i (q\<lparr>q_frames := rest\<rparr>) s))"

section \<open>The system\<close>

datatype label =
    Take qid | Run qid nat | Pop qid | Publish qid
  | EnqueueFn thread qid nat bool | EnqueueDeferred thread qid nat bool | WaitQueue thread qid
  | RecordEvent thread qid evid | RecordFinish thread qid evid nat
  | WaitForEvent thread qid evid | WaitForEnter thread qid evid
  | Return thread qid nat | Destroy qid

fun worker_label :: "label \<Rightarrow> bool" where
  "worker_label (Take i) = True"
| "worker_label (Run i now) = True"
| "worker_label (Pop i) = True"
| "worker_label (Publish i) = True"
| "worker_label l = False"

fun label_queue :: "label \<Rightarrow> qid" where
  "label_queue (Take i) = i"
| "label_queue (Run i now) = i"
| "label_queue (Pop i) = i"
| "label_queue (Publish i) = i"
| "label_queue (EnqueueFn th i n b) = i"
| "label_queue (EnqueueDeferred th i n b) = i"
| "label_queue (WaitQueue th i) = i"
| "label_queue (RecordEvent th i e) = i"
| "label_queue (RecordFinish th i e now) = i"
| "label_queue (WaitForEvent th i e) = i"
| "label_queue (WaitForEnter th i e) = i"
| "label_queue (Return th i now) = i"
| "label_queue (Destroy i) = i"

fun label_event :: "label \<Rightarrow> evid option" where
  "label_event (RecordEvent th i e) = Some e"
| "label_event (RecordFinish th i e now) = Some e"
| "label_event (WaitForEvent th i e) = Some e"
| "label_event (WaitForEnter th i e) = Some e"
| "label_event l = None"

fun exec_label :: "label \<Rightarrow> system \<Rightarrow> system option" where
  "exec_label (Take i) s = map_option (\<lambda>cb. set_queue i ((queues s ! i)\<lparr>q_callback := cb\<rparr>) s)
     (worker_take (q_callback (queues s ! i)))"
| "exec_label (Run i now) s = worker_run i now s"
| "exec_label (Pop i) s = map_option (\<lambda>cb. set_queue i ((queues s ! i)\<lparr>q_callback := cb\<rparr>) s)
     (worker_pop (q_callback (queues s ! i)))"
| "exec_label (Publish i) s = map_option (\<lambda>(cb, ps). set_queue i ((queues s ! i)\<lparr>q_callback := cb\<rparr>) (s\<lparr>promises := ps\<rparr>))
     (worker_publish (q_callback (queues s ! i)) (promises s))"
| "exec_label (EnqueueFn th i n throws) s = queue_submit th i (HostFn n throws) s"
| "exec_label (EnqueueDeferred th i n throws) s = enqueueHostFnDeferred th i (HostFn n throws) s"
| "exec_label (WaitQueue th i) s = queue_wait th i s"
| "exec_label (RecordEvent th i e) s = recordEvent th i e s"
| "exec_label (RecordFinish th i e now) s = recordFinish th i e now s"
| "exec_label (WaitForEvent th i e) s = waitForEvent th i e s"
| "exec_label (WaitForEnter th i e) s = waitForEnter th i e s"
| "exec_label (Return th i now) s = blocking_return th i now s"
| "exec_label (Destroy i) s =
     (if q_frames (queues s ! i) = []
      then Some (set_queue i ((queues s ! i)\<lparr>q_callback := callback_destroy (q_callback (queues s ! i))\<rparr>) s) else None)"

text \<open>
  A step: the queue and the event exist, and a queue that is being destroyed is only served by its
  worker.
\<close>

definition step_label :: "label \<Rightarrow> system \<Rightarrow> system option" where
  "step_label l s =
     (if label_queue l < length (queues s) \<and> (case label_event l of None \<Rightarrow> True | Some e \<Rightarrow> e < length (events s))
         \<and> (worker_label l \<or> \<not> cb_stop (q_callback (queues s ! label_queue l)))
      then exec_label l s else None)"

definition steps :: "label list \<Rightarrow> system \<Rightarrow> system option" where
  "steps = fold_opt step_label"

inductive reachable :: "bool list \<Rightarrow> bool list \<Rightarrow> system \<Rightarrow> bool" for blocking timing where
  init: "reachable blocking timing (system_init blocking timing)"
| step: "reachable blocking timing s \<Longrightarrow> step_label l s = Some s' \<Longrightarrow> reachable blocking timing s'"

end
