(* ===== verification/QueueInvariant.thy ===== *)
theory QueueInvariant
  imports HostQueue
begin

text \<open>
  What holds in every reachable state of the host queues: each worker runs its tasks in the order
  of their submission and resolves their futures in that order, every unresolved future belongs to
  exactly one worker, a task only waits for older futures, the depth of a blocking queue counts the
  tasks that are running, and an event is ready only when the task of its last enqueue has run.
\<close>

section \<open>The invariant\<close>

text \<open>The futures a worker still has to resolve, oldest first, and the tasks it has not run yet.\<close>

definition outstanding :: "callback \<Rightarrow> fut list" where
  "outstanding cb = (case cb_worker cb of Popped f r \<Rightarrow> [f] | _ \<Rightarrow> []) @ map snd (cb_tasks cb)"

definition unrun :: "callback \<Rightarrow> (task \<times> fut) list" where
  "unrun cb = (case cb_worker cb of Executed f r \<Rightarrow> tl (cb_tasks cb) | _ \<Rightarrow> cb_tasks cb)"

definition worker_ok :: "callback \<Rightarrow> bool" where
  "worker_ok cb =
     (case cb_worker cb of
        NotStarted \<Rightarrow> cb_tasks cb = []
      | AtLoop \<Rightarrow> True
      | Executing t f \<Rightarrow> cb_tasks cb \<noteq> [] \<and> hd (cb_tasks cb) = (t, f)
      | Executed f r \<Rightarrow> r \<noteq> Pending \<and> cb_tasks cb \<noteq> [] \<and> snd (hd (cb_tasks cb)) = f
      | Popped f r \<Rightarrow> r \<noteq> Pending
      | Stopped \<Rightarrow> cb_tasks cb = [] \<and> cb_stop cb)"

definition is_RunTask :: "frame \<Rightarrow> bool" where
  "is_RunTask fr = (case fr of RunTask t \<Rightarrow> True | AwaitFrame f \<Rightarrow> False)"

definition frames_ok :: "queue \<Rightarrow> bool" where
  "frames_ok q \<longleftrightarrow> q_depth q = length (filter (\<lambda>(th, fr). is_RunTask fr) (q_frames q))
     \<and> (\<exists>th. fst ` set (q_frames q) \<subseteq> {th})"

lemma frames_ok_update [simp]:
  "frames_ok (q\<lparr>q_callback := cb\<rparr>) = frames_ok q" "frames_ok (q\<lparr>q_submitted := xs\<rparr>) = frames_ok q"
  "frames_ok (q\<lparr>q_done := xs\<rparr>) = frames_ok q"
  unfolding frames_ok_def by simp_all

definition callback_ok :: "promise list \<Rightarrow> callback \<Rightarrow> bool" where
  "callback_ok ps cb \<longleftrightarrow> worker_ok cb \<and> sorted_wrt (<) (outstanding cb)
     \<and> (\<forall>f \<in> set (outstanding cb). f < length ps \<and> ps ! f = Pending)
     \<and> (\<forall>g f. (AwaitFuture g, f) \<in> set (cb_tasks cb) \<longrightarrow> g < f)"

lemma callback_okD:
  assumes "callback_ok ps cb"
  shows "worker_ok cb" "sorted_wrt (<) (outstanding cb)"
    "f \<in> set (outstanding cb) \<Longrightarrow> f < length ps \<and> ps ! f = Pending"
    "(AwaitFuture g, f) \<in> set (cb_tasks cb) \<Longrightarrow> g < f"
  using assms unfolding callback_ok_def by blast+

definition submitted_ok :: "promise list \<Rightarrow> (task \<times> fut) list \<Rightarrow> bool" where
  "submitted_ok ps xs \<longleftrightarrow> sorted_wrt (<) (map snd xs) \<and> (\<forall>x \<in> set xs. snd x < length ps)"

lemma submitted_ok_promise: "submitted_ok ps xs \<Longrightarrow> submitted_ok (ps @ [r]) xs"
  by (auto simp: submitted_ok_def)

lemma submitted_ok_update [simp]: "submitted_ok (ps[f := r]) xs = submitted_ok ps xs"
  by (simp add: submitted_ok_def)

lemma submitted_ok_append: "submitted_ok ps xs \<Longrightarrow> submitted_ok (ps @ [r]) (xs @ [(t, length ps)])"
  by (auto simp: submitted_ok_def sorted_wrt_append)

definition queue_ok :: "promise list \<Rightarrow> queue \<Rightarrow> bool" where
  "queue_ok ps q \<longleftrightarrow> callback_ok ps (q_callback q) \<and> frames_ok q \<and> q_submitted q = q_done q @ unrun (q_callback q)
     \<and> submitted_ok ps (q_done q @ unrun (q_callback q))"

definition event_ok :: "system \<Rightarrow> evid \<Rightarrow> bool" where
  "event_ok s e \<longleftrightarrow> (let ev = events s ! e in
     ev_lastReadyEnqueueCount ev \<le> ev_enqueueCount ev \<and> (\<forall>f. ev_future ev = Some f \<longrightarrow> f < length (promises s))
     \<and> (\<not> event_isReady ev \<longrightarrow> (\<forall>th i. ev_lock ev \<noteq> Some (th, RecordIn i)) \<longrightarrow>
          (\<exists>i < length (queues s). \<exists>f. ev_future ev = Some f
             \<and> (EventDone e (ev_enqueueCount ev), f) \<in> set (unrun (q_callback (queues s ! i))))))"

definition outs :: "system \<Rightarrow> qid \<Rightarrow> fut list" where
  "outs s i = outstanding (q_callback (queues s ! i))"

definition sys_inv :: "system \<Rightarrow> bool" where
  "sys_inv s \<longleftrightarrow> (\<forall>i < length (queues s). queue_ok (promises s) (queues s ! i))
     \<and> (\<forall>i < length (queues s). \<forall>j < length (queues s). i \<noteq> j \<longrightarrow> set (outs s i) \<inter> set (outs s j) = {})
     \<and> (\<forall>f < length (promises s). promises s ! f = Pending \<longrightarrow> (\<exists>i < length (queues s). f \<in> set (outs s i)))
     \<and> (\<forall>e < length (events s). event_ok s e)"

lemma sys_invD:
  assumes "sys_inv s"
  shows "i < length (queues s) \<Longrightarrow> queue_ok (promises s) (queues s ! i)"
    "i < length (queues s) \<Longrightarrow> j < length (queues s) \<Longrightarrow> i \<noteq> j \<Longrightarrow> set (outs s i) \<inter> set (outs s j) = {}"
    "f < length (promises s) \<Longrightarrow> promises s ! f = Pending \<Longrightarrow> \<exists>i < length (queues s). f \<in> set (outs s i)"
    "e < length (events s) \<Longrightarrow> event_ok s e"
  using assms unfolding sys_inv_def by blast+

lemma sys_inv_init: "sys_inv (system_init blocking timing)"
  by (auto simp: sys_inv_def system_init_def queue_ok_def submitted_ok_def queue_init_def callback_init_def callback_ok_def worker_ok_def
      outstanding_def unrun_def frames_ok_def outs_def event_ok_def event_init_def event_isReady_def)

lemma set_queue_sel [simp]:
  "length (queues (set_queue i q s)) = length (queues s)" "promises (set_queue i q s) = promises s"
  "events (set_queue i q s) = events s"
  "j < length (queues s) \<Longrightarrow> queues (set_queue i q s) ! j = (if j = i then q else queues s ! j)"
  by (auto simp: set_queue_def nth_list_update)

lemma set_event_sel [simp]:
  "queues (set_event e ev s) = queues s" "promises (set_event e ev s) = promises s"
  "length (events (set_event e ev s)) = length (events s)"
  "k < length (events s) \<Longrightarrow> events (set_event e ev s) ! k = (if k = e then ev else events s ! k)"
  by (auto simp: set_event_def nth_list_update)

text \<open>A queue whose outstanding futures and unrun tasks stay the same.\<close>

lemma sys_inv_set_queue_events:
  assumes "sys_inv s" "i < length (queues s)" "queue_ok (promises s) q"
    and "set (outstanding (q_callback q)) = set (outs s i)"
    and "\<And>e. e < length (events s) \<Longrightarrow> event_ok (set_queue i q s) e"
  shows "sys_inv (set_queue i q s)"
  unfolding sys_inv_def
proof (intro conjI allI impI)
  fix j k assume "j < length (queues (set_queue i q s))" "k < length (queues (set_queue i q s))" "j \<noteq> k"
  then show "set (outs (set_queue i q s) j) \<inter> set (outs (set_queue i q s) k) = {}"
    using assms(1,2,4) by (auto simp: sys_inv_def outs_def)
next
  fix f assume "f < length (promises (set_queue i q s))" "promises (set_queue i q s) ! f = Pending"
  then obtain j where "j < length (queues s)" "f \<in> set (outs s j)" using assms(1) by (auto simp: sys_inv_def)
  then show "\<exists>j < length (queues (set_queue i q s)). f \<in> set (outs (set_queue i q s) j)"
    using assms(4) by (intro exI[of _ j]) (auto simp: outs_def)
qed (use assms in \<open>auto simp: sys_inv_def\<close>)

lemma sys_inv_set_queue:
  assumes "sys_inv s" "i < length (queues s)" "queue_ok (promises s) q"
    and "set (outstanding (q_callback q)) = set (outs s i)"
    and "set (unrun (q_callback q)) = set (unrun (q_callback (queues s ! i)))"
  shows "sys_inv (set_queue i q s)"
  using assms(1-4)
proof (rule sys_inv_set_queue_events)
  fix e assume "e < length (events s)"
  then have "event_ok s e" using assms(1) by (simp add: sys_inv_def)
  then show "event_ok (set_queue i q s) e"
    using assms(2,5) by (auto simp: event_ok_def Let_def)
qed


lemma sys_inv_set_event:
  assumes "sys_inv s" "e < length (events s)" "event_ok (set_event e ev s) e"
  shows "sys_inv (set_event e ev s)"
proof -
  have "event_ok (set_event e ev s) k" if "k < length (events s)" for k
  proof (cases "k = e")
    case False
    have "event_ok s k" using assms(1) that by (simp add: sys_inv_def)
    then show ?thesis using False that by (simp add: event_ok_def)
  qed (use assms(3) in simp)
  then show ?thesis using assms(1) by (auto simp: sys_inv_def outs_def)
qed

lemma event_ok_mono:
  assumes "event_ok s e" "events s' ! e = events s ! e" "length (queues s') = length (queues s)"
    "length (promises s) \<le> length (promises s')"
    "\<And>j. j < length (queues s) \<Longrightarrow> set (unrun (q_callback (queues s ! j))) \<subseteq> set (unrun (q_callback (queues s' ! j)))"
  shows "event_ok s' e"
proof -
  have "\<forall>f. ev_future (events s ! e) = Some f \<longrightarrow> f < length (promises s')"
    using assms(1,4) by (auto simp: event_ok_def Let_def)
  then show ?thesis
    using assms(1) subsetD[OF assms(5)] unfolding event_ok_def Let_def assms(2,3) by blast
qed

text \<open>Submitting to a worker.\<close>

lemma outstanding_submit [simp]: "outstanding (callback_submit t f cb) = outstanding cb @ [f]"
  by (cases "cb_worker cb") (simp_all add: outstanding_def callback_submit_def)

lemma callback_submit_tasks [simp]: "cb_tasks (callback_submit t f cb) = cb_tasks cb @ [(t, f)]"
  by (simp add: callback_submit_def)

lemma unrun_submit: "worker_ok cb \<Longrightarrow> unrun (callback_submit t f cb) = unrun cb @ [(t, f)]"
  by (cases "cb_worker cb") (auto simp: unrun_def callback_submit_def worker_ok_def)

lemma callback_ok_promise: "callback_ok ps cb \<Longrightarrow> callback_ok (ps @ [r]) cb"
  by (auto simp: callback_ok_def nth_append)

lemma callback_ok_submit:
  assumes "callback_ok ps cb" "\<not> cb_stop cb" "\<And>g. t = AwaitFuture g \<Longrightarrow> g < length ps"
  shows "callback_ok (ps @ [Pending]) (callback_submit t (length ps) cb)"
proof -
  have "worker_ok (callback_submit t (length ps) cb)"
    using assms(1,2) by (cases "cb_worker cb") (auto simp: callback_ok_def worker_ok_def callback_submit_def)
  then show ?thesis
    using assms by (auto simp: callback_ok_def sorted_wrt_append nth_append)
qed

lemma async_submit_sel [simp]:
  "length (queues (async_submit i t s)) = length (queues s)" "events (async_submit i t s) = events s"
  "promises (async_submit i t s) = promises s @ [Pending]"
  by (simp_all add: async_submit_def Let_def)

lemma async_submit_queue:
  "j < length (queues s) \<Longrightarrow> queues (async_submit i t s) ! j = (if j = i
     then (queues s ! i)\<lparr>q_callback := callback_submit t (length (promises s)) (q_callback (queues s ! i)),
            q_submitted := q_submitted (queues s ! i) @ [(t, length (promises s))]\<rparr>
     else queues s ! j)"
  by (simp add: async_submit_def Let_def set_queue_def nth_list_update)

lemma unrun_async:
  assumes "sys_inv s" "j < length (queues s)" "i < length (queues s)"
  shows "set (unrun (q_callback (queues (async_submit i t s) ! j)))
       = set (unrun (q_callback (queues s ! j))) \<union> (if j = i then {(t, length (promises s))} else {})"
proof -
  have "worker_ok (q_callback (queues s ! i))" using assms(1,3) callback_okD(1) by (auto simp: sys_inv_def queue_ok_def)
  then show ?thesis by (simp add: async_submit_queue[OF assms(2)] unrun_submit)
qed

lemma sys_inv_async:
  assumes inv: "sys_inv s" and i: "i < length (queues s)" and "\<not> cb_stop (q_callback (queues s ! i))"
    and "\<And>g. t = AwaitFuture g \<Longrightarrow> g < length (promises s)"
  shows "sys_inv (async_submit i t s)"
proof -
  let ?s = "async_submit i t s" and ?f = "length (promises s)"
  have q: "queue_ok (promises s) (queues s ! j)" if "j < length (queues s)" for j using inv that by (simp add: sys_inv_def)
  have outs: "set (outs ?s j) = set (outs s j) \<union> (if j = i then {?f} else {})" if "j < length (queues s)" for j
    using that by (simp add: outs_def async_submit_queue)
  have small: "f < ?f" if "f \<in> set (outs s j)" "j < length (queues s)" for f j
    using callback_okD(3)[of "promises s" "q_callback (queues s ! j)" f] q[OF that(2)] that(1) by (simp add: queue_ok_def outs_def)
  have "queue_ok (promises ?s) (queues ?s ! j)" if j: "j < length (queues s)" for j
  proof (cases "j = i")
    case True
    have ok: "callback_ok (promises s) (q_callback (queues s ! i))" "frames_ok (queues s ! i)"
      "q_submitted (queues s ! i) = q_done (queues s ! i) @ unrun (q_callback (queues s ! i))"
      "submitted_ok (promises s) (q_done (queues s ! i) @ unrun (q_callback (queues s ! i)))"
      using q[OF i] by (simp_all add: queue_ok_def)
    have w: "worker_ok (q_callback (queues s ! i))" using ok(1) by (rule callback_okD)
    have "callback_ok (promises s @ [Pending]) (callback_submit t ?f (q_callback (queues s ! i)))"
      using ok(1) assms(3,4) by (rule callback_ok_submit)
    then show ?thesis
      using ok(2,3) submitted_ok_append[OF ok(4)] unrun_submit[OF w] True i by (simp add: queue_ok_def async_submit_queue)
  next
    case False
    then show ?thesis using q[OF j] j by (auto simp: queue_ok_def async_submit_queue callback_ok_promise submitted_ok_promise)
  qed
  moreover have "set (outs ?s j) \<inter> set (outs ?s k) = {}" if "j < length (queues s)" "k < length (queues s)" "j \<noteq> k" for j k
    using inv small[OF _ that(1)] small[OF _ that(2)] that by (auto simp: outs sys_inv_def)
  moreover have "\<exists>j < length (queues s). f \<in> set (outs ?s j)" if "f < length (promises ?s)" "promises ?s ! f = Pending" for f
  proof (cases "f = ?f")
    case True
    then show ?thesis using outs[OF i] i by auto
  next
    case False
    then have "f < ?f" "promises s ! f = Pending" using that by (auto simp: nth_append)
    then obtain j where "j < length (queues s)" "f \<in> set (outs s j)" using sys_invD(3)[OF inv] by blast
    then show ?thesis using outs by blast
  qed
  moreover have "event_ok ?s e" if "e < length (events s)" for e
  proof -
    have "event_ok s e" using inv that by (simp add: sys_inv_def)
    then show ?thesis
    proof (rule event_ok_mono)
      fix j assume j: "j < length (queues s)"
      show "set (unrun (q_callback (queues s ! j))) \<subseteq> set (unrun (q_callback (queues ?s ! j)))"
        unfolding unrun_async[OF inv j i] by blast
    qed simp_all
  qed
  ultimately show ?thesis by (simp add: sys_inv_def)
qed


section \<open>The steps of the worker keep the invariant\<close>

lemma worker_take_ok:
  assumes "worker_take cb = Some cb'" "callback_ok ps cb"
  shows "callback_ok ps cb' \<and> outstanding cb' = outstanding cb \<and> unrun cb' = unrun cb"
proof -
  have eq: "cb_tasks cb' = cb_tasks cb" "outstanding cb' = outstanding cb" "unrun cb' = unrun cb" "worker_ok cb'"
    using assms(1) by (auto simp: worker_take_def outstanding_def unrun_def worker_ok_def split: if_splits list.splits)
  then show ?thesis using assms(2) unfolding callback_ok_def eq by blast
qed

lemma worker_pop_ok:
  assumes "worker_pop cb = Some cb'" "callback_ok ps cb"
  shows "callback_ok ps cb' \<and> outstanding cb' = outstanding cb \<and> unrun cb' = unrun cb"
proof -
  from assms(1) obtain f r where w: "cb_worker cb = Executed f r" and cb': "cb' = cb\<lparr>cb_tasks := tl (cb_tasks cb), cb_worker := Popped f r\<rparr>"
    by (auto simp: worker_pop_def split: worker.splits)
  have "worker_ok cb" using assms(2) by (rule callback_okD)
  then obtain t rest where t: "cb_tasks cb = (t, f) # rest" "r \<noteq> Pending"
    using w by (cases "cb_tasks cb") (auto simp: worker_ok_def)
  have eq: "outstanding cb' = outstanding cb" "unrun cb' = unrun cb" "worker_ok cb'"
    using w t by (simp_all add: cb' outstanding_def unrun_def worker_ok_def)
  have "set (cb_tasks cb') \<subseteq> set (cb_tasks cb)" by (auto simp: cb' t)
  then show ?thesis using assms(2) eq(3) unfolding callback_ok_def eq(1,2) by blast
qed

lemma set_worker_inv:
  assumes inv: "sys_inv s" and i: "i < length (queues s)"
    and ok: "callback_ok (promises s) cb \<and> outstanding cb = outstanding (q_callback (queues s ! i)) \<and> unrun cb = unrun (q_callback (queues s ! i))"
  shows "sys_inv (set_queue i ((queues s ! i)\<lparr>q_callback := cb\<rparr>) s)"
proof (rule sys_inv_set_queue[OF inv i])
  show "queue_ok (promises s) ((queues s ! i)\<lparr>q_callback := cb\<rparr>)"
    using sys_invD(1)[OF inv i] ok by (simp add: queue_ok_def)
qed (use ok in \<open>simp_all add: outs_def\<close>)

lemma callback_ok_resolve:
  assumes "callback_ok ps cb" "f \<notin> set (outstanding cb)"
  shows "callback_ok (ps[f := r]) cb"
  using assms unfolding callback_ok_def by (metis length_list_update nth_list_update_neq)

lemma worker_publish_inv:
  assumes inv: "sys_inv s" and i: "i < length (queues s)"
    and pub: "worker_publish (q_callback (queues s ! i)) (promises s) = Some (cb', ps')"
  shows "sys_inv (set_queue i ((queues s ! i)\<lparr>q_callback := cb'\<rparr>) (s\<lparr>promises := ps'\<rparr>))" (is "sys_inv ?s")
proof -
  let ?cb = "q_callback (queues s ! i)"
  from pub obtain f r where w: "cb_worker ?cb = Popped f r" and cb': "cb' = ?cb\<lparr>cb_worker := AtLoop\<rparr>" "ps' = (promises s)[f := r]"
    by (auto simp: worker_publish_def split: worker.splits)
  have q: "queue_ok (promises s) (queues s ! i)" using sys_invD(1)[OF inv i] .
  then have cb: "callback_ok (promises s) ?cb" by (simp add: queue_ok_def)
  have outs: "outstanding ?cb = f # outstanding cb'" "unrun cb' = unrun ?cb" "worker_ok cb'" "cb_tasks cb' = cb_tasks ?cb"
    by (simp_all add: cb' w outstanding_def unrun_def worker_ok_def)
  have r: "r \<noteq> Pending" using callback_okD(1)[OF cb] w by (simp add: worker_ok_def)
  have f: "f < length (promises s)" using callback_okD(3)[OF cb] outs(1) by simp
  have notin: "f \<notin> set (outstanding cb')" "sorted_wrt (<) (outstanding cb')"
    using callback_okD(2)[OF cb] unfolding outs(1) by auto
  have "callback_ok (promises s) cb'"
    using cb outs(3) notin(2) unfolding callback_ok_def outs(1,4) by (metis list.set_intros(2))
  then have cb'': "callback_ok ps' cb'" unfolding cb'(2) using notin(1) by (rule callback_ok_resolve)
  have eq: "queues ?s = (queues s)[i := (queues s ! i)\<lparr>q_callback := cb'\<rparr>]" "promises ?s = ps'" "events ?s = events s"
    by (simp_all add: set_queue_def)
  have outs': "outs ?s j = (if j = i then outstanding cb' else outs s j)" if "j < length (queues s)" for j
    using that by (simp add: outs_def eq nth_list_update)
  have sub: "set (outs ?s j) \<subseteq> set (outs s j)" if "j < length (queues s)" for j
    using outs'[OF that] outs(1) by (auto simp: outs_def)
  have "queue_ok ps' (queues ?s ! j)" if j: "j < length (queues s)" for j
  proof (cases "j = i")
    case True
    then show ?thesis using q cb'' outs(2) i by (simp add: queue_ok_def eq cb'(2))
  next
    case False
    have "f \<notin> set (outs s j)" using sys_invD(2)[OF inv j i False] outs(1) by (auto simp: outs_def)
    then have "callback_ok ps' (q_callback (queues s ! j))"
      using sys_invD(1)[OF inv j] unfolding cb'(2) by (intro callback_ok_resolve) (simp_all add: queue_ok_def outs_def)
    moreover have "queues ?s ! j = queues s ! j" using False by (simp add: eq(1))
    ultimately show ?thesis using sys_invD(1)[OF inv j] unfolding queue_ok_def by (simp add: cb'(2))
  qed
  moreover have "set (outs ?s j) \<inter> set (outs ?s k) = {}" if "j < length (queues s)" "k < length (queues s)" "j \<noteq> k" for j k
    using sub that sys_invD(2)[OF inv that] by blast
  moreover have "\<exists>j < length (queues s). g \<in> set (outs ?s j)" if "g < length ps'" "ps' ! g = Pending" for g
  proof -
    have "g \<noteq> f" using that r f by (auto simp: cb')
    then have "g < length (promises s)" "promises s ! g = Pending" using that by (simp_all add: cb')
    then obtain j where j: "j < length (queues s)" "g \<in> set (outs s j)" using sys_invD(3)[OF inv] by blast
    then have "g \<in> set (outs ?s j)" using outs'[OF j(1)] outs(1) \<open>g \<noteq> f\<close> by (auto simp: outs_def split: if_splits)
    then show ?thesis using j(1) by blast
  qed
  moreover have "event_ok ?s e" if "e < length (events s)" for e
    by (rule event_ok_mono[OF sys_invD(4)[OF inv that]]) (use outs(2) in \<open>auto simp: eq cb' nth_list_update\<close>)
  ultimately show ?thesis unfolding sys_inv_def eq(2,3) by (simp add: eq(1))
qed


lemma event_complete_ok:
  assumes "event_ok s e" "e < length (events s)" "ev_lock (events s ! e) = None"
  shows "event_ok (set_event e (event_complete now c (events s ! e)) s) e"
  using assms by (auto simp: event_ok_def Let_def event_complete_def event_isReady_def)

lemma event_complete_ready:
  "ev_lastReadyEnqueueCount e \<le> ev_enqueueCount e \<Longrightarrow> event_isReady (event_complete now (ev_enqueueCount e) e)"
  by (simp add: event_complete_def event_isReady_def)

text \<open>Running a function touches at most one event, and the event task of the last enqueue makes it ready.\<close>

lemma task_run_inv:
  assumes inv: "sys_inv s" and run: "task_run now t s = Some (s', r)"
  shows "sys_inv s'" "queues s' = queues s" "promises s' = promises s" "length (events s') = length (events s)" "r \<noteq> Pending"
    and "t = EventDone e (ev_enqueueCount (events s' ! e)) \<Longrightarrow> e < length (events s) \<Longrightarrow> event_isReady (events s' ! e)"
proof -
  have "sys_inv s' \<and> queues s' = queues s \<and> promises s' = promises s \<and> length (events s') = length (events s) \<and> r \<noteq> Pending
    \<and> (t = EventDone e (ev_enqueueCount (events s' ! e)) \<longrightarrow> e < length (events s) \<longrightarrow> event_isReady (events s' ! e))"
  proof (cases t)
    case (EventDone k c)
    let ?ev = "event_complete now c (events s ! k)"
    have lock: "ev_lock (events s ! k) = None" and s': "s' = set_event k ?ev s" "r = Fulfilled"
      using run EventDone by (auto simp: task_run_def split: if_splits)
    show ?thesis
    proof (cases "k < length (events s)")
      case True
      have ok: "event_ok s k" using sys_invD(4)[OF inv True] .
      then have "sys_inv s'" unfolding s' by (intro sys_inv_set_event[OF inv True] event_complete_ok[OF _ True lock])
      moreover have "event_isReady ?ev" if "c = ev_enqueueCount ?ev"
        using event_complete_ready[of "events s ! k" now] ok that by (simp add: event_ok_def Let_def event_complete_def split: if_splits)
      ultimately show ?thesis using EventDone True by (auto simp: s')
    next
      case False
      then have "s' = s" by (simp add: s' set_event_def list_update_beyond not_less)
      then show ?thesis using inv EventDone False s'(2) by auto
    qed
  qed (use run inv in \<open>auto simp: task_run_def split: if_splits\<close>)
  then show "sys_inv s'" "queues s' = queues s" "promises s' = promises s" "length (events s') = length (events s)" "r \<noteq> Pending"
    "t = EventDone e (ev_enqueueCount (events s' ! e)) \<Longrightarrow> e < length (events s) \<Longrightarrow> event_isReady (events s' ! e)" by blast+
qed

lemma worker_run_inv:
  assumes inv: "sys_inv s" and i: "i < length (queues s)" and run: "worker_run i now s = Some s''"
  shows "sys_inv s''"
proof -
  let ?q = "queues s ! i" and ?cb = "q_callback (queues s ! i)"
  from run obtain t f s' r where w: "cb_worker ?cb = Executing t f" and tr: "task_run now t s = Some (s', r)"
    and s'': "s'' = set_queue i (?q\<lparr>q_callback := ?cb\<lparr>cb_worker := Executed f r\<rparr>, q_done := q_done ?q @ [(t, f)]\<rparr>) s'"
    by (auto simp: worker_run_def Let_def split: worker.splits)
  note t = task_run_inv[OF inv tr]
  have q: "queue_ok (promises s) ?q" using sys_invD(1)[OF inv i] .
  then have cb: "callback_ok (promises s) ?cb" by (simp add: queue_ok_def)
  obtain rest where tasks: "cb_tasks ?cb = (t, f) # rest"
    using callback_okD(1)[OF cb] w by (cases "cb_tasks ?cb") (auto simp: worker_ok_def)
  let ?cb' = "?cb\<lparr>cb_worker := Executed f r\<rparr>"
  have eq: "outstanding ?cb' = outstanding ?cb" "unrun ?cb = (t, f) # rest" "unrun ?cb' = rest" "worker_ok ?cb'"
    "cb_tasks ?cb' = cb_tasks ?cb"
    using w tasks t(5) by (simp_all add: outstanding_def unrun_def worker_ok_def)
  have cb': "callback_ok (promises s') ?cb'" unfolding t(3) using cb eq(4) unfolding callback_ok_def eq(1,5) by blast
  show ?thesis
    unfolding s''
  proof (rule sys_inv_set_queue_events[OF t(1)])
    show "queue_ok (promises s') (?q\<lparr>q_callback := ?cb', q_done := q_done ?q @ [(t, f)]\<rparr>)"
      using q cb' eq(2,3) by (simp add: queue_ok_def t(3))
    show "set (outstanding (q_callback (?q\<lparr>q_callback := ?cb', q_done := q_done ?q @ [(t, f)]\<rparr>))) = set (outs s' i)"
      using eq(1) by (simp add: outs_def t(2))
  next
    fix e assume e: "e < length (events s')"
    let ?s = "set_queue i (?q\<lparr>q_callback := ?cb', q_done := q_done ?q @ [(t, f)]\<rparr>) s'"
    have ok: "event_ok s' e" using sys_invD(4)[OF t(1) e] .
    show "event_ok ?s e"
      unfolding event_ok_def Let_def
    proof (intro conjI impI)
      assume a: "\<not> event_isReady (events ?s ! e)" "\<forall>th i. ev_lock (events ?s ! e) \<noteq> Some (th, RecordIn i)"
      then obtain j g where j: "j < length (queues s)" "ev_future (events s' ! e) = Some g"
        "(EventDone e (ev_enqueueCount (events s' ! e)), g) \<in> set (unrun (q_callback (queues s ! j)))"
        using ok by (auto simp: event_ok_def Let_def t(2))
      have "(EventDone e (ev_enqueueCount (events s' ! e)), g) \<noteq> (t, f)" using t(6)[of e] a(1) e t(4) by auto
      then have "(EventDone e (ev_enqueueCount (events s' ! e)), g) \<in> set (unrun (q_callback (queues ?s ! j)))"
        using j(1,3) eq(2,3) by (cases "j = i") (auto simp: t(2))
      then show "\<exists>j < length (queues ?s). \<exists>g. ev_future (events ?s ! e) = Some g
          \<and> (EventDone e (ev_enqueueCount (events ?s ! e)), g) \<in> set (unrun (q_callback (queues ?s ! j)))"
        using j(1,2) by (auto simp: t(2))
    qed (use ok in \<open>auto simp: event_ok_def Let_def\<close>)
  qed (use i in \<open>simp add: t(2)\<close>)
qed


section \<open>The operations of the host threads keep the invariant\<close>

lemma frames_ok_push:
  assumes "frames_ok q" "queue_lockable th q"
  shows "frames_ok (q\<lparr>q_depth := q_depth q + (if is_RunTask fr then 1 else 0), q_frames := (th, fr) # q_frames q\<rparr>)"
  using assms by (cases "q_frames q") (auto simp: frames_ok_def queue_lockable_def split: prod.splits)

lemma frames_ok_pop:
  assumes "frames_ok q" "q_frames q = (th, fr) # rest"
  shows "frames_ok (q\<lparr>q_depth := q_depth q - (if is_RunTask fr then 1 else 0), q_frames := rest\<rparr>)"
  using assms by (auto simp: frames_ok_def split: prod.splits)

text \<open>Replacing the frames of a queue leaves everything else in place.\<close>

lemma set_frames_inv:
  assumes inv: "sys_inv s" and i: "i < length (queues s)" and ok: "frames_ok ((queues s ! i)\<lparr>q_depth := d, q_frames := fs\<rparr>)"
  shows "sys_inv (set_queue i ((queues s ! i)\<lparr>q_depth := d, q_frames := fs\<rparr>) s)"
proof (rule sys_inv_set_queue[OF inv i])
  show "queue_ok (promises s) ((queues s ! i)\<lparr>q_depth := d, q_frames := fs\<rparr>)"
    using sys_invD(1)[OF inv i] ok by (simp add: queue_ok_def)
qed (simp_all add: outs_def)

lemma queue_submit_inv:
  assumes inv: "sys_inv s" and i: "i < length (queues s)" "\<not> cb_stop (q_callback (queues s ! i))"
    and t: "\<And>g. t = AwaitFuture g \<Longrightarrow> g < length (promises s)" and sub: "queue_submit th i t s = Some s'"
  shows "sys_inv s'"
proof (cases "q_isBlocking (queues s ! i)")
  case True
  then have l: "queue_lockable th (queues s ! i)"
    and s': "s' = set_queue i ((queues s ! i)\<lparr>q_depth := q_depth (queues s ! i) + 1, q_frames := (th, RunTask t) # q_frames (queues s ! i)\<rparr>) s"
    using sub by (auto simp: queue_submit_def Let_def split: if_splits)
  have "frames_ok (queues s ! i)" using sys_invD(1)[OF inv i(1)] by (simp add: queue_ok_def)
  from frames_ok_push[OF this l, of "RunTask t"] show ?thesis
    unfolding s' by (intro set_frames_inv[OF inv i(1)]) (simp add: is_RunTask_def)
next
  case False
  then have "s' = async_submit i t s" using sub by (simp add: queue_submit_def Let_def)
  then show ?thesis using sys_inv_async[OF inv i t] by simp
qed

lemma enqueueHostFnDeferred_inv:
  assumes "sys_inv s" "i < length (queues s)" "\<not> cb_stop (q_callback (queues s ! i))"
    and "enqueueHostFnDeferred th i (HostFn n b) s = Some s'"
  shows "sys_inv s'"
  using sys_inv_async[OF assms(1-3), of "HostFn n b"] assms(4)
  by (auto simp: enqueueHostFnDeferred_def Let_def split: if_splits)

lemma recordEvent_inv:
  assumes inv: "sys_inv s" and i: "i < length (queues s)" "\<not> cb_stop (q_callback (queues s ! i))" and e: "e < length (events s)"
    and rec: "recordEvent th i e s = Some s'"
  shows "sys_inv s'"
proof -
  let ?ev = "events s ! e"
  have ok: "event_ok s e" using sys_invD(4)[OF inv e] .
  show ?thesis
  proof (cases "q_isBlocking (queues s ! i)")
    case True
    then have s': "s' = set_event e (?ev\<lparr>ev_enqueueCount := ev_enqueueCount ?ev + 1, ev_lock := Some (th, RecordIn i)\<rparr>) s"
      using rec by (auto simp: recordEvent_def Let_def split: if_splits)
    show ?thesis unfolding s'
      by (rule sys_inv_set_event[OF inv e]) (use ok e in \<open>auto simp: event_ok_def Let_def\<close>)
  next
    case False
    let ?c = "ev_enqueueCount ?ev + 1" and ?f = "length (promises s)"
    let ?a = "async_submit i (EventDone e ?c) s"
    have s': "s' = set_event e (?ev\<lparr>ev_enqueueCount := ?c, ev_future := Some ?f\<rparr>) ?a"
      using rec False by (auto simp: recordEvent_def Let_def split: if_splits)
    have a: "sys_inv ?a" using sys_inv_async[OF inv i, of "EventDone e ?c"] by simp
    have "(EventDone e ?c, ?f) \<in> set (unrun (q_callback (queues ?a ! i)))" using unrun_async[OF inv i(1) i(1)] by simp
    then show ?thesis unfolding s'
      by (intro sys_inv_set_event[OF a]) (use ok e i(1) in \<open>auto simp: event_ok_def Let_def\<close>)
  qed
qed

lemma sys_inv_promise:
  assumes inv: "sys_inv s" and r: "r \<noteq> Pending"
  shows "sys_inv (s\<lparr>promises := promises s @ [r]\<rparr>)" (is "sys_inv ?s")
proof -
  have "queue_ok (promises ?s) (queues ?s ! j)" if "j < length (queues s)" for j
    using sys_invD(1)[OF inv that] by (simp add: queue_ok_def callback_ok_promise submitted_ok_promise)
  moreover have "event_ok ?s e" if "e < length (events s)" for e
    by (rule event_ok_mono[OF sys_invD(4)[OF inv that]]) simp_all
  moreover have "\<exists>j < length (queues s). f \<in> set (outs s j)" if "f < length (promises ?s)" "promises ?s ! f = Pending" for f
    using sys_invD(3)[OF inv, of f] that r by (cases "f = length (promises s)") (simp_all add: nth_append)
  ultimately show ?thesis using sys_invD(2)[OF inv] by (simp add: sys_inv_def outs_def)
qed

lemma recordFinish_inv:
  assumes inv: "sys_inv s" and e: "e < length (events s)" and rec: "recordFinish th i e now s = Some s'"
  shows "sys_inv s'"
proof -
  let ?ev = "events s ! e"
  let ?new = "(event_complete now (ev_enqueueCount ?ev) ?ev)\<lparr>ev_future := Some (length (promises s)), ev_lock := None\<rparr>"
  have s': "s' = set_event e ?new (s\<lparr>promises := promises s @ [Fulfilled]\<rparr>)"
    using rec by (auto simp: recordFinish_def Let_def split: if_splits)
  have Fulfilled_ne: "Fulfilled \<noteq> Pending" by simp
  have "event_ok s e" using sys_invD(4)[OF inv e] .
  then have "ev_lastReadyEnqueueCount ?ev \<le> ev_enqueueCount ?ev" by (simp add: event_ok_def Let_def)
  then show ?thesis unfolding s'
    by (intro sys_inv_set_event[OF sys_inv_promise[OF inv Fulfilled_ne]])
      (use e in \<open>auto simp: event_ok_def Let_def event_complete_def event_isReady_def\<close>)
qed

lemma waitForEvent_inv:
  assumes inv: "sys_inv s" and i: "i < length (queues s)" "\<not> cb_stop (q_callback (queues s ! i))" and e: "e < length (events s)"
    and wait: "waitForEvent th i e s = Some s'"
  shows "sys_inv s'"
proof -
  let ?ev = "events s ! e"
  have ok: "event_ok s e" using sys_invD(4)[OF inv e] .
  have l: "ev_lock ?ev = None" using wait unfolding waitForEvent_def Let_def by (rule_tac ccontr) simp
  consider "s' = s" | "s' = set_event e (?ev\<lparr>ev_lock := Some (th, WaitIn i)\<rparr>) s"
    | f where "ev_future ?ev = Some f" "s' = async_submit i (AwaitFuture f) s"
    using wait l unfolding waitForEvent_def Let_def
    by (cases "event_isReady ?ev"; cases "q_isBlocking (queues s ! i)"; cases "ev_future ?ev") simp_all
  then show ?thesis
  proof cases
    case 2
    then show ?thesis
      using sys_inv_set_event[OF inv e, of "?ev\<lparr>ev_lock := Some (th, WaitIn i)\<rparr>"] ok e l
      by (auto simp: event_ok_def Let_def event_isReady_def)
  next
    case (3 f)
    then show ?thesis using sys_inv_async[OF inv i, of "AwaitFuture f"] ok by (simp add: event_ok_def Let_def)
  qed (use inv in simp)
qed

lemma waitForEnter_inv:
  assumes inv: "sys_inv s" and i: "i < length (queues s)" and e: "e < length (events s)"
    and wait: "waitForEnter th i e s = Some s'"
  shows "sys_inv s'"
proof -
  let ?ev = "events s ! e" and ?q = "queues s ! i"
  obtain f where l: "ev_lock ?ev = Some (th, WaitIn i)" "queue_lockable th ?q"
    and s': "s' = set_event e (?ev\<lparr>ev_lock := None\<rparr>) (set_queue i (?q\<lparr>q_frames := (th, AwaitFrame f) # q_frames ?q\<rparr>) s)"
    using wait by (auto simp: waitForEnter_def Let_def split: if_splits)
  have "frames_ok ?q" using sys_invD(1)[OF inv i] by (simp add: queue_ok_def)
  from frames_ok_push[OF this l(2), of "AwaitFrame f"]
  have "sys_inv (set_queue i (?q\<lparr>q_depth := q_depth ?q, q_frames := (th, AwaitFrame f) # q_frames ?q\<rparr>) s)"
    by (intro set_frames_inv[OF inv i]) (simp add: is_RunTask_def)
  then have q: "sys_inv (set_queue i (?q\<lparr>q_frames := (th, AwaitFrame f) # q_frames ?q\<rparr>) s)" by simp
  have "event_ok (set_queue i (?q\<lparr>q_frames := (th, AwaitFrame f) # q_frames ?q\<rparr>) s) e" using sys_invD(4)[OF q] e by simp
  then show ?thesis unfolding s'
    using l(1) e by (intro sys_inv_set_event[OF q]) (auto simp: event_ok_def Let_def event_isReady_def)
qed

lemma blocking_return_inv:
  assumes inv: "sys_inv s" and i: "i < length (queues s)" and ret: "blocking_return th i now s = Some s'"
  shows "sys_inv s'"
proof -
  let ?q = "queues s ! i"
  have ok: "frames_ok ?q" using sys_invD(1)[OF inv i] by (simp add: queue_ok_def)
  obtain fr rest where fs: "q_frames ?q = (th, fr) # rest"
    using ret by (auto simp: blocking_return_def Let_def split: list.splits if_splits)
  show ?thesis
  proof (cases fr)
    case (RunTask t)
    obtain s1 r where run: "task_run now t s = Some (s1, r)"
      and s': "s' = set_queue i (?q\<lparr>q_depth := q_depth ?q - 1, q_frames := rest\<rparr>) s1"
      using ret fs RunTask by (auto simp: blocking_return_def Let_def)
    note t = task_run_inv[OF inv run]
    have "?q = queues s1 ! i" "i < length (queues s1)" using t(2) i by simp_all
    with frames_ok_pop[OF ok fs] show ?thesis unfolding s'
      by (simp add: RunTask is_RunTask_def set_frames_inv[OF t(1)])
  next
    case (AwaitFrame f)
    have s': "s' = set_queue i (?q\<lparr>q_frames := rest\<rparr>) s"
      using ret fs AwaitFrame by (auto simp: blocking_return_def Let_def split: if_splits)
    have "frames_ok (?q\<lparr>q_depth := q_depth ?q, q_frames := rest\<rparr>)" using frames_ok_pop[OF ok fs] by (simp add: AwaitFrame is_RunTask_def)
    from set_frames_inv[OF inv i this] show ?thesis unfolding s' by simp
  qed
qed


lemma step_label_inv:
  assumes inv: "sys_inv s" and step: "step_label l s = Some s'"
  shows "sys_inv s'"
proof -
  have i: "label_queue l < length (queues s)" and e: "\<And>e. label_event l = Some e \<Longrightarrow> e < length (events s)"
    and alive: "worker_label l \<or> \<not> cb_stop (q_callback (queues s ! label_queue l))" and ex: "exec_label l s = Some s'"
    using step by (auto simp: step_label_def split: if_splits)
  have cb: "callback_ok (promises s) (q_callback (queues s ! label_queue l))"
    using sys_invD(1)[OF inv i] by (simp add: queue_ok_def)
  show ?thesis
  proof (cases l)
    case (Take k)
    then obtain c where "worker_take (q_callback (queues s ! k)) = Some c" "s' = set_queue k ((queues s ! k)\<lparr>q_callback := c\<rparr>) s"
      using ex by auto
    then show ?thesis using set_worker_inv[OF inv i] worker_take_ok cb Take by simp
  next
    case (Pop k)
    then obtain c where "worker_pop (q_callback (queues s ! k)) = Some c" "s' = set_queue k ((queues s ! k)\<lparr>q_callback := c\<rparr>) s"
      using ex by auto
    then show ?thesis using set_worker_inv[OF inv i] worker_pop_ok cb Pop by simp
  next
    case (Publish k)
    then show ?thesis using worker_publish_inv[OF inv] i ex by auto
  next
    case (Destroy k)
    then have s': "s' = set_queue k ((queues s ! k)\<lparr>q_callback := callback_destroy (q_callback (queues s ! k))\<rparr>) s"
      using ex by (simp split: if_splits)
    have eq: "outstanding (callback_destroy c) = outstanding c" "unrun (callback_destroy c) = unrun c"
      "cb_tasks (callback_destroy c) = cb_tasks c" "worker_ok c \<Longrightarrow> worker_ok (callback_destroy c)" for c
      by (cases "cb_worker c"; simp add: outstanding_def unrun_def callback_destroy_def worker_ok_def)+
    have cb': "callback_ok (promises s) (q_callback (queues s ! k))" using cb Destroy by simp
    have "callback_ok (promises s) (callback_destroy (q_callback (queues s ! k)))"
      using eq(4)[OF callback_okD(1)[OF cb']] cb' unfolding callback_ok_def eq(1,3) by blast
    then show ?thesis using set_worker_inv[OF inv i] Destroy eq(1,2) unfolding s' by simp
  next
    case (WaitQueue th k)
    then show ?thesis
      using queue_submit_inv[OF inv i, of Marker] alive ex inv by (auto simp: queue_wait_def split: if_splits)
  next
    case (Run k now)
    then show ?thesis using worker_run_inv[OF inv, of k now] i ex by simp
  next
    case (EnqueueFn th k n b)
    then show ?thesis using queue_submit_inv[OF inv, of k "HostFn n b" th] i alive ex by simp
  next
    case (EnqueueDeferred th k n b)
    then show ?thesis using enqueueHostFnDeferred_inv[OF inv, of k th n b] i alive ex by simp
  next
    case (RecordEvent th k x)
    then show ?thesis using recordEvent_inv[OF inv, of k x th] i e[of x] alive ex by simp
  next
    case (RecordFinish th k x now)
    then show ?thesis using recordFinish_inv[OF inv, of x th k now] e[of x] ex by simp
  next
    case (WaitForEvent th k x)
    then show ?thesis using waitForEvent_inv[OF inv, of k x th] i e[of x] alive ex by simp
  next
    case (WaitForEnter th k x)
    then show ?thesis using waitForEnter_inv[OF inv, of k x th] i e[of x] ex by simp
  next
    case (Return th k now)
    then show ?thesis using blocking_return_inv[OF inv, of k th now] i ex by simp
  qed
qed

lemma reachable_inv: "reachable blocking timing s \<Longrightarrow> sys_inv s"
  by (induction rule: reachable.induct) (auto intro: sys_inv_init step_label_inv)


section \<open>Events and what has been run\<close>

definition pending_event :: "system \<Rightarrow> evid \<Rightarrow> nat \<Rightarrow> bool" where
  "pending_event s e c \<longleftrightarrow> e < length (events s) \<and> c \<le> ev_enqueueCount (events s ! e)
     \<and> (c = ev_enqueueCount (events s ! e) \<longrightarrow> ev_lastReadyEnqueueCount (events s ! e) < c
          \<and> (\<forall>th i. ev_lock (events s ! e) \<noteq> Some (th, RecordIn i)))"

text \<open>
  The event tasks that have not run belong to different enqueues, and the one of the last enqueue
  keeps the event from being ready; tasks that waited for a future ran after it was resolved.
\<close>

definition event_inv :: "system \<Rightarrow> bool" where
  "event_inv s \<longleftrightarrow>
     (\<forall>i < length (queues s). \<forall>e c f. (EventDone e c, f) \<in> set (unrun (q_callback (queues s ! i))) \<longrightarrow> pending_event s e c)
   \<and> (\<forall>i < length (queues s). \<forall>j < length (queues s). \<forall>e c f g. (EventDone e c, f) \<in> set (unrun (q_callback (queues s ! i)))
        \<longrightarrow> (EventDone e c, g) \<in> set (unrun (q_callback (queues s ! j))) \<longrightarrow> f = g)
   \<and> (\<forall>i < length (queues s). \<forall>f g. (AwaitFuture f, g) \<in> set (q_done (queues s ! i)) \<longrightarrow> f < length (promises s) \<and> promises s ! f \<noteq> Pending)
   \<and> (\<forall>i < length (queues s). \<forall>th e c. (th, RunTask (EventDone e c)) \<notin> set (q_frames (queues s ! i)))"

lemma event_invD:
  assumes "event_inv s" "i < length (queues s)"
  shows "(EventDone e c, f) \<in> set (unrun (q_callback (queues s ! i))) \<Longrightarrow> pending_event s e c"
    "j < length (queues s) \<Longrightarrow> (EventDone e c, f) \<in> set (unrun (q_callback (queues s ! i)))
        \<Longrightarrow> (EventDone e c, g) \<in> set (unrun (q_callback (queues s ! j))) \<Longrightarrow> f = g"
    "(AwaitFuture f, g) \<in> set (q_done (queues s ! i)) \<Longrightarrow> f < length (promises s) \<and> promises s ! f \<noteq> Pending"
    "(th, RunTask (EventDone e c)) \<notin> set (q_frames (queues s ! i))"
  using assms unfolding event_inv_def by blast+

lemma event_inv_init: "event_inv (system_init blocking timing)"
  by (auto simp: event_inv_def system_init_def queue_init_def callback_init_def unrun_def)

text \<open>Steps that add no event task and do not touch the state of the events.\<close>

lemma event_inv_mono:
  assumes inv: "event_inv s" and q: "length (queues s') = length (queues s)"
    and sub: "\<And>j e c f. j < length (queues s) \<Longrightarrow> (EventDone e c, f) \<in> set (unrun (q_callback (queues s' ! j)))
        \<Longrightarrow> (EventDone e c, f) \<in> set (unrun (q_callback (queues s ! j)))"
    and dn: "\<And>j. j < length (queues s) \<Longrightarrow> q_done (queues s' ! j) = q_done (queues s ! j)"
    and frames: "\<And>j x. j < length (queues s) \<Longrightarrow> x \<in> set (q_frames (queues s' ! j)) \<Longrightarrow> x \<in> set (q_frames (queues s ! j)) \<or> (\<forall>th e c. x \<noteq> (th, RunTask (EventDone e c)))"
    and ev: "\<And>e c. pending_event s e c \<Longrightarrow> pending_event s' e c"
    and pr: "\<And>f. f < length (promises s) \<Longrightarrow> promises s ! f \<noteq> Pending \<Longrightarrow> f < length (promises s') \<and> promises s' ! f \<noteq> Pending"
  shows "event_inv s'"
  unfolding event_inv_def q
proof (intro conjI allI impI)
  fix i e c f assume "i < length (queues s)" "(EventDone e c, f) \<in> set (unrun (q_callback (queues s' ! i)))"
  then show "pending_event s' e c" using event_invD(1)[OF inv] sub ev by blast
next
  fix i j e c f g assume "i < length (queues s)" "j < length (queues s)"
    "(EventDone e c, f) \<in> set (unrun (q_callback (queues s' ! i)))" "(EventDone e c, g) \<in> set (unrun (q_callback (queues s' ! j)))"
  then show "f = g" using event_invD(2)[OF inv] sub by blast
next
  fix i f g assume i: "i < length (queues s)" and "(AwaitFuture f, g) \<in> set (q_done (queues s' ! i))"
  then have "f < length (promises s) \<and> promises s ! f \<noteq> Pending" using event_invD(3)[OF inv i] dn[OF i] by simp
  then show "f < length (promises s')" "promises s' ! f \<noteq> Pending" using pr by blast+
next
  fix i th e c assume "i < length (queues s)"
  then show "(th, RunTask (EventDone e c)) \<notin> set (q_frames (queues s' ! i))" using event_invD(4)[OF inv] frames by blast
qed


lemma pending_event_cong: "events s' = events s \<Longrightarrow> pending_event s' = pending_event s"
  by (auto simp: pending_event_def fun_eq_iff)

lemma event_inv_worker:
  assumes "event_inv s" "i < length (queues s)" "unrun cb = unrun (q_callback (queues s ! i))"
    "\<And>f. f < length (promises s) \<Longrightarrow> promises s ! f \<noteq> Pending \<Longrightarrow> f < length ps \<and> ps ! f \<noteq> Pending"
  shows "event_inv (set_queue i ((queues s ! i)\<lparr>q_callback := cb\<rparr>) (s\<lparr>promises := ps\<rparr>))"
proof -
  have eq: "queues (set_queue i q (s\<lparr>promises := ps\<rparr>)) = queues (set_queue i q s)" for q by (simp add: set_queue_def)
  show ?thesis
    by (rule event_inv_mono[OF assms(1)])
      (use assms(2-) in \<open>simp_all add: eq pending_event_def split: if_splits\<close>)
qed

lemma event_inv_frames:
  assumes "event_inv s" "i < length (queues s)" "\<And>x. x \<in> set fs \<Longrightarrow> x \<in> set (q_frames (queues s ! i)) \<or> (\<forall>th e c. x \<noteq> (th, RunTask (EventDone e c)))"
  shows "event_inv (set_queue i ((queues s ! i)\<lparr>q_depth := d, q_frames := fs\<rparr>) s)"
proof (rule event_inv_mono[OF assms(1)])
  fix j x assume "j < length (queues s)" "x \<in> set (q_frames (queues (set_queue i ((queues s ! i)\<lparr>q_depth := d, q_frames := fs\<rparr>) s) ! j))"
  then show "x \<in> set (q_frames (queues s ! j)) \<or> (\<forall>th e c. x \<noteq> (th, RunTask (EventDone e c)))"
    using assms(3)[of x] by (simp split: if_splits)
qed (use assms(2) in \<open>simp_all add: pending_event_def split: if_splits\<close>)

lemma event_inv_async:
  assumes inv: "event_inv s" "sys_inv s" and i: "i < length (queues s)" and t: "\<And>e c. t \<noteq> EventDone e c"
  shows "event_inv (async_submit i t s)"
proof (rule event_inv_mono[OF inv(1)])
  fix j e c f assume j: "j < length (queues s)" and "(EventDone e c, f) \<in> set (unrun (q_callback (queues (async_submit i t s) ! j)))"
  then show "(EventDone e c, f) \<in> set (unrun (q_callback (queues s ! j)))"
    using t unfolding unrun_async[OF inv(2) j i] by (auto split: if_splits)
qed (use i in \<open>simp_all add: async_submit_queue pending_event_def nth_append split: if_splits\<close>)

text \<open>Changing an event: what matters is that the event tasks of the queues stay pending.\<close>

lemma event_inv_set_event:
  assumes inv: "event_inv s" and e: "e < length (events s)"
    and ok: "\<And>c. pending_event s e c \<Longrightarrow> pending_event (set_event e ev s) e c"
  shows "event_inv (set_event e ev s)"
proof (rule event_inv_mono[OF inv])
  fix k c assume "pending_event s k c"
  then show "pending_event (set_event e ev s) k c" using ok by (cases "k = e") (auto simp: pending_event_def)
qed simp_all

lemma event_inv_record:
  assumes inv: "event_inv s" "sys_inv s" and i: "i < length (queues s)" "\<not> cb_stop (q_callback (queues s ! i))" and e: "e < length (events s)"
    and lock: "ev_lock (events s ! e) = None"
  defines "c \<equiv> ev_enqueueCount (events s ! e) + 1"
  shows "event_inv (set_event e ((events s ! e)\<lparr>ev_enqueueCount := c, ev_future := x\<rparr>) (async_submit i (EventDone e c) s))" (is "event_inv ?s")
proof -
  let ?a = "async_submit i (EventDone e c) s"
  have last: "ev_lastReadyEnqueueCount (events s ! e) \<le> ev_enqueueCount (events s ! e)"
    using sys_invD(4)[OF inv(2) e] by (simp add: event_ok_def Let_def)
  have unrun: "set (unrun (q_callback (queues ?s ! j))) = set (unrun (q_callback (queues s ! j)))
      \<union> (if j = i then {(EventDone e c, length (promises s))} else {})" if "j < length (queues s)" for j
    using unrun_async[OF inv(2) that i(1)] by simp
  have other: "queues ?s = queues ?a" by simp
  have pend: "pending_event ?s k d" if "pending_event s k d" for k d
    using that e last by (cases "k = e") (auto simp: pending_event_def c_def)
  have new: "pending_event ?s e c" using e lock last by (auto simp: pending_event_def c_def)
  have old: "d < c" if "(EventDone e d, f) \<in> set (unrun (q_callback (queues s ! j)))" "j < length (queues s)" for d f j
    using event_invD(1)[OF inv(1) that(2,1)] by (simp add: pending_event_def c_def)
  show ?thesis
    unfolding event_inv_def
  proof (intro conjI allI impI)
    fix j k d f assume "j < length (queues ?s)" "(EventDone k d, f) \<in> set (unrun (q_callback (queues ?s ! j)))"
    then show "pending_event ?s k d" using unrun[of j] pend new event_invD(1)[OF inv(1), of j] by (auto split: if_splits)
  next
    fix j k m d f g assume "j < length (queues ?s)" "k < length (queues ?s)"
      "(EventDone m d, f) \<in> set (unrun (q_callback (queues ?s ! j)))" "(EventDone m d, g) \<in> set (unrun (q_callback (queues ?s ! k)))"
    then show "f = g"
      using unrun[of j] unrun[of k] old[of d] event_invD(2)[OF inv(1), of j k] by (auto split: if_splits)
  next
    fix j f g assume "j < length (queues ?s)" "(AwaitFuture f, g) \<in> set (q_done (queues ?s ! j))"
    then have "f < length (promises s) \<and> promises s ! f \<noteq> Pending"
      using event_invD(3)[OF inv(1), of j f g] i by (simp add: async_submit_queue split: if_splits)
    then show "f < length (promises ?s)" "promises ?s ! f \<noteq> Pending" by (simp_all add: nth_append)
  next
    fix j th k d assume "j < length (queues ?s)"
    then show "(th, RunTask (EventDone k d)) \<notin> set (q_frames (queues ?s ! j))"
      using event_invD(4)[OF inv(1), of j] i by (cases "j = i") (simp_all add: async_submit_queue)
  qed
qed


lemma unrun_outs: "(t, f) \<in> set (unrun (q_callback (queues s ! j))) \<Longrightarrow> f \<in> set (outs s j)"
proof -
  have "set (unrun cb) \<subseteq> set (cb_tasks cb)" for cb
    by (cases "cb_tasks cb"; cases "cb_worker cb") (auto simp: unrun_def)
  then show "(t, f) \<in> set (unrun (q_callback (queues s ! j))) \<Longrightarrow> f \<in> set (outs s j)"
    by (force simp: outs_def outstanding_def)
qed

lemma pending_event_complete:
  assumes "pending_event s k d" "c \<noteq> d \<or> m \<noteq> k"
  shows "pending_event (set_event m (event_complete now c (events s ! m)) s) k d"
proof (cases "m = k")
  case True
  then show ?thesis using assms by (auto simp: pending_event_def event_complete_def)
next
  case False
  then show ?thesis using assms by (auto simp: pending_event_def)
qed

lemma event_inv_run:
  assumes inv: "event_inv s" "sys_inv s" and i: "i < length (queues s)" and run: "worker_run i now s = Some s''"
  shows "event_inv s''"
proof -
  let ?q = "queues s ! i" and ?cb = "q_callback (queues s ! i)"
  from run obtain t f s' r where w: "cb_worker ?cb = Executing t f" and tr: "task_run now t s = Some (s', r)"
    and s'': "s'' = set_queue i (?q\<lparr>q_callback := ?cb\<lparr>cb_worker := Executed f r\<rparr>, q_done := q_done ?q @ [(t, f)]\<rparr>) s'"
    by (auto simp: worker_run_def Let_def split: worker.splits)
  note tri = task_run_inv[OF inv(2) tr]
  have cb: "callback_ok (promises s) ?cb" using sys_invD(1)[OF inv(2) i] by (simp add: queue_ok_def)
  obtain rest where tasks: "cb_tasks ?cb = (t, f) # rest"
    using callback_okD(1)[OF cb] w by (cases "cb_tasks ?cb") (auto simp: worker_ok_def)
  have rest: "unrun ?cb = (t, f) # rest" "unrun (?cb\<lparr>cb_worker := Executed f r\<rparr>) = rest" "f \<notin> snd ` set rest"
    using w tasks callback_okD(2)[OF cb] by (auto simp: unrun_def outstanding_def)
  have unrun: "set (unrun (q_callback (queues s'' ! j))) \<subseteq> set (unrun (q_callback (queues s ! j)))"
    "f \<notin> snd ` set (unrun (q_callback (queues s'' ! j)))" if j: "j < length (queues s)" for j
  proof -
    show "set (unrun (q_callback (queues s'' ! j))) \<subseteq> set (unrun (q_callback (queues s ! j)))"
      using j rest by (cases "j = i") (auto simp: s'' tri(2))
    show "f \<notin> snd ` set (unrun (q_callback (queues s'' ! j)))"
    proof (cases "j = i")
      case True
      then show ?thesis using j rest by (simp add: s'' tri(2))
    next
      case False
      have "f \<in> set (outs s i)" using unrun_outs[of t f s i] rest(1) by simp
      then have "f \<notin> set (outs s j)" using sys_invD(2)[OF inv(2) i j] False by blast
      then show ?thesis using unrun_outs[of _ f s j] False j by (auto simp: s'' tri(2))
    qed
  qed
  have pend: "pending_event s'' k d" if j: "j < length (queues s)" and mem: "(EventDone k d, g) \<in> set (unrun (q_callback (queues s'' ! j)))" for j k d g
  proof -
    have old: "(EventDone k d, g) \<in> set (unrun (q_callback (queues s ! j)))" "g \<noteq> f" using unrun[OF j] mem by force+
    then have p: "pending_event s k d" using event_invD(1)[OF inv(1) j] by blast
    show ?thesis
    proof (cases "t = EventDone k d")
      case True
      then have "(EventDone k d, f) \<in> set (unrun ?cb)" using rest(1) by simp
      then show ?thesis using event_invD(2)[OF inv(1) i j] old by blast
    next
      case False
      have "events s'' = events s'" by (simp add: s'')
      moreover have "pending_event s' k d"
      proof (cases t)
        case (EventDone m c)
        then have "s' = set_event m (event_complete now c (events s ! m)) s" using tr by (auto simp: task_run_def split: if_splits)
        then show ?thesis using pending_event_complete[OF p] False EventDone by auto
      qed (use tr p in \<open>auto simp: task_run_def split: if_splits\<close>)
      ultimately show ?thesis by (simp add: pending_event_def)
    qed
  qed
  show ?thesis
    unfolding event_inv_def
  proof (intro conjI allI impI)
    fix j k d g assume "j < length (queues s'')" "(EventDone k d, g) \<in> set (unrun (q_callback (queues s'' ! j)))"
    then show "pending_event s'' k d" using pend[of j] by (simp add: s'' tri(2))
  next
    fix j k m d g h assume "j < length (queues s'')" "k < length (queues s'')"
      "(EventDone m d, g) \<in> set (unrun (q_callback (queues s'' ! j)))" "(EventDone m d, h) \<in> set (unrun (q_callback (queues s'' ! k)))"
    then show "g = h" using unrun(1)[of j] unrun(1)[of k] event_invD(2)[OF inv(1), of j k m d g h] by (simp add: s'' tri(2)) blast
  next
    fix j g h assume j: "j < length (queues s'')" and mem: "(AwaitFuture g, h) \<in> set (q_done (queues s'' ! j))"
    have "g < length (promises s) \<and> promises s ! g \<noteq> Pending"
    proof (cases "(AwaitFuture g, h) \<in> set (q_done (queues s ! j))")
      case True
      then show ?thesis using event_invD(3)[OF inv(1), of j] j by (simp add: s'' tri(2))
    next
      case False
      then have t: "t = AwaitFuture g" using mem j by (cases "j = i") (auto simp: s'' tri(2))
      then have "g < f" using callback_okD(4)[OF cb, of g f] tasks by simp
      moreover have "f < length (promises s)" using callback_okD(3)[OF cb, of f] tasks w by (simp add: outstanding_def)
      ultimately show ?thesis using tr t by (simp add: task_run_def split: if_splits)
    qed
    then show "g < length (promises s'')" "promises s'' ! g \<noteq> Pending" by (simp_all add: s'' tri(3))
  next
    fix j th k d assume "j < length (queues s'')"
    then show "(th, RunTask (EventDone k d)) \<notin> set (q_frames (queues s'' ! j))"
      using event_invD(4)[OF inv(1), of j] by (cases "j = i") (simp_all add: s'' tri(2))
  qed
qed


lemma queue_submit_event_inv:
  assumes inv: "event_inv s" "sys_inv s" and i: "i < length (queues s)" and t: "\<And>e c. t \<noteq> EventDone e c"
    and sub: "queue_submit th i t s = Some s'"
  shows "event_inv s'"
proof (cases "q_isBlocking (queues s ! i)")
  case True
  then have s': "s' = set_queue i ((queues s ! i)\<lparr>q_depth := q_depth (queues s ! i) + 1, q_frames := (th, RunTask t) # q_frames (queues s ! i)\<rparr>) s"
    using sub by (auto simp: queue_submit_def Let_def split: if_splits)
  show ?thesis unfolding s' by (rule event_inv_frames[OF inv(1) i]) (use t in auto)
next
  case False
  then have "s' = async_submit i t s" using sub by (simp add: queue_submit_def Let_def)
  then show ?thesis using event_inv_async[OF inv i t] by simp
qed

lemma recordEvent_event_inv:
  assumes inv: "event_inv s" "sys_inv s" and i: "i < length (queues s)" "\<not> cb_stop (q_callback (queues s ! i))" and e: "e < length (events s)"
    and rec: "recordEvent th i e s = Some s'"
  shows "event_inv s'"
proof -
  let ?ev = "events s ! e" and ?c = "ev_enqueueCount (events s ! e) + 1"
  have lock: "ev_lock ?ev = None" using rec unfolding recordEvent_def Let_def by (rule_tac ccontr) simp
  show ?thesis
  proof (cases "q_isBlocking (queues s ! i)")
    case True
    then have s': "s' = set_event e (?ev\<lparr>ev_enqueueCount := ?c, ev_lock := Some (th, RecordIn i)\<rparr>) s"
      using rec lock by (simp add: recordEvent_def Let_def)
    show ?thesis unfolding s' by (rule event_inv_set_event[OF inv(1) e]) (use e in \<open>auto simp: pending_event_def\<close>)
  next
    case False
    then have "s' = set_event e (?ev\<lparr>ev_enqueueCount := ?c, ev_future := Some (length (promises s))\<rparr>) (async_submit i (EventDone e ?c) s)"
      using rec lock by (simp add: recordEvent_def Let_def)
    then show ?thesis using event_inv_record[OF inv i e lock] by simp
  qed
qed

lemma recordFinish_event_inv:
  assumes inv: "event_inv s" and e: "e < length (events s)" and rec: "recordFinish th i e now s = Some s'"
  shows "event_inv s'"
proof -
  let ?ev = "events s ! e"
  let ?new = "(event_complete now (ev_enqueueCount ?ev) ?ev)\<lparr>ev_future := Some (length (promises s)), ev_lock := None\<rparr>"
  let ?p = "s\<lparr>promises := promises s @ [Fulfilled]\<rparr>"
  have lock: "ev_lock ?ev = Some (th, RecordIn i)" and s': "s' = set_event e ?new ?p"
    using rec by (auto simp: recordFinish_def Let_def split: if_splits)
  have p: "event_inv ?p"
    by (rule event_inv_mono[OF inv]) (simp_all add: pending_event_def nth_append)
  show ?thesis unfolding s'
    by (rule event_inv_set_event[OF p]) (use e lock in \<open>auto simp: pending_event_def event_complete_def\<close>)
qed

lemma waitForEvent_event_inv:
  assumes inv: "event_inv s" "sys_inv s" and i: "i < length (queues s)" and e: "e < length (events s)"
    and wait: "waitForEvent th i e s = Some s'"
  shows "event_inv s'"
proof -
  let ?ev = "events s ! e"
  have l: "ev_lock ?ev = None" using wait unfolding waitForEvent_def Let_def by (rule_tac ccontr) simp
  consider "s' = s" | "s' = set_event e (?ev\<lparr>ev_lock := Some (th, WaitIn i)\<rparr>) s"
    | f where "s' = async_submit i (AwaitFuture f) s"
    using wait l unfolding waitForEvent_def Let_def
    by (cases "event_isReady ?ev"; cases "q_isBlocking (queues s ! i)"; cases "ev_future ?ev") auto
  then show ?thesis
  proof cases
    case 2
    then show ?thesis using event_inv_set_event[OF inv(1) e, of "?ev\<lparr>ev_lock := Some (th, WaitIn i)\<rparr>"] e
      by (auto simp: pending_event_def)
  next
    case (3 f)
    then show ?thesis using event_inv_async[OF inv i, of "AwaitFuture f"] by simp
  qed (use inv in simp)
qed

lemma waitForEnter_event_inv:
  assumes inv: "event_inv s" and i: "i < length (queues s)" and e: "e < length (events s)"
    and wait: "waitForEnter th i e s = Some s'"
  shows "event_inv s'"
proof -
  let ?ev = "events s ! e" and ?q = "queues s ! i"
  obtain f where l: "ev_lock ?ev = Some (th, WaitIn i)"
    and s': "s' = set_event e (?ev\<lparr>ev_lock := None\<rparr>) (set_queue i (?q\<lparr>q_frames := (th, AwaitFrame f) # q_frames ?q\<rparr>) s)"
    using wait by (auto simp: waitForEnter_def Let_def split: if_splits)
  have "event_inv (set_queue i (?q\<lparr>q_depth := q_depth ?q, q_frames := (th, AwaitFrame f) # q_frames ?q\<rparr>) s)"
    by (rule event_inv_frames[OF inv i]) auto
  then have q: "event_inv (set_queue i (?q\<lparr>q_frames := (th, AwaitFrame f) # q_frames ?q\<rparr>) s)" by simp
  show ?thesis unfolding s'
    by (rule event_inv_set_event[OF q]) (use e l in \<open>auto simp: pending_event_def\<close>)
qed

lemma blocking_return_event_inv:
  assumes inv: "event_inv s" "sys_inv s" and i: "i < length (queues s)" and ret: "blocking_return th i now s = Some s'"
  shows "event_inv s'"
proof -
  let ?q = "queues s ! i"
  obtain fr rest where fs: "q_frames ?q = (th, fr) # rest"
    using ret by (auto simp: blocking_return_def Let_def split: list.splits if_splits)
  obtain d where s': "s' = set_queue i (?q\<lparr>q_depth := d, q_frames := rest\<rparr>) s"
  proof (cases fr)
    case (RunTask t)
    obtain s1 r where run: "task_run now t s = Some (s1, r)"
      and s': "s' = set_queue i (?q\<lparr>q_depth := q_depth ?q - 1, q_frames := rest\<rparr>) s1"
      using ret fs RunTask by (auto simp: blocking_return_def Let_def)
    have "\<And>e c. t \<noteq> EventDone e c" using event_invD(4)[OF inv(1) i] fs RunTask by auto
    then have "s1 = s" using run by (cases t) (auto simp: task_run_def split: if_splits)
    then show ?thesis using that s' by blast
  next
    case (AwaitFrame f)
    have "s' = set_queue i (?q\<lparr>q_depth := q_depth ?q, q_frames := rest\<rparr>) s"
      using ret fs AwaitFrame by (auto simp: blocking_return_def Let_def split: if_splits)
    then show ?thesis using that by blast
  qed
  show ?thesis unfolding s' by (rule event_inv_frames[OF inv(1) i]) (use fs in auto)
qed

lemma publish_resolves:
  assumes "worker_publish cb ps = Some (cb', ps')" "worker_ok cb"
  shows "unrun cb' = unrun cb" "length ps' = length ps" "ps ! f \<noteq> Pending \<Longrightarrow> ps' ! f \<noteq> Pending"
proof -
  from assms(1) obtain g r where w: "cb_worker cb = Popped g r" "cb' = cb\<lparr>cb_worker := AtLoop\<rparr>" "ps' = ps[g := r]"
    by (auto simp: worker_publish_def split: worker.splits)
  then show "unrun cb' = unrun cb" "length ps' = length ps" by (simp_all add: unrun_def)
  have "r \<noteq> Pending" using assms(2) w(1) by (simp add: worker_ok_def)
  then show "ps ! f \<noteq> Pending \<Longrightarrow> ps' ! f \<noteq> Pending"
    using w(3) by (cases "g < length ps"; cases "f = g") (simp_all add: list_update_beyond)
qed

lemma step_label_event_inv:
  assumes inv: "event_inv s" "sys_inv s" and step: "step_label l s = Some s'"
  shows "event_inv s'"
proof -
  have i: "label_queue l < length (queues s)" and e: "\<And>e. label_event l = Some e \<Longrightarrow> e < length (events s)"
    and alive: "worker_label l \<or> \<not> cb_stop (q_callback (queues s ! label_queue l))" and ex: "exec_label l s = Some s'"
    using step by (auto simp: step_label_def split: if_splits)
  have cb: "callback_ok (promises s) (q_callback (queues s ! label_queue l))"
    using sys_invD(1)[OF inv(2) i] by (simp add: queue_ok_def)
  have worker: "event_inv (set_queue k ((queues s ! k)\<lparr>q_callback := c\<rparr>) s)"
    if "k < length (queues s)" "unrun c = unrun (q_callback (queues s ! k))" for k c
    using event_inv_worker[OF inv(1) that, of "promises s"] by simp
  show ?thesis
  proof (cases l)
    case (Take k)
    then obtain c where "worker_take (q_callback (queues s ! k)) = Some c" "s' = set_queue k ((queues s ! k)\<lparr>q_callback := c\<rparr>) s"
      using ex by auto
    then show ?thesis using worker worker_take_ok cb i Take by simp
  next
    case (Pop k)
    then obtain c where "worker_pop (q_callback (queues s ! k)) = Some c" "s' = set_queue k ((queues s ! k)\<lparr>q_callback := c\<rparr>) s"
      using ex by auto
    then show ?thesis using worker worker_pop_ok cb i Pop by simp
  next
    case (Publish k)
    then obtain c ps where p: "worker_publish (q_callback (queues s ! k)) (promises s) = Some (c, ps)"
      "s' = set_queue k ((queues s ! k)\<lparr>q_callback := c\<rparr>) (s\<lparr>promises := ps\<rparr>)" using ex by auto
    have "worker_ok (q_callback (queues s ! k))" using callback_okD(1)[OF cb] Publish by simp
    from publish_resolves[OF p(1) this] show ?thesis
      unfolding p(2) using i Publish by (intro event_inv_worker[OF inv(1)]) simp_all
  next
    case (Destroy k)
    have "s' = set_queue k ((queues s ! k)\<lparr>q_callback := callback_destroy (q_callback (queues s ! k))\<rparr>) s"
      using ex Destroy by (simp split: if_splits)
    moreover have "unrun (callback_destroy c) = unrun c" for c by (cases "cb_worker c") (simp_all add: unrun_def callback_destroy_def)
    ultimately show ?thesis using worker i Destroy by simp
  next
    case (WaitQueue th k)
    then show ?thesis
      using queue_submit_event_inv[OF inv, of k Marker th s'] i ex inv by (auto simp: queue_wait_def split: if_splits)
  next
    case (Run k now)
    then show ?thesis using event_inv_run[OF inv, of k now s'] i ex by simp
  next
    case (EnqueueFn th k n b)
    then show ?thesis using queue_submit_event_inv[OF inv, of k "HostFn n b" th] i ex by simp
  next
    case (EnqueueDeferred th k n b)
    then have "s' = async_submit k (HostFn n b) s" using ex by (simp add: enqueueHostFnDeferred_def Let_def split: if_splits)
    then show ?thesis using event_inv_async[OF inv, of k "HostFn n b"] i EnqueueDeferred by simp
  next
    case (RecordEvent th k x)
    then show ?thesis using recordEvent_event_inv[OF inv, of k x th] i e[of x] alive ex by simp
  next
    case (RecordFinish th k x now)
    then show ?thesis using recordFinish_event_inv[OF inv(1), of x th k now] e[of x] ex by simp
  next
    case (WaitForEvent th k x)
    then show ?thesis using waitForEvent_event_inv[OF inv, of k x th] i e[of x] ex by simp
  next
    case (WaitForEnter th k x)
    then show ?thesis using waitForEnter_event_inv[OF inv(1), of k x th] i e[of x] ex by simp
  next
    case (Return th k now)
    then show ?thesis using blocking_return_event_inv[OF inv, of k th now] i ex by simp
  qed
qed

lemma reachable_event_inv: "reachable blocking timing s \<Longrightarrow> event_inv s \<and> sys_inv s"
  by (induction rule: reachable.induct)
    (auto intro: sys_inv_init event_inv_init step_label_inv step_label_event_inv)

end
