(* ===== verification/QueueProgress.thy ===== *)
theory QueueProgress
  imports QueueInvariant
begin

text \<open>
  What the queues of the host promise to their users: the history of a queue, the order across
  queues that events establish, the workers as a refinement of an ordered list of futures, and
  that the workers can always finish what was submitted.
\<close>

section \<open>Histories\<close>

lemma unrun_pending:
  assumes "sys_inv s" "i < length (queues s)" "(t, f) \<in> set (unrun (q_callback (queues s ! i)))"
  shows "f < length (promises s) \<and> promises s ! f = Pending"
  using callback_okD(3)[of "promises s" "q_callback (queues s ! i)" f] sys_invD(1)[OF assms(1,2)] unrun_outs[OF assms(3)]
  by (simp add: queue_ok_def outs_def)

lemma submitted_resolved:
  assumes "sys_inv s" "i < length (queues s)" "(t, f) \<in> set (q_submitted (queues s ! i))" "promises s ! f \<noteq> Pending"
  shows "(t, f) \<in> set (q_done (queues s ! i))"
  using unrun_pending[OF assms(1,2)] sys_invD(1)[OF assms(1,2)] assms(3,4) by (auto simp: queue_ok_def)

text \<open>
  Property C4. In every reachable state a queue has run its tasks in the order of their submission:
  what is done is a prefix of what was submitted, and the rest waits in the worker. A resolved future
  means that its task has been run. A non-blocking queue that reports to be empty has run everything. A
  blocking queue reports to be empty exactly when no call is running a task in it, whatever waits in its
  worker: functions that were enqueued deferred are not counted, so that it can be empty with unfinished
  tasks (\<open>deferred_not_counted\<close> below), against the documentation of \<^verbatim>\<open>Queue::isEmpty\<close>. The
  calls that hold a blocking queue belong to one thread.
\<close>

theorem queue_history:
  assumes "reachable blocking timing s" "i < length (queues s)"
  defines "q \<equiv> queues s ! i"
  shows "q_submitted q = q_done q @ unrun (q_callback q)
    \<and> (\<forall>t f. (t, f) \<in> set (q_submitted q) \<and> promises s ! f \<noteq> Pending \<longrightarrow> (t, f) \<in> set (q_done q))
    \<and> (\<not> q_isBlocking q \<and> isQueueEmpty q \<longrightarrow> q_done q = q_submitted q)
    \<and> (q_isBlocking q \<longrightarrow> (isQueueEmpty q \<longleftrightarrow> (\<forall>th t. (th, RunTask t) \<notin> set (q_frames q))))
    \<and> (\<exists>th. fst ` set (q_frames q) \<subseteq> {th})"
proof -
  have inv: "sys_inv s" using assms(1) by (rule reachable_inv)
  have ok: "queue_ok (promises s) q" using sys_invD(1)[OF inv assms(2)] by (simp add: q_def)
  have h: "q_submitted q = q_done q @ unrun (q_callback q)" using ok by (simp add: queue_ok_def)
  moreover have "\<forall>t f. (t, f) \<in> set (q_submitted q) \<and> promises s ! f \<noteq> Pending \<longrightarrow> (t, f) \<in> set (q_done q)"
    using submitted_resolved[OF inv assms(2)] by (simp add: q_def)
  moreover have "q_done q = q_submitted q" if "\<not> q_isBlocking q \<and> isQueueEmpty q"
  proof -
    have "cb_tasks (q_callback q) = []" using that by (auto simp: isQueueEmpty_def callback_isEmpty_def)
    then have "unrun (q_callback q) = []" by (cases "cb_worker (q_callback q)") (simp_all add: unrun_def)
    then show ?thesis using h by simp
  qed
  moreover have "isQueueEmpty q \<longleftrightarrow> (\<forall>th t. (th, RunTask t) \<notin> set (q_frames q))" if "q_isBlocking q"
  proof -
    have "q_depth q = length (filter (\<lambda>(th, fr). is_RunTask fr) (q_frames q))"
      using ok by (simp add: queue_ok_def frames_ok_def)
    then show ?thesis
      using that by (auto simp: isQueueEmpty_def filter_empty_conv is_RunTask_def split: frame.splits)
  qed
  moreover have "\<exists>th. fst ` set (q_frames q) \<subseteq> {th}" using ok by (simp add: queue_ok_def frames_ok_def)
  ultimately show ?thesis by blast
qed

lemma steps_reachable_from: "reachable blocking timing s \<Longrightarrow> steps ls s = Some s' \<Longrightarrow> reachable blocking timing s'"
  by (induction ls arbitrary: s) (auto simp: steps_def bind_eq_Some_conv intro: reachable.step)

lemmas steps_reachable = steps_reachable_from[OF reachable.init]

text \<open>Two functions in a queue, the first of which throws: the second is run all the same.\<close>

definition two_functions :: "label list" where
  "two_functions = [EnqueueFn 0 0 7 True, EnqueueFn 0 0 8 False, Take 0, Run 0 0, Pop 0, Publish 0, Take 0, Run 0 0, Pop 0]"

lemma two_functions_run:
  "steps two_functions (system_init [False] []) = Some \<lparr>queues = [\<lparr>q_callback = \<lparr>cb_tasks = [], cb_worker = Popped 1 Fulfilled, cb_stop = False\<rparr>,
     q_isBlocking = False, q_depth = 0, q_frames = [], q_submitted = [(HostFn 7 True, 0), (HostFn 8 False, 1)],
     q_done = [(HostFn 7 True, 0), (HostFn 8 False, 1)]\<rparr>], events = [], promises = [Failed, Pending]\<rparr>"
  by code_simp

lemma queue_history_witness:
  "\<exists>s. steps two_functions (system_init [False] []) = Some s \<and> isQueueEmpty (queues s ! 0)
     \<and> q_done (queues s ! 0) = q_submitted (queues s ! 0)"
proof -
  note r = steps_reachable[OF two_functions_run]
  show ?thesis using queue_history[OF r, of 0] two_functions_run by (simp add: isQueueEmpty_def callback_isEmpty_def)
qed

text \<open>
  What neither the report of a blocking queue nor an event recorded in it waits for: a function that was
  enqueued deferred before. Here it waits in the worker of the queue, the queue is empty and the event is ready.
\<close>

definition deferred_then_record :: "label list" where
  "deferred_then_record = [EnqueueDeferred 0 0 7 False, RecordEvent 0 0 0, RecordFinish 0 0 0 1]"

lemma deferred_not_counted:
  "\<exists>s. reachable [True] [False] s \<and> q_isBlocking (queues s ! 0) \<and> isQueueEmpty (queues s ! 0)
     \<and> ev_enqueueCount (events s ! 0) = 1 \<and> event_isReady (events s ! 0)
     \<and> q_submitted (queues s ! 0) = [(HostFn 7 False, 0)] \<and> q_done (queues s ! 0) = []"
proof -
  have r: "steps deferred_then_record (system_init [True] [False]) = Some \<lparr>queues =
     [\<lparr>q_callback = \<lparr>cb_tasks = [(HostFn 7 False, 0)], cb_worker = AtLoop, cb_stop = False\<rparr>, q_isBlocking = True,
        q_depth = 0, q_frames = [], q_submitted = [(HostFn 7 False, 0)], q_done = []\<rparr>],
     events = [\<lparr>ev_enqueueCount = 1, ev_lastReadyEnqueueCount = 1, ev_future = Some 1, ev_timingEnabled = False, ev_timestamp = 0,
        ev_lock = None\<rparr>], promises = [Pending, Fulfilled]\<rparr>" (is "_ = Some ?s")
    by code_simp
  have "isQueueEmpty (queues ?s ! 0) \<and> event_isReady (events ?s ! 0)" by (simp add: isQueueEmpty_def event_isReady_def)
  then show ?thesis using steps_reachable[OF r] by (intro exI[of _ ?s]) simp
qed

section \<open>Order across queues\<close>

lemma prefix_done:
  assumes "q_submitted q = q_done q @ unrun cb" "m < n" "n < length (q_submitted q)" "q_submitted q ! n \<in> set (q_done q)"
    and "distinct (q_submitted q)"
  shows "q_submitted q ! m \<in> set (q_done q)"
proof -
  obtain k where k: "k < length (q_done q)" "q_done q ! k = q_submitted q ! n" using assms(4) by (auto simp: in_set_conv_nth)
  then have "q_submitted q ! k = q_submitted q ! n" "k < length (q_submitted q)" using assms(1) by (simp_all add: nth_append)
  then have "k = n" using assms(3,5) nth_eq_iff_index_eq by blast
  then have "m < length (q_done q)" using k(1) assms(2) by simp
  then show ?thesis using assms(1) by (simp add: nth_append)
qed


lemma submitted_distinct:
  assumes "sys_inv s" "i < length (queues s)"
  shows "distinct (map snd (q_submitted (queues s ! i)))"
proof -
  have "sorted_wrt (<) (map snd (q_submitted (queues s ! i)))"
    using sys_invD(1)[OF assms] by (simp add: queue_ok_def submitted_ok_def)
  then show ?thesis using strict_sorted_iff by blast
qed

lemma earlier_done:
  assumes "sys_inv s" "i < length (queues s)" "m \<le> n" "n < length (q_submitted (queues s ! i))"
    "q_submitted (queues s ! i) ! n \<in> set (q_done (queues s ! i))"
  shows "q_submitted (queues s ! i) ! m \<in> set (q_done (queues s ! i))"
proof (cases "m = n")
  case False
  have "q_submitted (queues s ! i) = q_done (queues s ! i) @ unrun (q_callback (queues s ! i))"
    using sys_invD(1)[OF assms(1,2)] by (simp add: queue_ok_def)
  moreover have "distinct (q_submitted (queues s ! i))" using submitted_distinct[OF assms(1,2)] unfolding distinct_map by blast
  ultimately show ?thesis using prefix_done[OF _ _ assms(4,5)] assms(3) False by simp
qed (use assms(5) in simp)

text \<open>
  Property C5. What an event promises that is recorded in a non-blocking queue, where the record is the
  submission of a task \<open>EventDone\<close>. Once the event is ready, the work that was submitted to the queue
  before its last record has been run. And a task that waits for an event in one queue runs only after
  everything that was submitted to the queue of the event before the record it waits for, whatever
  happened to the event in the meantime. A record in a blocking queue submits nothing and is not
  covered: it makes the event ready although a function that was enqueued deferred before it may not have
  run (\<open>deferred_not_counted\<close> above).
\<close>

theorem event_orders_queues:
  assumes "reachable blocking timing s" "a < length (queues s)" "m \<le> n" "n < length (q_submitted (queues s ! a))"
    and "(\<exists>e f. e < length (events s) \<and> event_isReady (events s ! e)
            \<and> q_submitted (queues s ! a) ! n = (EventDone e (ev_enqueueCount (events s ! e)), f))
       \<or> (\<exists>b f g t. b < length (queues s) \<and> (AwaitFuture f, g) \<in> set (q_done (queues s ! b))
            \<and> q_submitted (queues s ! a) ! n = (t, f))"
  shows "q_submitted (queues s ! a) ! m \<in> set (q_done (queues s ! a))"
proof -
  have inv: "event_inv s" "sys_inv s" using reachable_event_inv[OF assms(1)] by simp_all
  have "q_submitted (queues s ! a) ! n \<in> set (q_done (queues s ! a))"
    using assms(5)
  proof
    assume "\<exists>e f. e < length (events s) \<and> event_isReady (events s ! e)
            \<and> q_submitted (queues s ! a) ! n = (EventDone e (ev_enqueueCount (events s ! e)), f)"
    then obtain e f where e: "event_isReady (events s ! e)" "q_submitted (queues s ! a) ! n = (EventDone e (ev_enqueueCount (events s ! e)), f)"
      by blast
    have "q_submitted (queues s ! a) ! n \<notin> set (unrun (q_callback (queues s ! a)))"
      using event_invD(1)[OF inv(1) assms(2), of e "ev_enqueueCount (events s ! e)" f] e
      by (auto simp: pending_event_def event_isReady_def)
    then show ?thesis using sys_invD(1)[OF inv(2) assms(2)] nth_mem[OF assms(4)] by (auto simp: queue_ok_def)
  next
    assume "\<exists>b f g t. b < length (queues s) \<and> (AwaitFuture f, g) \<in> set (q_done (queues s ! b))
            \<and> q_submitted (queues s ! a) ! n = (t, f)"
    then obtain b f g t where b: "b < length (queues s)" "(AwaitFuture f, g) \<in> set (q_done (queues s ! b))"
      "q_submitted (queues s ! a) ! n = (t, f)" by blast
    then have "promises s ! f \<noteq> Pending" using event_invD(3)[OF inv(1)] by blast
    then show ?thesis using submitted_resolved[OF inv(2) assms(2), of t f] nth_mem[OF assms(4)] b(3) by simp
  qed
  then show ?thesis by (rule earlier_done[OF inv(2) assms(2-4)])
qed

text \<open>Two queues: a function and an event in the first, the second waits for the event.\<close>

definition two_queues :: "label list" where
  "two_queues = [EnqueueFn 0 0 7 False, RecordEvent 0 0 0, WaitForEvent 0 1 0, EnqueueFn 0 1 8 False,
     Take 1, Take 0, Run 0 5, Pop 0, Publish 0, Take 0, Run 0 6, Pop 0, Publish 0, Run 1 9]"

lemma two_queues_run:
  "steps two_queues (system_init [False, False] [True]) = Some \<lparr>queues =
     [\<lparr>q_callback = \<lparr>cb_tasks = [], cb_worker = AtLoop, cb_stop = False\<rparr>, q_isBlocking = False, q_depth = 0, q_frames = [],
        q_submitted = [(HostFn 7 False, 0), (EventDone 0 1, 1)], q_done = [(HostFn 7 False, 0), (EventDone 0 1, 1)]\<rparr>,
      \<lparr>q_callback = \<lparr>cb_tasks = [(AwaitFuture 1, 2), (HostFn 8 False, 3)], cb_worker = Executed 2 Fulfilled, cb_stop = False\<rparr>,
        q_isBlocking = False, q_depth = 0, q_frames = [], q_submitted = [(AwaitFuture 1, 2), (HostFn 8 False, 3)],
        q_done = [(AwaitFuture 1, 2)]\<rparr>],
     events = [\<lparr>ev_enqueueCount = 1, ev_lastReadyEnqueueCount = 1, ev_future = Some 1, ev_timingEnabled = True, ev_timestamp = 6, ev_lock = None\<rparr>],
     promises = [Fulfilled, Fulfilled, Pending, Pending]\<rparr>"
  by code_simp

lemma event_orders_queues_witness:
  "\<exists>s. steps two_queues (system_init [False, False] [True]) = Some s \<and> q_submitted (queues s ! 0) ! 0 \<in> set (q_done (queues s ! 0))"
proof -
  note r = steps_reachable[OF two_queues_run]
  have "q_submitted (queues (the (steps two_queues (system_init [False, False] [True]))) ! 0) ! 0
      \<in> set (q_done (queues (the (steps two_queues (system_init [False, False] [True]))) ! 0))"
    unfolding two_queues_run option.sel
    by (rule event_orders_queues[OF r, of 0 0 1])
      (simp_all add: exI[of _ "1 :: nat"])
  then show ?thesis unfolding two_queues_run by simp
qed


section \<open>The specification the workers implement\<close>

text \<open>
  Abstractly a queue is a list of futures: submitting appends a new one, and only the oldest
  unresolved future of a queue can be resolved. Recording an event in a blocking queue creates a
  future that is resolved from the start.
\<close>

type_synonym order_spec = "fut list list \<times> promise list"

inductive spec_step :: "order_spec \<Rightarrow> order_spec \<Rightarrow> bool" where
  spec_submit: "i < length pend \<Longrightarrow> spec_step (pend, res) (pend[i := pend ! i @ [length res]], res @ [Pending])"
| spec_resolve: "i < length pend \<Longrightarrow> pend ! i = f # fs \<Longrightarrow> r \<noteq> Pending \<Longrightarrow> spec_step (pend, res) (pend[i := fs], res[f := r])"
| spec_ready: "r \<noteq> Pending \<Longrightarrow> spec_step (pend, res) (pend, res @ [r])"

inductive_cases spec_stepE: "spec_step (pend, res) (pend', res')"

definition order_abs :: "system \<Rightarrow> order_spec" where
  "order_abs s = (map (\<lambda>q. outstanding (q_callback q)) (queues s), promises s)"

lemma order_abs_set_event [simp]: "order_abs (set_event e ev s) = order_abs s"
  by (simp add: order_abs_def)

lemma order_abs_set_queue:
  "i < length (queues s) \<Longrightarrow> outstanding (q_callback q) = outstanding (q_callback (queues s ! i)) \<Longrightarrow> order_abs (set_queue i q s) = order_abs s"
  by (simp add: order_abs_def set_queue_def map_update) (metis list_update_id map_update nth_map length_map)

lemma order_abs_async:
  assumes "i < length (queues s)"
  shows "spec_step (order_abs s) (order_abs (async_submit i t s))"
proof -
  have "order_abs (async_submit i t s) = ((fst (order_abs s))[i := fst (order_abs s) ! i @ [length (snd (order_abs s))]], snd (order_abs s) @ [Pending])"
    using assms by (simp add: order_abs_def async_submit_def Let_def set_queue_def map_update)
  then show ?thesis using spec_submit[of i "fst (order_abs s)" "snd (order_abs s)"] assms by (simp add: order_abs_def)
qed

lemma order_abs_submit:
  assumes "i < length (queues s)" "queue_submit th i t s = Some s'"
  shows "order_abs s' = order_abs s \<or> spec_step (order_abs s) (order_abs s')"
  using assms order_abs_async[OF assms(1)] order_abs_set_queue[OF assms(1)]
  by (auto simp: queue_submit_def Let_def split: if_splits)

lemma order_abs_publish:
  assumes i: "i < length (queues s)" and ok: "worker_ok (q_callback (queues s ! i))"
    and pub: "worker_publish (q_callback (queues s ! i)) (promises s) = Some (cb', ps')"
  shows "spec_step (order_abs s) (order_abs (set_queue i ((queues s ! i)\<lparr>q_callback := cb'\<rparr>) (s\<lparr>promises := ps'\<rparr>)))"
proof -
  from pub obtain f r where w: "cb_worker (q_callback (queues s ! i)) = Popped f r"
    and cb': "cb' = (q_callback (queues s ! i))\<lparr>cb_worker := AtLoop\<rparr>" "ps' = (promises s)[f := r]"
    by (auto simp: worker_publish_def split: worker.splits)
  have r: "r \<noteq> Pending" using ok w by (simp add: worker_ok_def)
  have "fst (order_abs s) ! i = f # outstanding cb'" using i w by (simp add: order_abs_def outstanding_def cb')
  from spec_resolve[OF _ this r, of "snd (order_abs s)"] show ?thesis
    using i by (simp add: order_abs_def set_queue_def map_update cb'(2))
qed

text \<open>
  Property C8. The queues implement the specification: every step of any thread, in any reachable
  state, either leaves the lists of unresolved futures and their results as they are, or submits,
  resolves the oldest future of one queue, or adds a resolved future.
\<close>

theorem queues_refine_order:
  assumes "reachable blocking timing s" "step_label l s = Some s'"
  shows "order_abs s' = order_abs s \<or> spec_step (order_abs s) (order_abs s')"
proof -
  have inv: "sys_inv s" using assms(1) by (rule reachable_inv)
  have i: "label_queue l < length (queues s)" and ex: "exec_label l s = Some s'"
    using assms(2) by (auto simp: step_label_def split: if_splits)
  have cb: "callback_ok (promises s) (q_callback (queues s ! label_queue l))"
    using sys_invD(1)[OF inv i] by (simp add: queue_ok_def)
  note same = order_abs_set_queue[OF i]
  show ?thesis
  proof (cases l)
    case (Take k)
    then show ?thesis using ex same worker_take_ok[OF _ cb] by auto
  next
    case (Pop k)
    then show ?thesis using ex same worker_pop_ok[OF _ cb] by auto
  next
    case (Publish k)
    then show ?thesis using ex order_abs_publish[OF i callback_okD(1)[OF cb]] by auto
  next
    case (Run k now)
    then obtain t f s1 r where w: "cb_worker (q_callback (queues s ! k)) = Executing t f" and tr: "task_run now t s = Some (s1, r)"
      and s': "s' = set_queue k ((queues s ! k)\<lparr>q_callback := (q_callback (queues s ! k))\<lparr>cb_worker := Executed f r\<rparr>,
            q_done := q_done (queues s ! k) @ [(t, f)]\<rparr>) s1"
      using ex by (auto simp: worker_run_def Let_def split: worker.splits)
    note t = task_run_inv(2,3)[OF inv tr]
    have "order_abs s1 = order_abs s" using t by (simp add: order_abs_def)
    moreover have "order_abs s' = order_abs s1" unfolding s'
      by (rule order_abs_set_queue) (use i w t Run in \<open>simp_all add: outstanding_def\<close>)
    ultimately show ?thesis by simp
  next
    case (EnqueueFn th k n b)
    then show ?thesis using ex order_abs_submit[OF i] by simp
  next
    case (EnqueueDeferred th k n b)
    then show ?thesis using ex order_abs_async[OF i] by (auto simp: enqueueHostFnDeferred_def Let_def split: if_splits)
  next
    case (WaitQueue th k)
    then show ?thesis using ex order_abs_submit[OF i] by (auto simp: queue_wait_def split: if_splits)
  next
    case (RecordEvent th k e)
    then show ?thesis using ex order_abs_async[OF i] by (auto simp: recordEvent_def Let_def split: if_splits)
  next
    case (RecordFinish th k e now)
    then show ?thesis using ex spec_ready[of Fulfilled "fst (order_abs s)" "snd (order_abs s)"]
      by (auto simp: recordFinish_def Let_def order_abs_def split: if_splits)
  next
    case (WaitForEvent th k e)
    then show ?thesis using ex order_abs_async[OF i] by (auto simp: waitForEvent_def Let_def split: if_splits)
  next
    case (WaitForEnter th k e)
    then show ?thesis using ex same by (auto simp: waitForEnter_def Let_def split: if_splits)
  next
    case (Return th k now)
    then obtain fr rest where fs: "q_frames (queues s ! k) = (th, fr) # rest"
      using ex by (auto simp: blocking_return_def Let_def split: list.splits if_splits)
    show ?thesis
    proof (cases fr)
      case (RunTask t)
      then obtain s1 r where run: "task_run now t s = Some (s1, r)"
        and s': "s' = set_queue k ((queues s ! k)\<lparr>q_depth := q_depth (queues s ! k) - 1, q_frames := rest\<rparr>) s1"
        using ex fs Return by (auto simp: blocking_return_def Let_def)
      note t = task_run_inv(2,3)[OF inv run]
      have "order_abs s' = order_abs s1" unfolding s'
        by (rule order_abs_set_queue) (use i t Return in simp_all)
      then show ?thesis using t by (simp add: order_abs_def)
    next
      case (AwaitFrame f)
      then show ?thesis using ex fs same Return by (auto simp: blocking_return_def Let_def split: if_splits)
    qed
  next
    case (Destroy k)
    have "outstanding (callback_destroy c) = outstanding c" for c
      by (cases "cb_worker c") (simp_all add: outstanding_def callback_destroy_def)
    then show ?thesis using ex same Destroy by (auto split: if_splits)
  qed
qed


lemma queues_refine_order_witness: "spec_step ([[1]], [Failed, Pending]) ([[]], [Failed, Fulfilled])"
proof -
  let ?s = "the (steps two_functions (system_init [False] []))"
  have r: "reachable [False] [] ?s" using steps_reachable[OF two_functions_run] two_functions_run by simp
  have st: "step_label (Publish 0) ?s = Some (the (step_label (Publish 0) ?s))" by code_simp
  have abs: "order_abs ?s = ([[1]], [Failed, Pending])"
    unfolding two_functions_run by (simp add: order_abs_def outstanding_def)
  have abs': "order_abs (the (step_label (Publish 0) ?s)) = ([[]], [Failed, Fulfilled])"
    unfolding two_functions_run by (simp add: order_abs_def outstanding_def step_label_def worker_publish_def set_queue_def)
  show ?thesis using queues_refine_order[OF r st] unfolding abs abs' by simp
qed

section \<open>The workers can always finish\<close>

text \<open>A system of steps that decrease a measure as long as the goal is not reached.\<close>

locale draining =
  fixes dstep :: "'l \<Rightarrow> 's \<Rightarrow> 's option" and good inv :: "'s \<Rightarrow> bool" and size_of :: "'s \<Rightarrow> nat"
  assumes keeps: "inv s \<Longrightarrow> dstep l s = Some s' \<Longrightarrow> inv s'"
    and decreases: "inv s \<Longrightarrow> dstep l s = Some s' \<Longrightarrow> size_of s' < size_of s"
    and progress: "inv s \<Longrightarrow> \<not> good s \<Longrightarrow> \<exists>l s'. dstep l s = Some s'"
begin

lemma drains: "inv s \<Longrightarrow> \<exists>ls s'. fold_opt dstep ls s = Some s' \<and> inv s' \<and> good s'"
proof (induction "size_of s" arbitrary: s rule: less_induct)
  case less
  show ?case
  proof (cases "good s")
    case True
    then show ?thesis using less.prems by (intro exI[of _ "[]"]) simp
  next
    case False
    then obtain l s1 where s1: "dstep l s = Some s1" using progress less.prems by blast
    then obtain ls s' where "fold_opt dstep ls s1 = Some s'" "inv s' \<and> good s'"
      using less.hyps[OF decreases keeps] less.prems by blast
    then show ?thesis using s1 by (intro exI[of _ "l # ls"]) auto
  qed
qed

lemma runs_keep: "inv s \<Longrightarrow> fold_opt dstep ls s = Some s' \<Longrightarrow> inv s'"
  by (induction ls arbitrary: s) (auto simp: bind_eq_Some_conv dest: keeps)

lemma bounded: "inv s \<Longrightarrow> fold_opt dstep ls s = Some s' \<Longrightarrow> length ls + size_of s' \<le> size_of s"
proof (induction ls arbitrary: s)
  case (Cons l ls)
  then obtain s1 where s1: "dstep l s = Some s1" "fold_opt dstep ls s1 = Some s'" by (auto simp: bind_eq_Some_conv)
  then show ?case using Cons.IH[OF keeps] decreases[OF _ s1(1)] Cons.prems(1) by fastforce
qed simp

end

definition worker_step :: "label \<Rightarrow> system \<Rightarrow> system option" where
  "worker_step l s = (if worker_label l then step_label l s else None)"

definition events_free :: "system \<Rightarrow> bool" where
  "events_free s \<longleftrightarrow> (\<forall>e < length (events s). ev_lock (events s ! e) = None)"

definition drained :: "system \<Rightarrow> bool" where
  "drained s \<longleftrightarrow> (\<forall>f < length (promises s). promises s ! f \<noteq> Pending)
     \<and> (\<forall>i < length (queues s). q_done (queues s ! i) = q_submitted (queues s ! i)
          \<and> (cb_stop (q_callback (queues s ! i)) \<longrightarrow> cb_worker (q_callback (queues s ! i)) \<in> {NotStarted, Stopped}))"

definition work_left :: "callback \<Rightarrow> nat" where
  "work_left cb = (let n = length (cb_tasks cb) in
     case cb_worker cb of
       NotStarted \<Rightarrow> 0 | AtLoop \<Rightarrow> 4 * n + 1 | Executing t f \<Rightarrow> 4 * n | Executed f r \<Rightarrow> 4 * n - 1 | Popped f r \<Rightarrow> 4 * n + 2 | Stopped \<Rightarrow> 0)"

definition total_work :: "system \<Rightarrow> nat" where
  "total_work s = sum_list (map (\<lambda>q. work_left (q_callback q)) (queues s))"

lemma total_work_set_queue:
  assumes "i < length (queues s)" "work_left (q_callback q) < work_left (q_callback (queues s ! i))" "queues s' = queues s"
  shows "total_work (set_queue i q s') < total_work s"
proof -
  let ?w = "map (\<lambda>q. work_left (q_callback q)) (queues s)"
  have "total_work (set_queue i q s') = sum_list (?w[i := work_left (q_callback q)])"
    by (simp add: total_work_def set_queue_def map_update assms(3))
  moreover have "total_work s = sum_list ?w" by (simp add: total_work_def)
  moreover have "?w ! i \<le> sum_list ?w" by (rule elem_le_sum_list) (simp add: assms(1))
  moreover have "sum_list (?w[i := work_left (q_callback q)]) = sum_list ?w + work_left (q_callback q) - ?w ! i"
    by (rule sum_list_update) (simp add: assms(1))
  moreover have "?w ! i = work_left (q_callback (queues s ! i))" using assms(1) by simp
  ultimately show ?thesis using assms(2) by linarith
qed

lemma work_left_take: "worker_take cb = Some cb' \<Longrightarrow> work_left cb' < work_left cb"
  by (cases "cb_tasks cb") (auto simp: worker_take_def work_left_def Let_def split: if_splits)

lemma work_left_pop: "worker_pop cb = Some cb' \<Longrightarrow> worker_ok cb \<Longrightarrow> work_left cb' < work_left cb"
  by (cases "cb_tasks cb") (auto simp: worker_pop_def work_left_def worker_ok_def Let_def split: worker.splits)

lemma worker_step_decreases:
  assumes inv: "sys_inv s" and st: "worker_step l s = Some s'"
  shows "total_work s' < total_work s"
proof -
  have l: "worker_label l" "step_label l s = Some s'" using st by (auto simp: worker_step_def split: if_splits)
  have i: "label_queue l < length (queues s)" and ex: "exec_label l s = Some s'"
    using l(2) by (auto simp: step_label_def split: if_splits)
  have cb: "callback_ok (promises s) (q_callback (queues s ! label_queue l))"
    using sys_invD(1)[OF inv i] by (simp add: queue_ok_def)
  note ok = callback_okD(1)[OF cb]
  show ?thesis
  proof (cases l)
    case (Take k)
    then show ?thesis using ex i work_left_take by (auto intro!: total_work_set_queue)
  next
    case (Pop k)
    then show ?thesis using ex i work_left_pop ok by (auto intro!: total_work_set_queue)
  next
    case (Publish k)
    then show ?thesis using ex i
      by (auto intro!: total_work_set_queue simp: worker_publish_def work_left_def Let_def split: worker.splits)
  next
    case (Run k now)
    then obtain t f s1 r where w: "cb_worker (q_callback (queues s ! k)) = Executing t f" and tr: "task_run now t s = Some (s1, r)"
      and s': "s' = set_queue k ((queues s ! k)\<lparr>q_callback := (q_callback (queues s ! k))\<lparr>cb_worker := Executed f r\<rparr>,
            q_done := q_done (queues s ! k) @ [(t, f)]\<rparr>) s1"
      using ex by (auto simp: worker_run_def Let_def split: worker.splits)
    have "cb_tasks (q_callback (queues s ! k)) \<noteq> []" using ok w Run by (simp add: worker_ok_def)
    then show ?thesis unfolding s' using i Run w task_run_inv(2)[OF inv tr]
      by (intro total_work_set_queue) (simp_all add: work_left_def)
  qed (use l in simp_all)
qed

lemma worker_step_keeps:
  assumes "event_inv s" "sys_inv s" "events_free s" "worker_step l s = Some s'"
  shows "event_inv s' \<and> sys_inv s' \<and> events_free s'"
proof -
  have l: "worker_label l" "step_label l s = Some s'" using assms(4) by (auto simp: worker_step_def split: if_splits)
  have ex: "exec_label l s = Some s'" using l(2) by (auto simp: step_label_def split: if_splits)
  have run: "events_free s1" if "task_run now t s = Some (s1, r)" for now t s1 r
  proof (cases t)
    case (EventDone m c)
    then have "s1 = set_event m (event_complete now c (events s ! m)) s" "ev_lock (events s ! m) = None"
      using that by (auto simp: task_run_def split: if_splits)
    then show ?thesis using assms(3) by (auto simp: events_free_def event_complete_def)
  qed (use that assms(3) in \<open>auto simp: task_run_def split: if_splits\<close>)
  have "events_free s'"
  proof (cases l)
    case (Run k now)
    then show ?thesis using ex run by (auto simp: worker_run_def Let_def events_free_def split: worker.splits)
  qed (use l ex assms(3) in \<open>auto simp: events_free_def\<close>)
  then show ?thesis using step_label_inv[OF assms(2) l(2)] step_label_event_inv[OF assms(1,2) l(2)] by blast
qed

lemma worker_stepI:
  "worker_label l \<Longrightarrow> label_queue l < length (queues s) \<Longrightarrow> exec_label l s = Some s' \<Longrightarrow> worker_step l s = Some s'"
  by (cases l) (simp_all add: worker_step_def step_label_def)

lemma take_enabled:
  "i < length (queues s) \<Longrightarrow> worker_take (q_callback (queues s ! i)) = Some cb \<Longrightarrow> \<exists>l s'. worker_step l s = Some s'"
  using worker_stepI[of "Take i" s] by fastforce

text \<open>A worker that has something to resolve can move, unless it runs a task that blocks.\<close>

lemma worker_enabled:
  assumes inv: "sys_inv s" and i: "i < length (queues s)" and f: "outs s i = f # fs"
    and run: "\<And>t. cb_worker (q_callback (queues s ! i)) = Executing t f \<Longrightarrow> (t, f) \<in> set (cb_tasks (q_callback (queues s ! i)))
                \<Longrightarrow> task_run 0 t s \<noteq> None"
  shows "\<exists>l s'. worker_step l s = Some s'"
proof -
  let ?cb = "q_callback (queues s ! i)"
  have ok: "worker_ok ?cb" using callback_okD(1) sys_invD(1)[OF inv i] unfolding queue_ok_def by blast
  note step = worker_stepI[of _ s]
  show ?thesis
  proof (cases "cb_worker ?cb")
    case AtLoop
    then obtain t where "hd (cb_tasks ?cb) = (t, f)" "cb_tasks ?cb \<noteq> []"
      using f by (cases "cb_tasks ?cb") (auto simp: outs_def outstanding_def)
    then have "worker_take ?cb = Some (?cb\<lparr>cb_worker := Executing t f\<rparr>)"
      using AtLoop by (cases "cb_tasks ?cb") (auto simp: worker_take_def)
    then show ?thesis using take_enabled[OF i] by blast
  next
    case (Executing t g)
    then have "(t, g) \<in> set (cb_tasks ?cb)" "g = f"
      using ok f by (cases "cb_tasks ?cb"; auto simp: worker_ok_def outs_def outstanding_def)+
    then obtain s1 r where "task_run 0 t s = Some (s1, r)" using run Executing by fastforce
    then show ?thesis using step[of "Run i 0"] i Executing by (simp add: worker_run_def Let_def) blast
  next
    case (Executed g r)
    then show ?thesis using step[of "Pop i"] i by (simp add: worker_pop_def) blast
  next
    case (Popped g r)
    then show ?thesis using step[of "Publish i"] i by (simp add: worker_publish_def) blast
  qed (use ok f in \<open>simp_all add: worker_ok_def outs_def outstanding_def\<close>)
qed

lemma idle_worker:
  assumes inv: "sys_inv s" and i: "i < length (queues s)" and out: "outs s i = []"
  shows "cb_tasks (q_callback (queues s ! i)) = [] \<and> cb_worker (q_callback (queues s ! i)) \<in> {NotStarted, AtLoop, Stopped}
    \<and> q_done (queues s ! i) = q_submitted (queues s ! i)"
proof -
  let ?cb = "q_callback (queues s ! i)"
  have ok: "queue_ok (promises s) (queues s ! i)" using sys_invD(1)[OF inv i] .
  then have w: "worker_ok ?cb" using callback_okD(1) unfolding queue_ok_def by blast
  have e: "cb_tasks ?cb = []" using out by (simp add: outs_def outstanding_def)
  moreover have "cb_worker ?cb \<in> {NotStarted, AtLoop, Stopped}"
    using w e out by (cases "cb_worker ?cb") (simp_all add: worker_ok_def outs_def outstanding_def)
  moreover from this e have "unrun ?cb = []" by (auto simp: unrun_def)
  ultimately show ?thesis using ok by (simp add: queue_ok_def)
qed

lemma worker_progress:
  assumes ei: "event_inv s" and inv: "sys_inv s" and free: "events_free s" and nd: "\<not> drained s"
  shows "\<exists>l s'. worker_step l s = Some s'"
proof (cases "\<exists>f < length (promises s). promises s ! f = Pending")
  case True
  define f where "f = (LEAST f. f < length (promises s) \<and> promises s ! f = Pending)"
  have f: "f < length (promises s)" "promises s ! f = Pending"
    using LeastI_ex[OF True] by (simp_all add: f_def)
  have least: "promises s ! g \<noteq> Pending" if "g < f" for g
    using not_less_Least[of g "\<lambda>f. f < length (promises s) \<and> promises s ! f = Pending"] that f(1) by (auto simp: f_def)
  obtain i where i: "i < length (queues s)" "f \<in> set (outs s i)" using sys_invD(3)[OF inv f] by blast
  have ok: "callback_ok (promises s) (q_callback (queues s ! i))" using sys_invD(1)[OF inv i(1)] by (simp add: queue_ok_def)
  obtain g fs where g: "outs s i = g # fs" using i(2) by (cases "outs s i") auto
  have "promises s ! g = Pending" using callback_okD(3)[OF ok, of g] g by (simp add: outs_def)
  moreover have "g \<le> f" using callback_okD(2)[OF ok] g i(2) by (auto simp: outs_def)
  ultimately have gf: "g = f" by (metis le_neq_implies_less least)
  show ?thesis
  proof (rule worker_enabled[OF inv i(1) g])
    fix t assume w: "cb_worker (q_callback (queues s ! i)) = Executing t g" and m: "(t, g) \<in> set (cb_tasks (q_callback (queues s ! i)))"
    then have u: "(t, g) \<in> set (unrun (q_callback (queues s ! i)))" by (simp add: unrun_def)
    show "task_run 0 t s \<noteq> None"
    proof (cases t)
      case (EventDone e c)
      then have "e < length (events s)" using event_invD(1)[OF ei i(1)] u by (auto simp: pending_event_def)
      then show ?thesis using EventDone free by (simp add: task_run_def events_free_def)
    next
      case (AwaitFuture h)
      then have "promises s ! h \<noteq> Pending" using callback_okD(4)[OF ok] m gf least by blast
      then show ?thesis using AwaitFuture by (simp add: task_run_def)
    qed (simp_all add: task_run_def)
  qed
next
  case False
  have out: "outs s i = []" if "i < length (queues s)" for i
  proof -
    have ok: "callback_ok (promises s) (q_callback (queues s ! i))" using sys_invD(1)[OF inv that] by (simp add: queue_ok_def)
    show ?thesis using callback_okD(3)[OF ok] False by (cases "outs s i") (auto simp: outs_def)
  qed
  then obtain i where i: "i < length (queues s)" "cb_stop (q_callback (queues s ! i))"
      "cb_worker (q_callback (queues s ! i)) \<notin> {NotStarted, Stopped}"
    using nd False idle_worker[OF inv] by (auto simp: drained_def)
  then have "worker_take (q_callback (queues s ! i)) = Some ((q_callback (queues s ! i))\<lparr>cb_worker := Stopped\<rparr>)"
    using idle_worker[OF inv i(1) out[OF i(1)]] by (auto simp: worker_take_def)
  then show ?thesis using take_enabled[OF i(1)] by blast
qed

interpretation workers: draining worker_step drained "\<lambda>s. event_inv s \<and> sys_inv s \<and> events_free s" total_work
  using worker_step_keeps worker_step_decreases worker_progress by unfold_locales blast+

lemma events_free_workers:
  assumes "reachable blocking timing s" "events_free s"
  shows "event_inv s \<and> sys_inv s \<and> events_free s"
  using reachable_event_inv[OF assms(1)] assms(2) by simp

text \<open>
  Property C7. The workers always finish on their own what was submitted, in any schedule. From a
  reachable state in which no host thread is in the middle of an event operation, the workers can only make
  boundedly many steps, however they interleave; when no worker can step any more, every future is
  resolved, every queue has run all its tasks in order, and the workers that were asked to stop have
  ended. In particular a run of the workers that ends like this exists.
\<close>

theorem queues_drain:
  assumes "reachable blocking timing s" "events_free s"
  shows "(\<forall>ls s'. fold_opt worker_step ls s = Some s' \<longrightarrow>
        length ls \<le> total_work s \<and> ((\<forall>l. worker_step l s' = None) \<longrightarrow> drained s'))
    \<and> (\<exists>ls s'. fold_opt worker_step ls s = Some s' \<and> drained s')"
proof -
  note inv = events_free_workers[OF assms]
  have "drained s'" if "fold_opt worker_step ls s = Some s'" "\<forall>l. worker_step l s' = None" for ls s'
    using workers.runs_keep[OF inv that(1)] workers.progress[of s'] that(2) by auto
  then show ?thesis using workers.bounded[OF inv] workers.drains[OF inv] by fastforce
qed

lemma queues_drain_witness:
  "\<exists>s. steps (take 5 two_queues) (system_init [False, False] [True]) = Some s \<and> \<not> drained s
     \<and> (\<exists>ls s'. fold_opt worker_step ls s = Some s' \<and> drained s')"
proof -
  let ?s = "the (steps (take 5 two_queues) (system_init [False, False] [True]))"
  have r: "steps (take 5 two_queues) (system_init [False, False] [True]) = Some ?s" by code_simp
  have free: "events_free ?s" unfolding events_free_def by code_simp
  have "promises ?s ! 0 = Pending" "0 < length (promises ?s)" by code_simp+
  then have "\<not> drained ?s" unfolding drained_def by blast
  then show ?thesis using r queues_drain[OF steps_reachable[OF r] free] by blast
qed

text \<open>
  The condition on the events is needed. One thread waits in a blocking queue for an event that is
  recorded in another queue, and holds the blocking queue meanwhile; a second thread records the same
  event in the blocking queue, holding the event while it waits for the queue. The task that would
  resolve the event then waits for the event: no worker and none of the two threads can move.
\<close>

definition record_while_waiting :: "label list" where
  "record_while_waiting = [RecordEvent 0 0 0, WaitForEvent 1 1 0, WaitForEnter 1 1 0, RecordEvent 2 1 0, Take 0]"

lemma record_while_waiting_stuck:
  "\<exists>s. steps record_while_waiting (system_init [False, True] [False]) = Some s \<and> \<not> drained s
     \<and> (\<forall>l. worker_step l s = None) \<and> (\<forall>now. step_label (Return 1 1 now) s = None \<and> step_label (RecordFinish 2 1 0 now) s = None)"
proof -
  have r: "steps record_while_waiting (system_init [False, True] [False]) = Some \<lparr>queues =
     [\<lparr>q_callback = \<lparr>cb_tasks = [(EventDone 0 1, 0)], cb_worker = Executing (EventDone 0 1) 0, cb_stop = False\<rparr>, q_isBlocking = False,
        q_depth = 0, q_frames = [], q_submitted = [(EventDone 0 1, 0)], q_done = []\<rparr>,
      \<lparr>q_callback = \<lparr>cb_tasks = [], cb_worker = NotStarted, cb_stop = False\<rparr>, q_isBlocking = True, q_depth = 0,
        q_frames = [(1, AwaitFrame 0)], q_submitted = [], q_done = []\<rparr>],
     events = [\<lparr>ev_enqueueCount = 2, ev_lastReadyEnqueueCount = 0, ev_future = Some 0, ev_timingEnabled = False, ev_timestamp = 0,
        ev_lock = Some (2, RecordIn 1)\<rparr>], promises = [Pending]\<rparr>" (is "_ = Some ?s")
    by code_simp
  have "worker_step l ?s = None" for l
  proof (cases "worker_label l \<and> label_queue l < 2")
    case True
    then have "label_queue l = 0 \<or> label_queue l = 1" by auto
    then show ?thesis using True
      by (cases l) (auto simp: worker_step_def step_label_def worker_take_def worker_pop_def worker_publish_def worker_run_def task_run_def)
  qed (auto simp: worker_step_def step_label_def)
  moreover have "step_label (Return 1 1 now) ?s = None \<and> step_label (RecordFinish 2 1 0 now) ?s = None" for now
    by (simp add: step_label_def blocking_return_def recordFinish_def queue_lockable_def)
  moreover have "\<not> drained ?s" by (simp add: drained_def)
  ultimately show ?thesis using r by blast
qed

end
