(* ===== verification/Span.thy ===== *)
theory Span
  imports Linear Store
begin

text \<open>
  Memory as the host sees it: a multi-dimensional span over a flat byte memory
  (\<^verbatim>\<open>mem/MdSpan.hpp\<close>, \<^verbatim>\<open>mem/MdSpanArray.hpp\<close>), the sub-views of \<^verbatim>\<open>mem/View.hpp\<close>, and what makes the elements
  of a span lie side by side: no two indices of the extents share a byte, and none leaves the memory.
  Pointers are byte addresses; index and pitch values are machine words of the index type, which wrap.
\<close>

section \<open>Spans\<close>

record 'i span =
  sp_ptr :: nat
  sp_sizeof :: nat
  sp_extent :: "'i vec"
  sp_pitch :: "'i vec"
  sp_align :: "nat option"

text \<open>\<open>None\<close> is the failing assertion of \<^verbatim>\<open>DataPitches\<close>; an alignment of \<open>None\<close> is \<^verbatim>\<open>Alignment<>\<close>.\<close>

definition mdSpan :: "nat \<Rightarrow> nat \<Rightarrow> 'w::len word vec \<Rightarrow> 'w word vec \<Rightarrow> nat option \<Rightarrow> 'w word span option" where
  "mdSpan pointer sizeofElem extents pitchBytes memAlignment =
     map_option (\<lambda>m_pitch. \<lparr>sp_ptr = pointer, sp_sizeof = sizeofElem, sp_extent = extents, sp_pitch = m_pitch,
         sp_align = memAlignment\<rparr>)
       (dataPitches_store (of_nat sizeofElem) pitchBytes)"

definition makeMdSpan :: "nat \<Rightarrow> nat \<Rightarrow> 'w::len word vec \<Rightarrow> nat option \<Rightarrow> 'w word span option" where
  "makeMdSpan pointer sizeofElem extents memAlignment =
     mdSpan pointer sizeofElem extents (calculatePitchesFromExtents (of_nat sizeofElem) extents) memAlignment"

definition span_getPitches :: "'w::len word span \<Rightarrow> 'w word vec" where
  "span_getPitches sp = dataPitches_getPitches (of_nat (sp_sizeof sp)) (sp_pitch sp)"

definition span_getConstMdSpan :: "'w::len word span \<Rightarrow> 'w word span option" where
  "span_getConstMdSpan sp = mdSpan (sp_ptr sp) (sp_sizeof sp) (sp_extent sp) (span_getPitches sp) (sp_align sp)"

text \<open>The address of an element: in one dimension typed pointer arithmetic, else an offset in bytes.\<close>

definition span_ptr :: "'w::len word span \<Rightarrow> 'w word vec \<Rightarrow> nat" where
  "span_ptr sp idx =
     (let dim = length (sp_extent sp) in
      if dim = 1 then sp_ptr sp + sp_sizeof sp * unat (vec_x idx)
      else sp_ptr sp + unat (for_upto 0 (dim - 1) (\<lambda>d offset. offset + span_getPitches sp ! d * idx ! d)
             (of_nat (sp_sizeof sp) * vec_back idx)))"

text \<open>
  Sub-views keep the pitches; the shifted one starts at the element at the offset and loses the
  alignment. \<open>None\<close> is a failing assertion.
\<close>

definition getSubView :: "'w::len word span \<Rightarrow> 'w word vec \<Rightarrow> 'w word span option" where
  "getSubView sp extents =
     (if list_all2 (\<le>) extents (sp_extent sp)
      then mdSpan (sp_ptr sp) (sp_sizeof sp) extents (span_getPitches sp) (sp_align sp) else None)"

definition getSubViewAt :: "'w::len word span \<Rightarrow> 'w word vec \<Rightarrow> 'w word vec \<Rightarrow> 'w word span option" where
  "getSubViewAt sp offset extents =
     (if list_all2 (\<le>) (vec_add offset extents) (sp_extent sp)
      then mdSpan (span_ptr sp offset) (sp_sizeof sp) extents (span_getPitches sp) None else None)"

section \<open>Where the elements lie\<close>

text \<open>The weighted sum of an index, and pitches that leave enough room for the dimensions inside.\<close>

fun off :: "nat list \<Rightarrow> nat list \<Rightarrow> nat" where
  "off (p # ps) (i # is) = p * i + off ps is"
| "off _ _ = 0"

fun pitched :: "nat \<Rightarrow> nat list \<Rightarrow> nat list \<Rightarrow> bool" where
  "pitched s [p] [e] \<longleftrightarrow> p = s"
| "pitched s (p # q # ps) (e # f # es) \<longleftrightarrow> q * f \<le> p \<and> pitched s (q # ps) (f # es)"
| "pitched s _ _ \<longleftrightarrow> False"

lemma pitched_length: "pitched s ps es \<Longrightarrow> length ps = length es \<and> ps \<noteq> []"
  by (induction s ps es rule: pitched.induct) auto

lemma pitched_last: "pitched s ps es \<Longrightarrow> last ps = s"
  by (induction s ps es rule: pitched.induct) auto

lemma off_append: "length ps = length is \<Longrightarrow> off (ps @ qs) (is @ js) = off ps is + off qs js"
  by (induction ps "is" rule: list_induct2) auto

lemma off_sum_list: "off ps is = sum_list (map2 (*) ps is)"
  by (induction ps "is" rule: off.induct) auto

lemma off_mono: "list_all2 (\<le>) is js \<Longrightarrow> off ps is \<le> off ps js"
proof (induction ps "is" arbitrary: js rule: off.induct)
  case (1 p ps i "is")
  then obtain j js' where "js = j # js'" "i \<le> j" "list_all2 (\<le>) is js'" by (cases js) auto
  then show ?case using 1(1)[of js'] by (simp add: add_mono)
qed auto

lemma off_add: "length is = length js \<Longrightarrow> off ps (map2 (+) is js) = off ps is + off ps js"
proof (induction "is" js arbitrary: ps rule: list_induct2)
  case (Cons x xs y ys)
  then show ?case by (cases ps) (auto simp: algebra_simps)
qed simp

text \<open>An element of the inner dimensions ends before the next step of the outermost one.\<close>

lemma off_bound: "pitched s ps es \<Longrightarrow> in_extents is es \<Longrightarrow> off ps is + s \<le> hd ps * hd es"
proof (induction s ps es arbitrary: "is" rule: pitched.induct)
  case (1 s p e)
  then obtain i where "is = [i]" "i < e" by (auto simp: list_all2_Cons2)
  then show ?case using 1 mult_le_mono2[of "Suc i" e s] by simp
next
  case (2 s p q ps e f es)
  obtain i "is'" where "is": "is = i # is'" "i < e" "in_extents is' (f # es)" using 2(3) by (cases "is") auto
  have "off (q # ps) is' + s \<le> q * f" using 2 "is" by simp
  moreover have "p * i + p \<le> p * e" using mult_le_mono2[of "Suc i" e p] "is"(2) by simp
  ultimately show ?case using 2(2) "is"(1) by simp
qed auto

lemma off_disjoint:
  "pitched s ps es \<Longrightarrow> in_extents is es \<Longrightarrow> in_extents js es \<Longrightarrow> is \<noteq> js
     \<Longrightarrow> off ps is + s \<le> off ps js \<or> off ps js + s \<le> off ps is"
proof (induction s ps es arbitrary: "is" js rule: pitched.induct)
  case (1 s p e)
  then obtain i j where ij: "is = [i]" "js = [j]" "i \<noteq> j" by (auto simp: list_all2_Cons2)
  have "s * i + s \<le> s * j \<or> s * j + s \<le> s * i"
    using mult_le_mono2[of "Suc i" j s] mult_le_mono2[of "Suc j" i s] ij(3) by (cases "i < j") auto
  then show ?case using 1 ij by simp
next
  case (2 s p q ps e f es)
  obtain i "is'" where i: "is = i # is'" "in_extents is' (f # es)" using 2(3) by (cases "is") auto
  obtain j js' where j: "js = j # js'" "in_extents js' (f # es)" using 2(4) by (cases js) auto
  note ij = i j
  have b: "off (q # ps) is' + s \<le> p" "off (q # ps) js' + s \<le> p"
    using off_bound[of s "q # ps" "f # es"] 2(2) ij by fastforce+
  show ?case
  proof (cases "i = j")
    case True
    then show ?thesis using 2 ij by auto
  next
    case False
    then have "p * i + p \<le> p * j \<or> p * j + p \<le> p * i"
      using mult_le_mono2[of "Suc i" j p] mult_le_mono2[of "Suc j" i p] by (cases "i < j") auto
    then show ?thesis using b ij(1,3) by auto
  qed
qed auto

lemma pitched_mono: "pitched s ps es \<Longrightarrow> list_all2 (\<le>) es' es \<Longrightarrow> pitched s ps es'"
proof (induction s ps es arbitrary: es' rule: pitched.induct)
  case (2 s p q ps e f es)
  then obtain e' f' es'' where "es' = e' # f' # es''" "f' \<le> f" "list_all2 (\<le>) es'' es"
    by (auto simp: list_all2_Cons2)
  moreover from this have "pitched s (q # ps) (f' # es'')" using 2 by simp
  moreover have "q * f' \<le> p" using order_trans[OF mult_le_mono2[OF \<open>f' \<le> f\<close>]] 2(2) by simp
  ultimately show ?case by simp
qed (auto simp: list_all2_Cons2)

text \<open>The last byte of the last element, and the room all elements need.\<close>

abbreviation last_idx :: "nat list \<Rightarrow> nat list" where
  "last_idx es \<equiv> map (\<lambda>e. e - 1) es"

lemma in_extents_last: "in_extents is es \<Longrightarrow> list_all2 (\<le>) is (last_idx es)"
  by (auto simp: list_all2_conv_all_nth)

lemma pitched_hd: "pitched s ps es \<Longrightarrow> s * prod_list (tl es) \<le> hd ps"
proof (induction s ps es rule: pitched.induct)
  case (2 s p q ps e f es)
  then have "s * prod_list es * f \<le> q * f" by (intro mult_le_mono1) simp
  also have "\<dots> \<le> p" using 2(2) by simp
  finally show ?case by (simp add: algebra_simps)
qed auto

lemma prod_list_extents: "pitched s ps es \<Longrightarrow> 0 \<notin> set es \<Longrightarrow> s * prod_list es \<le> off ps (last_idx es) + s"
proof (induction s ps es rule: pitched.induct)
  case (1 s p e)
  then show ?case by (cases e) auto
next
  case (2 s p q ps e f es)
  then have ih: "s * prod_list (f # es) \<le> off (q # ps) (last_idx (f # es)) + s" by simp
  obtain e' where e: "e = Suc e'" using 2(3) by (cases e) auto
  have "s * prod_list (f # es) \<le> p" using pitched_hd[of s "p # q # ps" "e # f # es"] 2(2) by simp
  then have h: "s * prod_list (f # es) * e' \<le> p * e'" by (rule mult_le_mono1)
  have "s * prod_list (e # f # es) = s * prod_list (f # es) + s * prod_list (f # es) * e'" by (simp add: e algebra_simps)
  moreover have "off (p # q # ps) (last_idx (e # f # es)) = p * e' + off (q # ps) (last_idx (f # es))" by (simp add: e)
  ultimately show ?case using ih h by linarith
qed auto

section \<open>Spans whose elements are in memory\<close>

abbreviation pitches_of :: "'w::len word span \<Rightarrow> nat list" where
  "pitches_of sp \<equiv> map unat (span_getPitches sp)"

abbreviation extents_of :: "'w::len word span \<Rightarrow> nat list" where
  "extents_of sp \<equiv> map unat (sp_extent sp)"

text \<open>
  The elements do not overlap, their offsets fit the index type, and they end inside the memory.
\<close>

definition span_ok :: "nat \<Rightarrow> 'w::len word span \<Rightarrow> bool" where
  "span_ok mlen sp \<longleftrightarrow> 0 < sp_sizeof sp \<and> pitched (sp_sizeof sp) (pitches_of sp) (extents_of sp)
     \<and> (0 \<notin> set (sp_extent sp) \<longrightarrow>
          off (pitches_of sp) (last_idx (extents_of sp)) + sp_sizeof sp \<le> 2 ^ LENGTH('w)
        \<and> sp_ptr sp + off (pitches_of sp) (last_idx (extents_of sp)) + sp_sizeof sp \<le> mlen)"

lemma span_okD:
  assumes "span_ok mlen sp"
  shows "0 < sp_sizeof sp" "pitched (sp_sizeof sp) (pitches_of sp) (extents_of sp)"
    "length (span_getPitches sp) = length (sp_extent sp)" "sp_extent sp \<noteq> []"
  using assms pitched_length[of "sp_sizeof sp" "pitches_of sp" "extents_of sp"] by (auto simp: span_ok_def)

lemma in_extents_not_0: "in_extents idx (es :: 'w::len word vec) \<Longrightarrow> 0 \<notin> set es"
  using in_extents_nonzero by fastforce

lemma span_ok_bound:
  fixes sp :: "'w::len word span"
  assumes "span_ok mlen sp" "in_extents idx (sp_extent sp)"
  shows "off (pitches_of sp) (map unat idx) < 2 ^ LENGTH('w)"
    "sp_ptr sp + off (pitches_of sp) (map unat idx) + sp_sizeof sp \<le> mlen"
proof -
  have "in_extents (map unat idx) (extents_of sp)" using assms(2) in_extents_unat by blast
  then have "off (pitches_of sp) (map unat idx) \<le> off (pitches_of sp) (last_idx (extents_of sp))"
    by (intro off_mono in_extents_last)
  then show "off (pitches_of sp) (map unat idx) < 2 ^ LENGTH('w)"
    "sp_ptr sp + off (pitches_of sp) (map unat idx) + sp_sizeof sp \<le> mlen"
    using assms(1) in_extents_not_0[OF assms(2)] unfolding span_ok_def by auto
qed

lemma for_upto_add: "for_upto 0 n (\<lambda>d r. r + f d) (a :: 'a::comm_monoid_add) = a + sum_list (map f [0..<n])"
  by (induction n) (simp_all add: for_upto_Suc algebra_simps)

lemma word_off: "length ps = length is \<Longrightarrow>
  sum_list (map2 (*) ps is) = (word_of_nat (off (map unat ps) (map unat is)) :: 'w::len word)"
  by (induction ps "is" rule: list_induct2) simp_all

lemma map2_upt: "length xs = Suc n \<Longrightarrow> length ys = Suc n \<Longrightarrow>
  sum_list (map2 (*) xs ys) = xs ! n * ys ! n + sum_list (map (\<lambda>d. xs ! d * ys ! d) [0..<n])"
  for xs :: "'a::comm_semiring_0 list"
  by (simp add: map2_conv_map_nth algebra_simps)

lemma span_getPitches_split: "span_getPitches sp = sp_pitch sp @ [of_nat (sp_sizeof sp)]"
proof -
  have "for_upto 0 (length m) (\<lambda>d r. r[d := m ! d]) (replicate (Suc (length m)) 0) = m @ [0]" for m :: "'a::len word vec"
    using for_upto_assign_take[of "length m" "replicate (Suc (length m)) 0" "(!) m"]
    by (simp only: length_replicate le_Suc_eq drop_replicate map_nth simp_thms) simp
  then show ?thesis by (simp add: span_getPitches_def dataPitches_getPitches_def)
qed

lemma span_ptr_off:
  fixes sp :: "'w::len word span"
  assumes "span_ok mlen sp" "in_extents idx (sp_extent sp)"
  shows "span_ptr sp idx = sp_ptr sp + off (pitches_of sp) (map unat idx)"
proof -
  let ?p = "span_getPitches sp" and ?s = "sp_sizeof sp"
  note ok = span_okD[OF assms(1)]
  have len: "length idx = length (sp_extent sp)" using assms(2) by (simp add: list_all2_lengthD)
  obtain n where n: "length (sp_extent sp) = Suc n" using ok(4) by (cases "sp_extent sp") auto
  have last: "?p ! n = of_nat ?s" using ok(3) n by (simp add: span_getPitches_split nth_append)
  have "unat (of_nat ?s :: 'w word) = ?s" using pitched_last[OF ok(2)] by (simp add: span_getPitches_split)
  then show ?thesis
  proof (cases "n = 0")
    case True
    then obtain i where "idx = [i]" using len n by (auto simp: length_Suc_conv)
    moreover have "?p = [of_nat ?s]" using ok(3) n True by (auto simp: span_getPitches_split)
    ultimately show ?thesis using n True \<open>unat (of_nat ?s :: 'w word) = ?s\<close>
      by (simp add: span_ptr_def vec_x_def)
  next
    case False
    have "for_upto 0 n (\<lambda>d offset. offset + ?p ! d * idx ! d) (of_nat ?s * vec_back idx) = sum_list (map2 (*) ?p idx)"
      using map2_upt[of ?p n idx] len n ok(3) last by (simp add: for_upto_add vec_back_def)
    also have "\<dots> = word_of_nat (off (pitches_of sp) (map unat idx))" using word_off len ok(3) by metis
    finally have "unat (for_upto 0 n (\<lambda>d offset. offset + ?p ! d * idx ! d) (of_nat ?s * vec_back idx))
        = off (pitches_of sp) (map unat idx)"
      using span_ok_bound(1)[OF assms] by (simp add: unat_of_nat)
    then show ?thesis using n False by (simp add: span_ptr_def)
  qed
qed

lemma in_extents_sub:
  "list_all2 (\<le>) es (fs :: 'a::preorder vec) \<Longrightarrow> in_extents idx es \<Longrightarrow> in_extents idx fs"
  unfolding list_all2_conv_all_nth by (metis less_le_trans)

text \<open>Two elements have no byte in common.\<close>

definition elem_bytes :: "'w::len word span \<Rightarrow> 'w word vec \<Rightarrow> nat set" where
  "elem_bytes sp idx = {span_ptr sp idx ..< span_ptr sp idx + sp_sizeof sp}"

lemma elem_bytes_disjoint:
  assumes "span_ok mlen sp" "in_extents i (sp_extent sp)" "in_extents j (sp_extent sp)" "i \<noteq> j"
  shows "elem_bytes sp i \<inter> elem_bytes sp j = {}"
proof -
  have "map unat i \<noteq> map unat j" using assms(4) by (metis list.inj_map_strong unsigned_word_eqI)
  then show ?thesis
    using off_disjoint[OF span_okD(2)[OF assms(1)], of "map unat i" "map unat j"] assms in_extents_unat
    by (fastforce simp: elem_bytes_def span_ptr_off)
qed

lemma elem_bytes_inside:
  assumes "span_ok mlen sp" "in_extents i (sp_extent sp)"
  shows "elem_bytes sp i \<subseteq> {..<mlen}"
  using span_ok_bound(2)[OF assms] by (auto simp: elem_bytes_def span_ptr_off[OF assms])

section \<open>Sub-views\<close>

lemma mdSpan_same_pitches:
  assumes "span_ok mlen sp"
  shows "mdSpan p (sp_sizeof sp) es (span_getPitches sp) al
    = Some \<lparr>sp_ptr = p, sp_sizeof = sp_sizeof sp, sp_extent = es, sp_pitch = sp_pitch sp, sp_align = al\<rparr>"
  by (simp add: mdSpan_def dataPitches_store_def span_getPitches_split vec_eraseBack_butlast vec_back_def)

lemma getPitches_cong: "sp_sizeof sp' = sp_sizeof sp \<Longrightarrow> sp_pitch sp' = sp_pitch sp \<Longrightarrow> span_getPitches sp' = span_getPitches sp"
  by (simp add: span_getPitches_def)

lemma in_extents_zero: "0 \<notin> set es \<Longrightarrow> in_extents (map (\<lambda>_. 0) es) (es :: 'w::len word vec)"
  by (induction es) (auto simp: word_gt_0)

lemma last_idx_mono: "list_all2 (\<le>) es fs \<Longrightarrow> list_all2 (\<le>) (last_idx es) (last_idx fs)"
  by (auto simp: list_all2_conv_all_nth)

lemma le_unat: "list_all2 (\<le>) es fs \<longleftrightarrow> list_all2 (\<le>) (map unat es) (map unat (fs :: 'w::len word vec))"
  by (auto simp: list_all2_conv_all_nth word_le_nat_alt)

text \<open>Shrinking the extents keeps the addresses.\<close>

lemma getSubView_ok:
  assumes ok: "span_ok mlen sp" and sub: "getSubView sp es = Some sp'"
  shows "span_ok mlen sp' \<and> sp_extent sp' = es \<and> sp_sizeof sp' = sp_sizeof sp
    \<and> (\<forall>idx. in_extents idx es \<longrightarrow> in_extents idx (sp_extent sp) \<and> span_ptr sp' idx = span_ptr sp idx)"
proof -
  have le: "list_all2 (\<le>) es (sp_extent sp)" and sp': "sp' = sp\<lparr>sp_extent := es\<rparr>"
    using sub mdSpan_same_pitches[OF ok] by (auto simp: getSubView_def split: if_splits)
  have p: "span_getPitches sp' = span_getPitches sp" by (rule getPitches_cong) (simp_all add: sp')
  have le': "list_all2 (\<le>) (map unat es) (extents_of sp)" using le le_unat by blast
  have "0 \<notin> set (sp_extent sp)" if "0 \<notin> set es" using in_extents_not_0[OF in_extents_sub[OF le in_extents_zero[OF that]]] .
  then have ok': "span_ok mlen sp'"
    using ok off_mono[OF last_idx_mono[OF le'], of "pitches_of sp"] pitched_mono[OF _ le']
    unfolding span_ok_def p by (auto simp: sp')
  have "span_ptr sp' idx = span_ptr sp idx \<and> in_extents idx (sp_extent sp)" if "in_extents idx es" for idx
    using span_ptr_off[OF ok' , of idx] span_ptr_off[OF ok in_extents_sub[OF le that]] in_extents_sub[OF le that] that p
    by (simp add: sp')
  then show ?thesis using ok' sp' by simp
qed

lemma off_last_add:
  "list_all2 (\<lambda>e f. e \<noteq> 0) es fs \<Longrightarrow> list_all2 (\<le>) (map2 (+) os es) fs \<Longrightarrow> length os = length es
     \<Longrightarrow> off ps os + off ps (last_idx es) \<le> off ps (last_idx fs)"
proof -
  assume a: "list_all2 (\<lambda>e f. e \<noteq> 0) es fs" "list_all2 (\<le>) (map2 (+) os es) fs" "length os = length es"
  have "off ps os + off ps (last_idx es) = off ps (map2 (+) os (last_idx es))" using off_add a(3) by simp
  also have "\<dots> \<le> off ps (last_idx fs)"
    by (rule off_mono) (use a in \<open>fastforce simp: list_all2_conv_all_nth\<close>)
  finally show ?thesis .
qed

text \<open>
  A shifted sub-view shows the elements of the original that start at the offset, unless offset plus
  extents wraps around the index type.
\<close>

lemma getSubViewAt_ok:
  fixes sp :: "'w::len word span"
  assumes ok: "span_ok mlen sp" and sub: "getSubViewAt sp os es = Some sp'"
    and wrap: "list_all2 (\<lambda>a b. unat a + unat b < 2 ^ LENGTH('w)) os es"
  shows "span_ok mlen sp' \<and> sp_extent sp' = es \<and> sp_sizeof sp' = sp_sizeof sp
    \<and> (\<forall>idx. in_extents idx es \<longrightarrow> in_extents (vec_add os idx) (sp_extent sp)
          \<and> span_ptr sp' idx = span_ptr sp (vec_add os idx))"
proof -
  have le: "list_all2 (\<le>) (vec_add os es) (sp_extent sp)"
    and sp': "sp' = \<lparr>sp_ptr = span_ptr sp os, sp_sizeof = sp_sizeof sp, sp_extent = es, sp_pitch = sp_pitch sp, sp_align = None\<rparr>"
    using sub mdSpan_same_pitches[OF ok] by (auto simp: getSubViewAt_def split: if_splits)
  have len: "length os = length es" "length es = length (sp_extent sp)"
    using wrap list_all2_lengthD[OF le] by (auto simp: list_all2_lengthD vec_op_def)
  have p: "span_getPitches sp' = span_getPitches sp" by (rule getPitches_cong) (simp_all add: sp')
  have nowrap: "unat (os ! d + es ! d) = unat (os ! d) + unat (es ! d)" if "d < length es" for d
    using wrap that by (simp add: list_all2_conv_all_nth unat_add_bound len)
  have le': "list_all2 (\<le>) (map2 (+) (map unat os) (map unat es)) (extents_of sp)"
    using le len nowrap by (simp add: list_all2_conv_all_nth vec_op_def word_le_nat_alt)
  then have le'': "list_all2 (\<le>) (map unat es) (extents_of sp)" using len by (auto simp: list_all2_conv_all_nth intro: add_leD2)
  have idx: "in_extents (vec_add os idx) (sp_extent sp) \<and> map unat (vec_add os idx) = map2 (+) (map unat os) (map unat idx)"
    if "in_extents idx es" for idx
  proof -
    have l: "length idx = length es" using that by (simp add: list_all2_lengthD)
    have lt: "unat (idx ! d) < unat (es ! d)" if "d < length es" for d
      using \<open>in_extents idx es\<close> that by (simp add: list_all2_conv_all_nth word_less_nat_alt)
    have u: "unat (os ! d + idx ! d) = unat (os ! d) + unat (idx ! d)" if "d < length es" for d
    proof (rule unat_add_bound)
      have "unat (os ! d) + unat (es ! d) < 2 ^ LENGTH('w)" using wrap that len by (simp add: list_all2_conv_all_nth)
      then show "unat (os ! d) + unat (idx ! d) < 2 ^ LENGTH('w)" using lt[OF that] by simp
    qed
    have "unat (os ! d + idx ! d) < unat (sp_extent sp ! d)" if "d < length es" for d
    proof -
      have "unat (os ! d) + unat (es ! d) \<le> unat (sp_extent sp ! d)"
        using le' that len by (simp add: list_all2_conv_all_nth)
      then show ?thesis using u[OF that] lt[OF that] by simp
    qed
    then have "in_extents (vec_add os idx) (sp_extent sp)"
      unfolding list_all2_conv_all_nth word_less_nat_alt by (simp add: len vec_op_def)
    moreover have "map unat (vec_add os idx) = map2 (+) (map unat os) (map unat idx)"
      by (rule nth_equalityI) (simp_all add: vec_op_def len l u)
    ultimately show ?thesis by simp
  qed
  have origin: "span_ptr sp os = sp_ptr sp + off (pitches_of sp) (map unat os)" if "0 \<notin> set es"
  proof -
    have "vec_add os (map (\<lambda>_. 0) es) = os" by (rule nth_equalityI) (simp_all add: vec_op_def len)
    then show ?thesis using span_ptr_off[OF ok conjunct1[OF idx[OF in_extents_zero[OF that]]]] by argo
  qed
  have ok': "span_ok mlen sp'"
  proof (cases "0 \<in> set es")
    case True
    then show ?thesis using ok pitched_mono[OF _ le''] unfolding span_ok_def p by (simp add: sp')
  next
    case False
    have nz: "list_all2 (\<lambda>e f. e \<noteq> 0) (map unat es) (extents_of sp)"
      using False len by (auto simp: list_all2_conv_all_nth in_set_conv_nth word_gt_0 simp flip: word_less_nat_alt[of 0, simplified])
    have "0 \<notin> set (sp_extent sp)" using idx[OF in_extents_zero[OF False]] in_extents_not_0 by blast
    then show ?thesis
      using ok pitched_mono[OF _ le''] off_last_add[OF nz le', of "pitches_of sp"] origin[OF False] len
      unfolding span_ok_def p by (simp add: sp')
  qed
  have "span_ptr sp' i = span_ptr sp (vec_add os i) \<and> in_extents (vec_add os i) (sp_extent sp)" if i: "in_extents i es" for i
  proof -
    have "span_ptr sp' i = span_ptr sp os + off (pitches_of sp) (map unat i)" using span_ptr_off[OF ok', of i] i p by (simp add: sp')
    also have "\<dots> = sp_ptr sp + off (pitches_of sp) (map2 (+) (map unat os) (map unat i))"
      using origin[OF in_extents_not_0[OF i]] off_add[of "map unat os" "map unat i"] len i by (simp add: list_all2_lengthD)
    also have "\<dots> = span_ptr sp (vec_add os i)" using span_ptr_off[OF ok] idx[OF i] by simp
    finally show ?thesis using idx[OF i] by simp
  qed
  then show ?thesis using ok' sp' by simp
qed

end
