(* ===== verification/Memcpy.thy ===== *)
theory Memcpy
  imports Span
begin

text \<open>
  Copying and setting memory in a host queue (\<^verbatim>\<open>internal::Memcpy::Op\<close>, \<^verbatim>\<open>internal::Memset::Op\<close> and the
  device-global copies in \<^verbatim>\<open>api/host/Queue.hpp\<close>): the effect the submitted task has on the memory. The
  copy goes row by row; \<open>None\<close> is undefined behaviour of \<^verbatim>\<open>std::memcpy\<close>, an access outside the memory or an
  overlap.
\<close>

section \<open>The standard library\<close>

type_synonym memory = "8 word list"

definition seg_write :: "nat \<Rightarrow> 'b list \<Rightarrow> 'b list \<Rightarrow> 'b list" where
  "seg_write d xs m = take d m @ xs @ drop (d + length xs) m"

definition std_memcpy :: "nat \<Rightarrow> nat \<Rightarrow> nat \<Rightarrow> memory \<Rightarrow> memory option" where
  "std_memcpy dst src n m =
     (if n = 0 then Some m
      else if dst + n \<le> length m \<and> src + n \<le> length m \<and> (dst + n \<le> src \<or> src + n \<le> dst)
      then Some (seg_write dst (take n (drop src m)) m) else None)"

definition std_memset :: "nat \<Rightarrow> 8 word \<Rightarrow> nat \<Rightarrow> memory \<Rightarrow> memory option" where
  "std_memset dst v n m =
     (if n = 0 then Some m else if dst + n \<le> length m then Some (seg_write dst (replicate n v) m) else None)"

section \<open>The tasks of the queue\<close>

text \<open>Sizes and offsets are computed in \<^verbatim>\<open>size_t\<close>, 64 bits wide.\<close>

definition rowOffset :: "u64 vec \<Rightarrow> nat vec \<Rightarrow> nat" where
  "rowOffset pitches idx = unat (vec_sum (vec_mul (map of_nat idx) pitches))"

definition queue_memcpy :: "'a::len word span \<Rightarrow> 'b::len word span \<Rightarrow> 'c::len word vec \<Rightarrow> memory \<Rightarrow> memory option" where
  "queue_memcpy dest source extents m =
     (let extentMd = vec_pCast ucast extents :: u64 vec in
      if vec_product extentMd = 0 then Some m
      else if length extents = 1
      then std_memcpy (sp_ptr dest) (sp_ptr source) (unat (vec_x extentMd * of_nat (sp_sizeof dest))) m
      else
        let destPitchBytesWithoutColumn = vec_pCast ucast (vec_eraseBack (span_getPitches dest));
            sourcePitchBytesWithoutColumn = vec_pCast ucast (vec_eraseBack (span_getPitches source))
        in ndLoopIncIdx (map unat (vec_eraseBack extentMd))
             (\<lambda>idx m. Option.bind m (std_memcpy (sp_ptr dest + rowOffset destPitchBytesWithoutColumn idx)
                (sp_ptr source + rowOffset sourcePitchBytesWithoutColumn idx)
                (unat (vec_back extentMd * of_nat (sp_sizeof dest)))))
             (Some m))"

definition queue_memset :: "'a::len word span \<Rightarrow> 8 word \<Rightarrow> 'c::len word vec \<Rightarrow> memory \<Rightarrow> memory option" where
  "queue_memset dest byteValue extents m =
     (let extentMd = vec_pCast ucast extents :: u64 vec in
      if vec_product extentMd = 0 then Some m
      else if length extents = 1
      then std_memset (sp_ptr dest) byteValue (unat (vec_x extentMd * of_nat (sp_sizeof dest))) m
      else
        let destPitchBytesWithoutColumn = vec_pCast ucast (vec_eraseBack (span_getPitches dest))
        in ndLoopIncIdx (map unat (vec_eraseBack extentMd))
             (\<lambda>idx m. Option.bind m (std_memset (sp_ptr dest + rowOffset destPitchBytesWithoutColumn idx)
                byteValue (unat (vec_back extentMd * of_nat (sp_sizeof dest)))))
             (Some m))"

text \<open>A device-global variable is copied as one object.\<close>

definition memcpyDeviceGlobal :: "nat \<Rightarrow> nat \<Rightarrow> nat \<Rightarrow> memory \<Rightarrow> memory option" where
  "memcpyDeviceGlobal destPtr srcPtr sizeofT m = std_memcpy destPtr srcPtr sizeofT m"

section \<open>Writing disjoint segments\<close>

abbreviation seg :: "nat \<Rightarrow> nat \<Rightarrow> nat set" where
  "seg d n \<equiv> {d ..< d + n}"

lemma seg_write_nth:
  assumes "d + length xs \<le> length m"
  shows "length (seg_write d xs m) = length m"
    "a < length m \<Longrightarrow> seg_write d xs m ! a = (if a \<in> seg d (length xs) then xs ! (a - d) else m ! a)"
  using assms by (auto simp: seg_write_def nth_append)

text \<open>
  Steps that each write a segment, in any order of distinct steps: if a step's values only depend on what
  no step writes, every segment holds its values in the end and nothing else has changed.
\<close>

lemma fold_opt_segments:
  assumes dist: "distinct is" and len: "\<And>i. i \<in> set is \<Longrightarrow> length (v i) = n"
    and disj: "\<And>i j. i \<in> set is \<Longrightarrow> j \<in> set is \<Longrightarrow> i \<noteq> j \<Longrightarrow> seg (d i) n \<inter> seg (d j) n = {}"
    and inside: "\<And>i. i \<in> set is \<Longrightarrow> d i + n \<le> length m"
    and step: "\<And>i m'. i \<in> set is \<Longrightarrow> length m' = length m
      \<Longrightarrow> (\<And>a. a < length m \<Longrightarrow> \<forall>j \<in> set is. a \<notin> seg (d j) n \<Longrightarrow> m' ! a = m ! a)
      \<Longrightarrow> g i m' = Some (seg_write (d i) (v i) m')"
  shows "\<exists>m'. fold_opt g is m = Some m' \<and> length m' = length m
    \<and> (\<forall>i \<in> set is. \<forall>k < n. m' ! (d i + k) = v i ! k)
    \<and> (\<forall>a < length m. (\<forall>i \<in> set is. a \<notin> seg (d i) n) \<longrightarrow> m' ! a = m ! a)"
proof -
  define P where "P k m' \<longleftrightarrow> length m' = length m \<and> (\<forall>i \<in> set (take k is). \<forall>c < n. m' ! (d i + c) = v i ! c)
    \<and> (\<forall>a < length m. (\<forall>i \<in> set is. a \<notin> seg (d i) n) \<longrightarrow> m' ! a = m ! a)" for k m'
  have "\<exists>m'. fold_opt g is m = Some m' \<and> P (length is) m'"
  proof (rule fold_opt_Some)
    fix k m' assume k: "k < length is" and P: "P k m'"
    let ?i = "is ! k"
    have i: "?i \<in> set is" using k by simp
    have ml: "length m' = length m" using P by (simp add: P_def)
    have g: "g ?i m' = Some (seg_write (d ?i) (v ?i) m')" using step[OF i] P by (auto simp: P_def)
    note w = seg_write_nth[of "d ?i" "v ?i" m', unfolded len[OF i] ml, OF inside[OF i]]
    have "seg_write (d ?i) (v ?i) m' ! (d j + c) = v j ! c" if j: "j \<in> set (take (Suc k) is)" "c < n" for j c
    proof (cases "j = ?i")
      case True
      then show ?thesis using w(2)[of "d ?i + c"] inside[OF i] j(2) by simp
    next
      case False
      then have jk: "j \<in> set (take k is)" using j(1) k by (simp add: take_Suc_conv_app_nth)
      then have js: "j \<in> set is" by (meson in_set_takeD)
      have "d j + c \<notin> seg (d ?i) n" using disj[OF i js] False j(2) by (auto simp: disjoint_iff)
      then have "seg_write (d ?i) (v ?i) m' ! (d j + c) = m' ! (d j + c)"
        using w(2)[of "d j + c"] inside[OF js] j(2) by auto
      then show ?thesis using j(2) P jk by (simp add: P_def)
    qed
    then show "\<exists>m''. g ?i m' = Some m'' \<and> P (Suc k) m''" using g w i P by (auto simp: P_def)
  qed (simp add: P_def)
  then show ?thesis by (simp add: P_def)
qed

lemma fold_bind: "fold (\<lambda>x m. Option.bind m (g x)) xs (Some m) = fold_opt g xs m"
proof -
  have "fold (\<lambda>x m. Option.bind m (g x)) xs None = None" for xs by (induction xs) simp_all
  then show ?thesis by (induction xs arbitrary: m) (auto split: bind_split)
qed

lemma ndLoop_fold_opt: "es \<noteq> [] \<Longrightarrow> ndLoopIncIdx es (\<lambda>idx m. Option.bind m (g idx)) (Some m) = fold_opt g (all_idx es) m"
  by (simp add: ndLoopIncIdx_def ndLoop_extent_index vec_fill_replicate fold_bind)

section \<open>Rows\<close>

text \<open>The bytes of a row of a span are those of its elements.\<close>

lemma row_elements:
  "0 < s \<Longrightarrow> a \<in> seg b (e * s) \<longleftrightarrow> (\<exists>c < e. a \<in> seg (b + s * c) s)"
proof
  assume s: "0 < s" and a: "a \<in> seg b (e * s)"
  let ?c = "(a - b) div s"
  have "?c < e" using a s by (simp add: less_mult_imp_div_less algebra_simps less_diff_conv2)
  moreover have "s * ?c \<le> a - b" "a - b < s + s * ?c" using s by (simp_all add: dividend_less_times_div)
  then have "a \<in> seg (b + s * ?c) s" using a unfolding atLeastLessThan_iff by linarith
  ultimately show "\<exists>c < e. a \<in> seg (b + s * c) s" by blast
next
  assume "0 < s" "\<exists>c < e. a \<in> seg (b + s * c) s"
  then obtain c where c: "c < e" "b + s * c \<le> a" "a < b + s * c + s" by auto
  have "s * c + s \<le> e * s" using mult_le_mono1[of "Suc c" e s] c(1) by (simp add: algebra_simps)
  then show "a \<in> seg b (e * s)" using c by simp
qed

lemma unat_ucast_u64: "LENGTH('a::len) \<le> 64 \<Longrightarrow> unat (ucast (x :: 'a word) :: u64) = unat x"
proof -
  assume "LENGTH('a) \<le> 64"
  then have "(2 :: nat) ^ LENGTH('a) \<le> 2 ^ 64" by (intro power_increasing) simp_all
  moreover have "unat x < 2 ^ LENGTH('a)" by simp
  ultimately have "unat x < 2 ^ 64" by (rule order_less_le_trans[rotated])
  then show ?thesis by (simp add: unsigned_ucast_eq take_bit_nat_eq_self)
qed

text \<open>
  What the queue needs of a span to work on its first \<open>E\<close> elements row by row: the elements lie inside a
  memory that a 64-bit address reaches.
\<close>

definition covers :: "nat \<Rightarrow> 'a::len word span \<Rightarrow> nat list \<Rightarrow> bool" where
  "covers mlen sp E \<longleftrightarrow> span_ok mlen sp \<and> LENGTH('a) \<le> 64 \<and> mlen < 2 ^ 64 \<and> list_all2 (\<le>) E (extents_of sp)"

text \<open>The address of the element at a natural index.\<close>

definition addr :: "'a::len word span \<Rightarrow> nat list \<Rightarrow> nat" where
  "addr sp idx = span_ptr sp (map word_of_nat idx)"

lemma covers_idx:
  assumes "covers mlen sp E" "in_extents idx E"
  shows "in_extents (map word_of_nat idx) (sp_extent sp)" "map unat (map word_of_nat idx :: 'a::len word vec) = idx"
    "addr (sp :: 'a word span) idx = sp_ptr sp + off (pitches_of sp) idx"
    "addr sp idx + sp_sizeof sp \<le> mlen"
proof -
  have c: "span_ok mlen sp" "list_all2 (\<le>) E (extents_of sp)" using assms(1) by (simp_all add: covers_def)
  have lt: "i < 2 ^ LENGTH('a)" if i: "i \<in> set idx" for i
  proof -
    obtain k where k: "k < length idx" "idx ! k = i" using i by (auto simp: in_set_conv_nth)
    have "length idx = length E" "length E = length (sp_extent sp)" using assms(2) c(2) by (auto simp: list_all2_lengthD)
    then have "i < unat (sp_extent sp ! k)"
      using k assms(2) c(2) by (auto simp: list_all2_conv_all_nth intro: less_le_trans)
    also have "unat (sp_extent sp ! k) < 2 ^ LENGTH('a)" by simp
    finally show ?thesis .
  qed
  show u: "map unat (map word_of_nat idx :: 'a::len word vec) = idx"
    using lt by (simp add: map_idI unat_of_nat)
  have "in_extents idx (extents_of sp)" using in_extents_sub[OF c(2) assms(2)] .
  then show i: "in_extents (map word_of_nat idx) (sp_extent sp)" using in_extents_unat[of "map word_of_nat idx" "sp_extent sp"] u by simp
  show a: "addr sp idx = sp_ptr sp + off (pitches_of sp) idx"
    using span_ptr_off[OF c(1) i] u by (simp add: addr_def)
  show "addr sp idx + sp_sizeof sp \<le> mlen" using span_ok_bound(2)[OF c(1) i] a u by simp
qed

lemma covers_disjoint:
  assumes "covers mlen sp E" "in_extents i E" "in_extents j E" "i \<noteq> j"
  shows "seg (addr sp i) (sp_sizeof sp) \<inter> seg (addr sp j) (sp_sizeof sp) = {}"
proof -
  have "map word_of_nat i \<noteq> (map word_of_nat j :: 'a word vec)"
    using covers_idx(2)[OF assms(1,2)] covers_idx(2)[OF assms(1,3)] assms(4) by metis
  then show ?thesis
    using elem_bytes_disjoint[of mlen sp "map word_of_nat i" "map word_of_nat j"] covers_idx(1)[OF assms(1)] assms(1-3)
    by (simp add: covers_def elem_bytes_def addr_def)
qed

text \<open>Extents split into rows; the row of an index of the outer dimensions starts at its offset.\<close>

definition row_start :: "'a::len word span \<Rightarrow> nat list \<Rightarrow> nat" where
  "row_start sp r = sp_ptr sp + off (map unat (butlast (span_getPitches sp))) r"

lemma pitches_split: "pitches_of sp = map unat (butlast (span_getPitches sp)) @ [unat (of_nat (sp_sizeof sp) :: 'a word)]"
  for sp :: "'a::len word span"
  by (simp add: span_getPitches_split)

lemma row_addr:
  assumes "covers mlen sp (E @ [e])" "in_extents r E" "c < e"
  shows "addr sp (r @ [c]) = row_start sp r + sp_sizeof sp * c"
proof -
  have ok: "span_ok mlen sp" using assms(1) by (simp add: covers_def)
  have i: "in_extents (r @ [c]) (E @ [e])" using assms(2,3) by (simp add: list_all2_appendI)
  have s: "unat (of_nat (sp_sizeof sp) :: 'a word) = sp_sizeof sp"
    using pitched_last[OF span_okD(2)[OF ok]] by (simp add: span_getPitches_split)
  have "length (extents_of sp) = Suc (length E)" using assms(1) by (auto simp: covers_def dest: list_all2_lengthD)
  then have "length (map unat (butlast (span_getPitches sp))) = length r"
    using span_okD(3)[OF ok] assms(2) by (simp add: list_all2_lengthD)
  then show ?thesis
    using covers_idx(3)[OF assms(1) i] off_append[of "map unat (butlast (span_getPitches sp))" r "[sp_sizeof sp]" "[c]"]
    by (simp add: pitches_split s row_start_def)
qed

lemma row_bytes:
  assumes "covers mlen sp (E @ [e])" "in_extents r E"
  shows "a \<in> seg (row_start sp r) (e * sp_sizeof sp) \<longleftrightarrow> (\<exists>c < e. a \<in> seg (addr sp (r @ [c])) (sp_sizeof sp))"
proof -
  have "0 < sp_sizeof sp" using assms(1) span_okD(1) by (auto simp: covers_def)
  then show ?thesis using row_elements row_addr[OF assms] by auto
qed

lemma rows_disjoint:
  assumes "covers mlen sp (E @ [e])" "in_extents r E" "in_extents r' E" "r \<noteq> r'"
  shows "seg (row_start sp r) (e * sp_sizeof sp) \<inter> seg (row_start sp r') (e * sp_sizeof sp) = {}"
proof -
  have "seg (addr sp (r @ [c])) (sp_sizeof sp) \<inter> seg (addr sp (r' @ [c'])) (sp_sizeof sp) = {}" if "c < e" "c' < e" for c c'
    by (rule covers_disjoint[OF assms(1)]) (use assms(2-4) that in \<open>simp_all add: list_all2_appendI\<close>)
  then show ?thesis using row_bytes[OF assms(1,2)] row_bytes[OF assms(1,3)] by (fastforce simp: disjoint_iff)
qed

lemma row_inside:
  assumes "covers mlen sp (E @ [e])" "in_extents r E" "0 < e"
  shows "row_start sp r + e * sp_sizeof sp \<le> mlen"
proof -
  obtain c where c: "e = Suc c" using assms(3) by (cases e) auto
  have i: "in_extents (r @ [c]) (E @ [e])" using assms(2) c by (simp add: list_all2_appendI)
  have "row_start sp r + sp_sizeof sp * c + sp_sizeof sp \<le> mlen"
    using covers_idx(4)[OF assms(1) i] row_addr[OF assms(1,2), of c] c by simp
  then show ?thesis by (simp add: c algebra_simps)
qed

text \<open>The 64-bit offset of the code is the start of the row.\<close>

lemma rowOffset_start:
  assumes "covers mlen sp (E @ [e])" "in_extents r E" "0 < e" "E \<noteq> []"
  shows "sp_ptr sp + rowOffset (vec_pCast ucast (vec_eraseBack (span_getPitches sp))) r = row_start sp r"
proof -
  let ?p = "vec_pCast ucast (vec_eraseBack (span_getPitches sp)) :: u64 vec"
  have w: "LENGTH('a) \<le> 64" "mlen < 2 ^ 64" using assms(1) by (simp_all add: covers_def)
  have len: "length ?p = length r"
    using assms(1,2) span_okD(3)[of mlen sp] by (auto simp: covers_def vec_pCast_def vec_eraseBack_butlast dest!: list_all2_lengthD)
  have p: "map unat ?p = map unat (butlast (span_getPitches sp))"
    by (rule nth_equalityI) (simp_all add: vec_pCast_def vec_eraseBack_butlast unat_ucast_u64[OF w(1)])
  have lt: "off (map unat ?p) r < 2 ^ 64" using row_inside[OF assms(1-3)] w(2) by (simp add: row_start_def p)
  have "i < 2 ^ 64" if i: "i \<in> set r" for i
  proof -
    obtain k where k: "k < length r" "r ! k = i" using i by (auto simp: in_set_conv_nth)
    have "list_all2 (\<le>) (E @ [e]) (extents_of sp)" using assms(1) by (simp add: covers_def)
    then have l: "length E < length (sp_extent sp)" and "\<forall>j < length (E @ [e]). (E @ [e]) ! j \<le> extents_of sp ! j"
      unfolding list_all2_conv_all_nth by auto
    then have "\<forall>j < length E. E ! j \<le> unat (sp_extent sp ! j)"
      by (metis butlast_snoc length_append_singleton less_SucI nth_butlast nth_map order_less_trans)
    moreover have "r ! k < E ! k" "k < length E" using assms(2) k(1) by (simp_all add: list_all2_conv_all_nth)
    ultimately have "i < unat (sp_extent sp ! k)" using k(2) by fastforce
    also have "\<dots> < 2 ^ LENGTH('a)" by simp
    also have "\<dots> \<le> 2 ^ 64" using w(1) by (intro power_increasing) simp_all
    finally show ?thesis .
  qed
  then have r: "map unat (map of_nat r :: u64 vec) = r" by (simp add: map_idI unat_of_nat)
  have "r \<noteq> []" using assms(2,4) by auto
  then have "rowOffset ?p r = unat (sum_list (map2 (*) ?p (map of_nat r)) :: u64)"
    using len by (simp add: rowOffset_def vec_sum_sum_list vec_op_def map2_conv_map_nth mult.commute)
  also have "\<dots> = off (map unat ?p) r"
    using word_off[of ?p "map of_nat r"] len lt r by (simp add: unat_of_nat)
  finally show ?thesis by (simp add: row_start_def p)
qed

section \<open>Copying and setting are element-wise\<close>

lemma off_Nil [simp]: "off ps [] = 0"
  by (cases ps) simp_all

lemma fold_opt_cong: "(\<And>x s. x \<in> set xs \<Longrightarrow> f x s = g x s) \<Longrightarrow> fold_opt f xs s = fold_opt g xs s"
proof (induction xs arbitrary: s)
  case (Cons x xs)
  then show ?case by (cases "g x s") auto
qed simp

lemma set_all_idx_iff: "r \<in> set (all_idx E) \<longleftrightarrow> in_extents r E"
  by (simp add: set_all_idx)

lemma covers_room:
  assumes "covers mlen sp E" "0 \<notin> set E"
  shows "sp_sizeof sp * prod_list E \<le> mlen"
proof -
  have c: "span_ok mlen sp" "list_all2 (\<le>) E (extents_of sp)" using assms(1) by (simp_all add: covers_def)
  have "pitched (sp_sizeof sp) (pitches_of sp) E" using pitched_mono[OF span_okD(2)[OF c(1)] c(2)] .
  then have "sp_sizeof sp * prod_list E \<le> off (pitches_of sp) (last_idx E) + sp_sizeof sp" using prod_list_extents assms(2) by blast
  moreover have "in_extents (last_idx E) E" using assms(2) by (induction E) auto
  ultimately show ?thesis using covers_idx(3,4)[OF assms(1), of "last_idx E"] by linarith
qed

text \<open>The sizes the code computes in 64 bits.\<close>

lemma extent_words:
  fixes extents :: "'c::len word vec"
  assumes cov: "covers mlen sp (map unat extents)" and nz: "0 \<notin> set extents" "extents \<noteq> []" and c: "LENGTH('c) \<le> 64"
  defines "extentMd \<equiv> vec_pCast ucast extents :: u64 vec"
  shows "vec_product extentMd \<noteq> 0" "length extentMd = length extents"
    "unat (vec_back extentMd * of_nat (sp_sizeof sp)) = last (map unat extents) * sp_sizeof sp"
    "map unat (vec_eraseBack extentMd) = butlast (map unat extents)"
proof -
  let ?s = "sp_sizeof sp" and ?E = "map unat extents"
  have s: "0 < ?s" and m: "mlen < 2 ^ 64" using cov span_okD(1) by (auto simp: covers_def)
  have u: "map unat extentMd = ?E"
    by (rule nth_equalityI) (simp_all add: extentMd_def vec_pCast_def unat_ucast_u64[OF c])
  show len: "length extentMd = length extents" by (simp add: extentMd_def vec_pCast_def)
  have nzE: "0 \<notin> set ?E" using nz by (auto simp: unat_eq_zero)
  have room: "?s * prod_list ?E < 2 ^ 64" using covers_room[OF cov nzE] m by simp
  have "prod_list ?E \<le> ?s * prod_list ?E" using s by (cases ?s) auto
  then have "prod_list ?E < 2 ^ 64" using room by (rule order_le_less_trans)
  then have lt: "prod_list ?E < 2 ^ LENGTH(64)" by simp
  have pos: "0 < prod_list ?E" using nzE by (intro prod_list_pos_nat) (auto intro: Suc_leI)
  have "\<forall>w \<in> set extentMd. w \<noteq> 0" using u nzE by (metis image_eqI list.set_map unsigned_0)
  then have "unat (prod_list extentMd) = prod_list ?E"
    using unat_prod_list[of extentMd] lt unfolding u by blast
  then show "vec_product extentMd \<noteq> 0"
    using pos len nz(2) vec_product_prod_list[of extentMd] by fastforce
  have le: "last ?E \<le> prod_list ?E"
  proof -
    have "prod_list ?E = prod_list (butlast ?E) * last ?E" using nz(2)
      by (metis append_butlast_last_id map_is_Nil_conv prod_list.append prod_list.Cons prod_list.Nil mult_1_right)
    then show ?thesis using pos by (cases "prod_list (butlast ?E)") auto
  qed
  have b: "unat (vec_back extentMd) = last ?E" using u nz(2) len
    by (metis last_map length_0_conv vec_back_last)
  have "?s < 2 ^ 64" using room pos by (cases "prod_list ?E") auto
  then have us: "unat (of_nat ?s :: u64) = ?s" by (simp add: unat_of_nat)
  have "last ?E * ?s \<le> ?s * prod_list ?E" using mult_le_mono1[OF le, of ?s] by (simp only: mult.commute)
  then have "last ?E * ?s < 2 ^ 64" using room by (rule order_le_less_trans)
  then show "unat (vec_back extentMd * of_nat ?s) = last ?E * ?s"
    using unat_mult_bound[of "vec_back extentMd" "of_nat ?s"] b us by simp
  show "map unat (vec_eraseBack extentMd) = butlast ?E" using u by (simp add: vec_eraseBack_butlast map_butlast)
qed

lemma vec_product_zero: "0 \<in> set (extents :: 'c::len word vec) \<Longrightarrow> vec_product (vec_pCast ucast extents :: u64 vec) = 0"
proof -
  assume "0 \<in> set extents"
  then have "0 \<in> set (vec_pCast ucast extents :: u64 vec)" by (force simp: vec_pCast_def vec_generate_def in_set_conv_nth)
  moreover from this have "(vec_pCast ucast extents :: u64 vec) \<noteq> []" by auto
  moreover have "0 \<in> set xs \<Longrightarrow> prod_list xs = 0" for xs :: "u64 vec" by (induction xs) auto
  ultimately show ?thesis by (simp add: vec_product_prod_list)
qed

text \<open>The task is a loop over the rows.\<close>

lemma queue_memcpy_rows:
  fixes dest :: "'a::len word span" and source :: "'b::len word span" and extents :: "'c::len word vec"
  assumes c: "covers mlen dest (map unat extents)" "covers mlen source (map unat extents)" "LENGTH('c) \<le> 64"
    and nz: "0 \<notin> set extents" "extents \<noteq> []"
  shows "queue_memcpy dest source extents m
    = fold_opt (\<lambda>r. std_memcpy (row_start dest r) (row_start source r) (last (map unat extents) * sp_sizeof dest))
        (all_idx (butlast (map unat extents))) m"
proof -
  note w = extent_words[OF c(1) nz c(3)]
  let ?E = "butlast (map unat extents)" and ?e = "last (map unat extents)"
  have E: "map unat extents = ?E @ [?e]" using nz(2) by simp
  have e: "0 < ?e" using nz by (simp add: last_map unat_gt_0) (metis last_in_set)
  show ?thesis
  proof (cases "length extents = 1")
    case True
    then have E0: "?E = []" by (cases extents) auto
    have x: "vec_x (vec_pCast ucast extents :: u64 vec) = vec_back (vec_pCast ucast extents)" by (simp add: vec_x_def vec_back_def)
    show ?thesis using w True unfolding E0 queue_memcpy_def Let_def x
      by (simp add: fold_opt_single row_start_def del: fold_opt.simps)
  next
    case False
    then have "?E \<noteq> []" using nz(2) by (cases extents rule: rev_cases) auto
    have rows: "sp_ptr sp + rowOffset (vec_pCast ucast (vec_eraseBack (span_getPitches sp))) r = row_start sp r"
      if "covers mlen sp (map unat extents)" "r \<in> set (all_idx ?E)" for r and sp :: "'z::len word span"
      using rowOffset_start[of mlen sp ?E ?e r] that E e \<open>?E \<noteq> []\<close> by (simp add: set_all_idx)
    have "queue_memcpy dest source extents m
      = fold_opt (\<lambda>idx. std_memcpy (sp_ptr dest + rowOffset (vec_pCast ucast (vec_eraseBack (span_getPitches dest))) idx)
                (sp_ptr source + rowOffset (vec_pCast ucast (vec_eraseBack (span_getPitches source))) idx)
                (?e * sp_sizeof dest)) (all_idx ?E) m"
      using w(1) False unfolding queue_memcpy_def Let_def w(3,4) by (simp add: ndLoop_fold_opt[OF \<open>?E \<noteq> []\<close>])
    also have "\<dots> = fold_opt (\<lambda>r. std_memcpy (row_start dest r) (row_start source r) (?e * sp_sizeof dest)) (all_idx ?E) m"
      by (rule fold_opt_cong) (simp add: rows[OF c(1)] rows[OF c(2)])
    finally show ?thesis .
  qed
qed

text \<open>What holds after the rows are written with the values \<open>v\<close>.\<close>

definition elems_written :: "'a::len word span \<Rightarrow> nat list \<Rightarrow> (nat list \<Rightarrow> nat \<Rightarrow> 8 word) \<Rightarrow> memory \<Rightarrow> memory \<Rightarrow> bool" where
  "elems_written sp E v m m' \<longleftrightarrow> length m' = length m
     \<and> (\<forall>idx. in_extents idx E \<longrightarrow> (\<forall>k < sp_sizeof sp. m' ! (addr sp idx + k) = v idx k))
     \<and> (\<forall>a < length m. (\<forall>idx. in_extents idx E \<longrightarrow> a \<notin> seg (addr sp idx) (sp_sizeof sp)) \<longrightarrow> m' ! a = m ! a)"

lemma in_extents_snocE:
  assumes "in_extents idx (E @ [e])"
  obtains r c where "idx = r @ [c]" "in_extents r E" "c < e"
  using assms by (auto simp: list_all2_append2 list_all2_Cons2)

lemma fold_rows:
  fixes sp :: "'a::len word span"
  assumes cov: "covers (length m) sp (E @ [e])" and e: "0 < e"
    and len: "\<And>r. in_extents r E \<Longrightarrow> length (v r) = e * sp_sizeof sp"
    and step: "\<And>r m'. in_extents r E \<Longrightarrow> length m' = length m
      \<Longrightarrow> (\<And>a. a < length m \<Longrightarrow> (\<forall>idx. in_extents idx (E @ [e]) \<longrightarrow> a \<notin> seg (addr sp idx) (sp_sizeof sp)) \<Longrightarrow> m' ! a = m ! a)
      \<Longrightarrow> g r m' = Some (seg_write (row_start sp r) (v r) m')"
  shows "\<exists>m'. fold_opt g (all_idx E) m = Some m'
    \<and> elems_written sp (E @ [e]) (\<lambda>idx k. v (butlast idx) ! (sp_sizeof sp * last idx + k)) m m'"
proof -
  let ?n = "e * sp_sizeof sp"
  have row: "a \<in> seg (row_start sp r) ?n \<longleftrightarrow> (\<exists>c < e. a \<in> seg (addr sp (r @ [c])) (sp_sizeof sp))" if "in_extents r E" for a r
    by (rule row_bytes[OF cov that])
  have out: "(\<forall>r \<in> set (all_idx E). a \<notin> seg (row_start sp r) ?n)
      \<longleftrightarrow> (\<forall>idx. in_extents idx (E @ [e]) \<longrightarrow> a \<notin> seg (addr sp idx) (sp_sizeof sp))" for a
  proof
    assume "\<forall>r \<in> set (all_idx E). a \<notin> seg (row_start sp r) ?n"
    then show "\<forall>idx. in_extents idx (E @ [e]) \<longrightarrow> a \<notin> seg (addr sp idx) (sp_sizeof sp)"
      using row by (metis in_extents_snocE set_all_idx_iff)
  next
    assume h: "\<forall>idx. in_extents idx (E @ [e]) \<longrightarrow> a \<notin> seg (addr sp idx) (sp_sizeof sp)"
    have "in_extents (r @ [c]) (E @ [e])" if "in_extents r E" "c < e" for r c using that by (simp add: list_all2_appendI)
    then have "\<not> (\<exists>c < e. a \<in> seg (addr sp (r @ [c])) (sp_sizeof sp))" if "in_extents r E" for r using h that by blast
    then show "\<forall>r \<in> set (all_idx E). a \<notin> seg (row_start sp r) ?n" using row by (metis set_all_idx_iff)
  qed
  have "\<exists>m'. fold_opt g (all_idx E) m = Some m' \<and> length m' = length m
    \<and> (\<forall>r \<in> set (all_idx E). \<forall>k < ?n. m' ! (row_start sp r + k) = v r ! k)
    \<and> (\<forall>a < length m. (\<forall>r \<in> set (all_idx E). a \<notin> seg (row_start sp r) ?n) \<longrightarrow> m' ! a = m ! a)"
  proof (rule fold_opt_segments)
    fix r m' assume "r \<in> set (all_idx E)" "length m' = length m"
      "\<And>a. a < length m \<Longrightarrow> \<forall>j \<in> set (all_idx E). a \<notin> seg (row_start sp j) ?n \<Longrightarrow> m' ! a = m ! a"
    then show "g r m' = Some (seg_write (row_start sp r) (v r) m')" using step out by (simp add: set_all_idx_iff)
  qed (use rows_disjoint[OF cov] row_inside[OF cov _ e] len in \<open>simp_all add: set_all_idx_iff distinct_all_idx\<close>)
  then obtain m' where m': "fold_opt g (all_idx E) m = Some m'" "length m' = length m"
    "\<forall>r \<in> set (all_idx E). \<forall>k < ?n. m' ! (row_start sp r + k) = v r ! k"
    "\<forall>a < length m. (\<forall>idx. in_extents idx (E @ [e]) \<longrightarrow> a \<notin> seg (addr sp idx) (sp_sizeof sp)) \<longrightarrow> m' ! a = m ! a"
    unfolding out by (elim exE conjE)
  have "m' ! (addr sp idx + k) = v (butlast idx) ! (sp_sizeof sp * last idx + k)" if idx: "in_extents idx (E @ [e])" and k: "k < sp_sizeof sp" for idx k
  proof -
    obtain r c where r: "idx = r @ [c]" "in_extents r E" "c < e" using idx by (rule in_extents_snocE)
    have "sp_sizeof sp * c + k < ?n"
      using mult_le_mono1[of "Suc c" e "sp_sizeof sp"] r(3) k by (simp add: algebra_simps)
    then have "m' ! (row_start sp r + (sp_sizeof sp * c + k)) = v r ! (sp_sizeof sp * c + k)"
      using m'(3) r(2) by (simp add: set_all_idx_iff)
    then show ?thesis using row_addr[OF cov r(2,3)] by (simp add: r(1) add.assoc)
  qed
  then have "elems_written sp (E @ [e]) (\<lambda>idx k. v (butlast idx) ! (sp_sizeof sp * last idx + k)) m m'"
    unfolding elems_written_def using m'(2,4) by blast
  then show ?thesis using m'(1) by blast
qed

lemma extents_split: "extents \<noteq> [] \<Longrightarrow> map unat extents = butlast (map unat extents) @ [last (map unat extents)]"
  by simp

lemma last_extent_pos: "0 \<notin> set extents \<Longrightarrow> extents \<noteq> [] \<Longrightarrow> 0 < last (map unat (extents :: 'c::len word vec))"
  by (metis last_map last_in_set unat_eq_zero gr0I)

lemma covers_nonempty: "covers mlen sp (map unat extents) \<Longrightarrow> extents \<noteq> []"
  using span_okD(4) by (fastforce simp: covers_def)

lemma elems_written_none: "0 \<in> set extents \<Longrightarrow> elems_written sp (map unat (extents :: 'c::len word vec)) v m m"
proof -
  assume "0 \<in> set extents"
  then have "\<not> in_extents idx (map unat extents)" for idx
    using in_extents_not_0[of "map word_of_nat idx" extents] by (auto simp: list_all2_conv_all_nth in_set_conv_nth)
  then show ?thesis by (simp add: elems_written_def)
qed

text \<open>
  Property C11. Copying between two spans that do not overlap: the task ends without undefined
  behaviour for every number of dimensions and all pitches. Afterwards each element of the copied extents
  of the destination has the bytes of the source element at the same index, and no other byte of the memory,
  in particular none of the padding between rows, has changed.
\<close>

theorem memcpy_correct:
  fixes dest :: "'a::len word span" and source :: "'b::len word span" and extents :: "'c::len word vec"
  assumes "covers (length m) dest (map unat extents)" "covers (length m) source (map unat extents)" "LENGTH('c) \<le> 64"
    and "sp_sizeof source = sp_sizeof dest"
    and "\<forall>i j. in_extents i (map unat extents) \<and> in_extents j (map unat extents)
           \<longrightarrow> seg (addr dest i) (sp_sizeof dest) \<inter> seg (addr source j) (sp_sizeof source) = {}"
  shows "\<exists>m'. queue_memcpy dest source extents m = Some m'
    \<and> elems_written dest (map unat extents) (\<lambda>idx k. m ! (addr source idx + k)) m m'"
proof (cases "0 \<in> set extents")
  case True
  then show ?thesis using elems_written_none by (auto simp: queue_memcpy_def Let_def vec_product_zero)
next
  case False
  let ?E = "butlast (map unat extents)" and ?e = "last (map unat extents)" and ?s = "sp_sizeof dest"
  have ne: "extents \<noteq> []" using covers_nonempty assms(1) by blast
  note split = extents_split[OF ne]
  have e: "0 < ?e" using last_extent_pos[OF False ne] .
  have c: "covers (length m) dest (?E @ [?e])" "covers (length m) source (?E @ [?e])" using assms(1,2) split by simp_all
  have s: "0 < ?s" using assms(1) span_okD(1) by (auto simp: covers_def)
  let ?n = "?e * ?s"
  have n: "0 < ?n" using e s by simp
  let ?v = "\<lambda>r. take ?n (drop (row_start source r) m)"
  have src_in: "row_start source r + ?n \<le> length m" if "in_extents r ?E" for r
    using row_inside[OF c(2) that e] assms(4) by simp
  have step: "std_memcpy (row_start dest r) (row_start source r) ?n m' = Some (seg_write (row_start dest r) (?v r) m')"
    if r: "in_extents r ?E" and l: "length m' = length m"
      and same: "\<And>a. a < length m \<Longrightarrow> \<forall>idx. in_extents idx (?E @ [?e]) \<longrightarrow> a \<notin> seg (addr dest idx) ?s \<Longrightarrow> m' ! a = m ! a" for r m'
  proof -
    have foreign: "a \<notin> seg (addr dest idx) ?s" if a: "a \<in> seg (row_start source r) ?n" and idx: "in_extents idx (?E @ [?e])" for a idx
    proof -
      obtain k where k: "k < ?e" "a \<in> seg (addr source (r @ [k])) (sp_sizeof source)"
        using row_bytes[OF c(2) r] a assms(4) by auto
      have "in_extents (r @ [k]) (?E @ [?e])" using r k(1) by (simp add: list_all2_appendI)
      then show ?thesis using assms(5)[folded split] k(2) idx split by (metis disjoint_iff)
    qed
    have "take ?n (drop (row_start source r) m') = ?v r"
      using same foreign src_in[OF r] l by (intro nth_equalityI) auto
    moreover have "row_start dest r + ?n \<le> row_start source r \<or> row_start source r + ?n \<le> row_start dest r"
    proof (rule ccontr)
      assume "\<not> ?thesis"
      then obtain p where p: "p \<in> seg (row_start source r) ?n" "p \<in> seg (row_start dest r) ?n"
        using n by (intro that[of "max (row_start dest r) (row_start source r)"]) auto
      obtain k where k: "k < ?e" "p \<in> seg (addr dest (r @ [k])) ?s" using row_bytes[OF c(1) r] p(2) by blast
      have "in_extents (r @ [k]) (?E @ [?e])" using r k(1) by (simp add: list_all2_appendI)
      then show False using foreign[OF p(1)] k(2) by blast
    qed
    ultimately show ?thesis
      using row_inside[OF c(1) r e] src_in[OF r] l n by (simp add: std_memcpy_def)
  qed
  have len: "length (?v r) = ?n" if "in_extents r ?E" for r using src_in[OF that] by simp
  have "\<exists>m'. fold_opt (\<lambda>r. std_memcpy (row_start dest r) (row_start source r) ?n) (all_idx ?E) m = Some m'
    \<and> elems_written dest (?E @ [?e]) (\<lambda>idx k. ?v (butlast idx) ! (?s * last idx + k)) m m'"
  proof (rule fold_rows[where v = ?v, OF c(1) e len])
    fix r m' assume a: "in_extents r ?E" "length m' = length m"
      "\<And>a. a < length m \<Longrightarrow> \<forall>idx. in_extents idx (?E @ [?e]) \<longrightarrow> a \<notin> seg (addr dest idx) ?s \<Longrightarrow> m' ! a = m ! a"
    show "std_memcpy (row_start dest r) (row_start source r) ?n m' = Some (seg_write (row_start dest r) (?v r) m')"
      by (rule step[OF a(1,2)]) (rule a(3))
  qed
  then obtain m' where m': "fold_opt (\<lambda>r. std_memcpy (row_start dest r) (row_start source r) ?n) (all_idx ?E) m = Some m'"
    "elems_written dest (?E @ [?e]) (\<lambda>idx k. ?v (butlast idx) ! (?s * last idx + k)) m m'" by (elim exE conjE)
  have "?v (butlast idx) ! (?s * last idx + k) = m ! (addr source idx + k)" if idx: "in_extents idx (?E @ [?e])" and k: "k < ?s" for idx k
  proof -
    obtain r x where r: "idx = r @ [x]" "in_extents r ?E" "x < ?e" using idx by (rule in_extents_snocE)
    have "?s * x + k < ?n" using mult_le_mono1[of "Suc x" ?e ?s] r(3) k by (simp add: algebra_simps)
    then show ?thesis using row_addr[OF c(2) r(2,3)] src_in[OF r(2)] assms(4) by (simp add: r(1) add.assoc)
  qed
  then have "elems_written dest (?E @ [?e]) (\<lambda>idx k. m ! (addr source idx + k)) m m'"
    using m'(2) unfolding elems_written_def by metis
  then show ?thesis
    using m'(1) queue_memcpy_rows[OF assms(1-3) False ne] split by auto
qed

text \<open>A 2 by 2 block is copied from a dense span to one whose rows are three bytes apart.\<close>

definition padded_span :: "32 word span" where
  "padded_span = \<lparr>sp_ptr = 0, sp_sizeof = 1, sp_extent = [2, 2], sp_pitch = [3], sp_align = None\<rparr>"

definition dense_span :: "64 word span" where
  "dense_span = \<lparr>sp_ptr = 8, sp_sizeof = 1, sp_extent = [2, 2], sp_pitch = [2], sp_align = None\<rparr>"

lemma memcpy_correct_witness:
  "\<exists>m'. queue_memcpy padded_span dense_span [2, 2 :: u32] (map word_of_nat [0..<12]) = Some m'
    \<and> elems_written padded_span [2, 2] (\<lambda>idx k. (map word_of_nat [0..<12] :: memory) ! (addr dense_span idx + k)) (map word_of_nat [0..<12]) m'"
proof -
  have E: "map unat [2, 2 :: u32] = [2, 2]" by simp
  have d: "covers 8 padded_span [2, 2]" "covers 12 padded_span [2, 2]"
    by (simp_all add: covers_def span_ok_def span_getPitches_split padded_span_def)
  have s: "covers 12 dense_span [2, 2]" by (simp add: covers_def span_ok_def span_getPitches_split dense_span_def)
  have "addr padded_span i + 1 \<le> 8" if "in_extents i [2, 2]" for i
    using covers_idx(4)[OF d(1) that] by (simp add: padded_span_def)
  moreover have "8 \<le> addr dense_span j" if "in_extents j [2, 2]" for j
    using covers_idx(3)[OF s that] by (simp add: dense_span_def)
  ultimately have "\<forall>i j. in_extents i [2, 2] \<and> in_extents j [2, 2]
           \<longrightarrow> seg (addr padded_span i) (sp_sizeof padded_span) \<inter> seg (addr dense_span j) (sp_sizeof dense_span) = {}"
    by (fastforce simp: padded_span_def dense_span_def)
  then show ?thesis
    using memcpy_correct[of "map word_of_nat [0..<12]" padded_span "[2, 2 :: u32]" dense_span] d(2) s
    unfolding E by (simp add: padded_span_def dense_span_def)
qed

section \<open>Setting memory\<close>

lemma queue_memset_rows:
  fixes dest :: "'a::len word span" and extents :: "'c::len word vec"
  assumes c: "covers mlen dest (map unat extents)" "LENGTH('c) \<le> 64" and nz: "0 \<notin> set extents" "extents \<noteq> []"
  shows "queue_memset dest byteValue extents m
    = fold_opt (\<lambda>r. std_memset (row_start dest r) byteValue (last (map unat extents) * sp_sizeof dest))
        (all_idx (butlast (map unat extents))) m"
proof -
  note w = extent_words[OF c(1) nz c(2)]
  let ?E = "butlast (map unat extents)" and ?e = "last (map unat extents)"
  show ?thesis
  proof (cases "length extents = 1")
    case True
    then have E0: "?E = []" by (cases extents) auto
    have x: "vec_x (vec_pCast ucast extents :: u64 vec) = vec_back (vec_pCast ucast extents)" by (simp add: vec_x_def vec_back_def)
    show ?thesis using w True unfolding E0 queue_memset_def Let_def x
      by (simp add: fold_opt_single row_start_def del: fold_opt.simps)
  next
    case False
    then have "?E \<noteq> []" using nz(2) by (cases extents rule: rev_cases) auto
    have rows: "sp_ptr dest + rowOffset (vec_pCast ucast (vec_eraseBack (span_getPitches dest))) r = row_start dest r"
      if "r \<in> set (all_idx ?E)" for r
      using rowOffset_start[of mlen dest ?E ?e r] that c(1) extents_split[OF nz(2)] last_extent_pos[OF nz] \<open>?E \<noteq> []\<close>
      by (simp add: set_all_idx)
    have "queue_memset dest byteValue extents m
      = fold_opt (\<lambda>idx. std_memset (sp_ptr dest + rowOffset (vec_pCast ucast (vec_eraseBack (span_getPitches dest))) idx)
                byteValue (?e * sp_sizeof dest)) (all_idx ?E) m"
      using w(1) False unfolding queue_memset_def Let_def w(3,4) by (simp add: ndLoop_fold_opt[OF \<open>?E \<noteq> []\<close>])
    also have "\<dots> = fold_opt (\<lambda>r. std_memset (row_start dest r) byteValue (?e * sp_sizeof dest)) (all_idx ?E) m"
      by (rule fold_opt_cong) (simp add: rows)
    finally show ?thesis .
  qed
qed

text \<open>Every byte of the elements of the extents is set, and no other.\<close>

theorem memset_correct:
  fixes dest :: "'a::len word span" and extents :: "'c::len word vec"
  assumes "covers (length m) dest (map unat extents)" "LENGTH('c) \<le> 64"
  shows "\<exists>m'. queue_memset dest byteValue extents m = Some m'
    \<and> elems_written dest (map unat extents) (\<lambda>idx k. byteValue) m m'"
proof (cases "0 \<in> set extents")
  case True
  then show ?thesis using elems_written_none by (auto simp: queue_memset_def Let_def vec_product_zero)
next
  case False
  let ?E = "butlast (map unat extents)" and ?e = "last (map unat extents)" and ?s = "sp_sizeof dest"
  have ne: "extents \<noteq> []" using covers_nonempty assms(1) by blast
  note split = extents_split[OF ne]
  have e: "0 < ?e" using last_extent_pos[OF False ne] .
  have c: "covers (length m) dest (?E @ [?e])" using assms(1) split by simp
  have s: "0 < ?s" using assms(1) span_okD(1) by (auto simp: covers_def)
  have "\<exists>m'. fold_opt (\<lambda>r. std_memset (row_start dest r) byteValue (?e * ?s)) (all_idx ?E) m = Some m'
    \<and> elems_written dest (?E @ [?e]) (\<lambda>idx k. replicate (?e * ?s) byteValue ! (?s * last idx + k)) m m'"
    by (rule fold_rows[where v = "\<lambda>r. replicate (?e * ?s) byteValue", OF c e])
      (use row_inside[OF c _ e] e s in \<open>simp_all add: std_memset_def\<close>)
  moreover have "replicate (?e * ?s) byteValue ! (?s * last idx + k) = byteValue"
    if idx: "in_extents idx (?E @ [?e])" and k: "k < ?s" for idx k
  proof -
    obtain r x where r: "idx = r @ [x]" "x < ?e" using idx by (rule in_extents_snocE)
    have "?s * x + k < ?e * ?s" using mult_le_mono1[of "Suc x" ?e ?s] r(2) k by (simp add: algebra_simps)
    then show ?thesis by (simp add: r(1))
  qed
  ultimately have "\<exists>m'. fold_opt (\<lambda>r. std_memset (row_start dest r) byteValue (?e * ?s)) (all_idx ?E) m = Some m'
    \<and> elems_written dest (?E @ [?e]) (\<lambda>idx k. byteValue) m m'"
    unfolding elems_written_def by metis
  then show ?thesis using queue_memset_rows[OF assms False ne] split by simp
qed

end
