(* ===== verification/Views.thy ===== *)
theory Views
  imports Memcpy Launch
begin

text \<open>
  How memory for a buffer is laid out (\<^verbatim>\<open>emulatedAlignedMemDescription\<close> in \<^verbatim>\<open>api/util.hpp\<close>), the halo
  sub-views of \<^verbatim>\<open>mem/View.hpp\<close>, nested C arrays as spans (\<^verbatim>\<open>mem/MdSpanArray.hpp\<close>) and the index generator of
  \<^verbatim>\<open>mem/LinearizedIdxGenerator.hpp\<close>.
\<close>

section \<open>The memory of a buffer\<close>

text \<open>The size is computed in \<^verbatim>\<open>size_t\<close>, the row pitch and the pitches in the index type of the extents.\<close>

definition emulatedAlignedMemDescription :: "nat \<Rightarrow> u32 \<Rightarrow> 'w::len word vec \<Rightarrow> u64 \<times> 'w word vec" where
  "emulatedAlignedMemDescription sizeofType alignmentInByte extents =
     (if length extents = 1
      then (ucast (vec_x extents) * of_nat sizeofType, [of_nat sizeofType])
      else let alignment = ucast alignmentInByte;
               rowExtentInBytes = vec_x extents * of_nat sizeofType;
               rowPitchInBytes = divCeil rowExtentInBytes alignment * alignment;
               pitches = calculatePitches (of_nat sizeofType) extents rowPitchInBytes
           in (ucast (pitches ! 0) * ucast (extents ! 0), pitches))"

lemma pitchedI:
  "length ps = length es \<Longrightarrow> es \<noteq> [] \<Longrightarrow> last ps = s
     \<Longrightarrow> (\<And>d. Suc d < length es \<Longrightarrow> ps ! Suc d * es ! Suc d \<le> ps ! d) \<Longrightarrow> pitched s ps es"
proof (induction s ps es rule: pitched.induct)
  case (2 s p q ps e f es)
  have "(q # ps) ! Suc d * (f # es) ! Suc d \<le> (q # ps) ! d" if "Suc d < length (f # es)" for d
    using 2(5)[of "Suc d"] that by simp
  then have "pitched s (q # ps) (f # es)" using 2(1,2,4) by simp
  then show ?case using 2(5)[of 0] by simp
qed auto

lemma off_dvd: "(\<forall>p \<in> set ps. a dvd p) \<Longrightarrow> a dvd off ps is"
  by (induction ps "is" rule: off.induct) auto

lemma prod_list_le_sub:
  "(\<forall>x \<in> set (xs @ ys @ zs). (0 :: nat) < x) \<Longrightarrow> prod_list ys \<le> prod_list (xs @ ys @ zs)"
proof -
  assume "\<forall>x \<in> set (xs @ ys @ zs). 0 < x"
  then have "0 < prod_list xs" "0 < prod_list zs" by (simp_all add: prod_list_pos_nat)
  then have "1 \<le> prod_list xs * prod_list zs" by simp
  then have "prod_list ys * 1 \<le> prod_list ys * (prod_list xs * prod_list zs)" by (rule mult_le_mono2)
  then show ?thesis by (simp add: algebra_simps)
qed

text \<open>The row pitch in natural numbers, when it fits the index type.\<close>

lemma rowPitch_unat:
  fixes x :: "'w::len word"
  assumes "0 < unat a" "unat x * s + unat (a :: u32) < 2 ^ LENGTH('w)" "0 < unat x"
  shows "unat (divCeil (x * of_nat s) (ucast a :: 'w word) * ucast a) = divCeil (unat x * s) (unat a) * unat a"
proof -
  have a: "unat (ucast a :: 'w word) = unat a"
    using assms(2) by (simp add: unsigned_ucast_eq take_bit_nat_eq_self)
  have "s \<le> unat x * s" using assms(3) by (cases "unat x") auto
  then have "s < 2 ^ LENGTH('w)" using assms(2) by linarith
  then have s: "unat (of_nat s :: 'w word) = s" by (simp add: unat_of_nat)
  have row: "unat (x * of_nat s) = unat x * s" using unat_mult_bound[of x "of_nat s"] s assms(2) by simp
  then have sum: "unat (x * of_nat s + ucast a) = unat x * s + unat a"
    using unat_add_bound[of "x * of_nat s" "ucast a"] a assms(2) by simp
  have "(1 :: 'w word) \<le> x * of_nat s + ucast a" using sum assms(1) by (simp add: word_le_nat_alt)
  then have "unat (x * of_nat s + ucast a - 1) = unat x * s + unat a - 1" using sum by (simp add: unat_sub_bound)
  then have q: "unat (divCeil (x * of_nat s) (ucast a :: 'w word)) = divCeil (unat x * s) (unat a)"
    by (simp add: divCeil_def unat_div a)
  have "divCeil (unat x * s) (unat a) * unat a < 2 ^ LENGTH('w)"
    using divCeil_nat_bounds(2)[OF assms(1), of "unat x * s"] assms(2) by linarith
  then show ?thesis using unat_mult_bound[of "divCeil (x * of_nat s) (ucast a :: 'w word)" "ucast a"] q a by simp
qed

lemma unat_pitch:
  fixes es :: "'w::len word vec"
  assumes nz: "0 \<notin> set es" and n: "2 \<le> length es" and r: "unat r \<le> R"
    and fit: "prod_list (map unat (butlast es)) * R < 2 ^ LENGTH('w)" and d: "d \<le> length es - 2"
  shows "unat (calculatePitches s es r ! d) = prod_list (map (\<lambda>i. unat (es ! i)) [Suc d..<length es - 1]) * unat r"
proof -
  let ?ws = "map ((!) es) [Suc d..<length es - 1]"
  have split: "butlast es = take (Suc d) es @ ?ws @ []"
    using n d by (intro nth_equalityI) (auto simp: nth_append nth_butlast)
  have pos: "\<forall>x \<in> set (map unat (butlast es)). 0 < x"
    using nz by (auto simp: unat_gt_0 dest: in_set_butlastD)
  have le: "prod_list (map unat ?ws) \<le> prod_list (map unat (butlast es))"
    using prod_list_le_sub[of "map unat (take (Suc d) es)" "map unat ?ws" "[]"] pos
    by (simp only: split map_append flip: map_append) simp
  have nzw: "\<forall>w \<in> set ?ws. w \<noteq> 0" using nz n by (auto simp: in_set_conv_nth)
  have lt: "prod_list (map unat ?ws) * unat r < 2 ^ LENGTH('w)"
    using mult_le_mono[OF le r] fit by linarith
  show ?thesis
  proof (cases "unat r = 0")
    case True
    then have "r = 0" by (simp add: unat_eq_zero)
    then show ?thesis using calculatePitches_nth(3)[OF n d] by simp
  next
    case False
    then have "prod_list (map unat ?ws) \<le> prod_list (map unat ?ws) * unat r" by (cases "unat r") auto
    then have "unat (prod_list ?ws) = prod_list (map unat ?ws)"
      using lt unat_prod_list[of ?ws] nzw by (meson order_le_less_trans)
    then show ?thesis
      using unat_mult_bound[of "prod_list ?ws" r] lt calculatePitches_nth(3)[OF n d, of s r] by (simp add: comp_def)
  qed
qed

text \<open>The layout of the buffer in natural numbers: the row pitch, and the size of all rows.\<close>

definition rowPitch :: "nat \<Rightarrow> nat \<Rightarrow> nat list \<Rightarrow> nat" where
  "rowPitch s a E = divCeil (last E * s) a * a"

lemma aligned_layout:
  fixes es :: "'w::len word vec"
  assumes nz: "0 \<notin> set es" and n: "2 \<le> length es" and s: "0 < s" and a: "0 < unat a"
    and fit: "prod_list (map unat (butlast es)) * (unat (last es) * s + unat a) < 2 ^ LENGTH('w)" and w: "LENGTH('w) \<le> 64"
  defines "P \<equiv> snd (emulatedAlignedMemDescription s a es)" and "R \<equiv> rowPitch s (unat a) (map unat es)"
  shows "pitched s (map unat P) (map unat es)" "last P = of_nat s" "unat (of_nat s :: 'w word) = s"
    "unat (fst (emulatedAlignedMemDescription s a es)) = prod_list (map unat (butlast es)) * R"
    "hd (map unat P) * hd (map unat es) = prod_list (map unat (butlast es)) * R"
    "\<forall>p \<in> set (butlast P). unat a dvd unat p" "unat (last es) * s \<le> R"
    "prod_list (map unat (butlast es)) * R < 2 ^ LENGTH('w)"
proof -
  let ?n = "length es" and ?B = "prod_list (map unat (butlast es))"
  let ?r = "divCeil (vec_x es * of_nat s) (ucast a) * ucast a :: 'w word"
  have ne: "es \<noteq> []" using n by auto
  have x: "vec_x es = last es" using ne by (simp add: vec_x_def last_conv_nth)
  have posE: "0 < unat (es ! i)" if "i < ?n" for i using nz that by (auto simp: unat_gt_0 in_set_conv_nth)
  have pos: "\<forall>x \<in> set (map unat (butlast es)). 0 < x" using nz by (auto simp: unat_gt_0 dest: in_set_butlastD)
  have B: "0 < ?B" using prod_list_pos_nat[OF pos] .
  have le: "unat (last es) * s + unat a \<le> ?B * (unat (last es) * s + unat a)" using B by (cases ?B) auto
  have posl: "0 < unat (last es)" using posE[of "?n - 1"] n ne by (simp add: last_conv_nth)
  have r: "unat ?r = R"
    using rowPitch_unat[OF a, of "last es" s] le fit posl ne unfolding x by (simp add: R_def rowPitch_def last_map)
  have Rb: "unat (last es) * s \<le> R" "R < unat (last es) * s + unat a"
    using divCeil_nat_bounds[OF a, of "unat (last es) * s"] ne by (simp_all add: R_def rowPitch_def last_map)
  then show "unat (last es) * s \<le> R" by simp
  have "?B * R \<le> ?B * (unat (last es) * s + unat a)" using Rb(2) by (intro mult_le_mono2) simp
  then show BR: "?B * R < 2 ^ LENGTH('w)" using fit by linarith
  have "s \<le> unat (last es) * s" using posl by (cases "unat (last es)") auto
  then have "s < 2 ^ LENGTH('w)" using le fit by linarith
  then show us: "unat (of_nat s :: 'w word) = s" by (simp add: unat_of_nat)
  have P: "P = calculatePitches (of_nat s) es ?r"
    using n by (simp add: P_def emulatedAlignedMemDescription_def Let_def)
  note nth = calculatePitches_nth[OF n, of "of_nat s" ?r, folded P]
  note up = unat_pitch[OF nz n eq_refl[OF r], unfolded r, OF BR, of _ "of_nat s", folded P]
  have Pn: "P \<noteq> []" using nth(1) ne by auto
  show lastP: "last P = of_nat s" using nth(1,2) Pn by (simp add: last_conv_nth)
  have prod_step: "prod_list (map (\<lambda>i. unat (es ! i)) [Suc (Suc d)..<?n - 1]) * unat (es ! Suc d)
      = prod_list (map (\<lambda>i. unat (es ! i)) [Suc d..<?n - 1])" if "Suc d < ?n - 1" for d
    using that by (simp add: upt_conv_Cons)
  show "pitched s (map unat P) (map unat es)"
  proof (rule pitchedI)
    fix d assume d: "Suc d < length (map unat es)"
    show "map unat P ! Suc d * map unat es ! Suc d \<le> map unat P ! d"
    proof (cases "Suc d < ?n - 1")
      case True
      then have dd: "d \<le> ?n - 2" "Suc d \<le> ?n - 2" by simp_all
      have "unat (P ! Suc d) * unat (es ! Suc d) = unat (P ! d)"
        unfolding up[OF dd(1)] up[OF dd(2)] using prod_step[OF True] by (metis mult.assoc mult.commute)
      then show ?thesis using d nth(1) by simp
    next
      case False
      then have d': "Suc d = ?n - 1" "d = ?n - 2" using d by simp_all
      have "unat (P ! d) = R" using up[of d] d' by simp
      moreover have "unat (P ! Suc d) = s" using nth(2) us d'(1) by simp
      moreover have "es ! Suc d = last es" using d'(1) ne by (simp add: last_conv_nth)
      ultimately show ?thesis using Rb(1) d nth(1) by (simp add: mult.commute)
    qed
  qed (use nth(1) ne lastP us Pn in \<open>simp_all add: last_map\<close>)
  have "[0..<?n - 1] = 0 # [1..<?n - 1]" using n by (simp add: upt_conv_Cons)
  moreover have "map unat (butlast es) = map (\<lambda>i. unat (es ! i)) [0..<?n - 1]"
    by (rule nth_equalityI) (simp_all add: nth_butlast)
  ultimately have B': "?B = unat (es ! 0) * prod_list (map (\<lambda>i. unat (es ! i)) [1..<?n - 1])" by simp
  have P0: "unat (P ! 0) * unat (es ! 0) = ?B * R" using up[of 0] B' by simp
  then show "hd (map unat P) * hd (map unat es) = ?B * R" using Pn ne by (simp add: hd_conv_nth)
  have "?B * R < 2 ^ 64" using BR power_increasing[OF w, of "2 :: nat"] by linarith
  then have "unat (ucast (P ! 0) * ucast (es ! 0) :: u64) = ?B * R"
    using unat_mult_bound[of "ucast (P ! 0) :: u64" "ucast (es ! 0)"] P0 by (simp add: unat_ucast_u64[OF w])
  then show "unat (fst (emulatedAlignedMemDescription s a es)) = ?B * R"
    using n P by (simp add: emulatedAlignedMemDescription_def Let_def)
  show "\<forall>p \<in> set (butlast P). unat a dvd unat p"
  proof
    fix p assume "p \<in> set (butlast P)"
    then obtain d where d: "d < ?n - 1" "p = P ! d" using nth(1) by (auto simp: in_set_conv_nth nth_butlast)
    then have "unat p = prod_list (map (\<lambda>i. unat (es ! i)) [Suc d..<?n - 1]) * R" using up[of d] by simp
    then show "unat a dvd unat p" by (simp add: R_def rowPitch_def)
  qed
qed

text \<open>
  Property C12. The memory a buffer gets is big enough and well laid out: with the computed size and pitches the
  elements of all indices lie inside the allocation, without overlap and with offsets that fit the
  index type; the size is the number of rows times the row pitch; and if the allocation is aligned, so is
  every row. This needs the number of rows times the (unrounded) row size and alignment to fit the index type.
\<close>

theorem alloc_elements_fit:
  fixes es :: "'w::len word vec"
  assumes "es \<noteq> []" "0 \<notin> set es" "0 < s" "0 < unat a" "LENGTH('w) \<le> 64"
    and "prod_list (map unat (butlast es)) * (unat (last es) * s + unat a) < 2 ^ LENGTH('w)"
  defines "memSize \<equiv> unat (fst (emulatedAlignedMemDescription s a es))"
  shows "\<exists>sp. mdSpan ptr s es (snd (emulatedAlignedMemDescription s a es)) al = Some sp
    \<and> span_ok (ptr + memSize) sp
    \<and> (length es \<noteq> 1 \<longrightarrow> memSize = prod_list (map unat (butlast es)) * rowPitch s (unat a) (map unat es))
    \<and> (\<forall>r. unat a dvd ptr \<longrightarrow> unat a dvd row_start sp r)"
proof -
  let ?P = "snd (emulatedAlignedMemDescription s a es)" and ?E = "map unat es"
  let ?sp = "\<lparr>sp_ptr = ptr, sp_sizeof = s, sp_extent = es, sp_pitch = butlast ?P, sp_align = al\<rparr>"
  have posl: "unat (last es) \<noteq> 0" using assms(1,2) by (metis last_in_set unat_eq_zero)
  have "pitched s (map unat ?P) ?E \<and> last ?P = of_nat s \<and> ?P \<noteq> [] \<and> hd (map unat ?P) * hd ?E = memSize \<and> memSize < 2 ^ LENGTH('w)
    \<and> (length es \<noteq> 1 \<longrightarrow> memSize = prod_list (map unat (butlast es)) * rowPitch s (unat a) ?E) \<and> (\<forall>p \<in> set (butlast ?P). unat a dvd unat p)"
  proof (cases "length es = 1")
    case True
    then obtain e where e: "es = [e]" by (auto simp: length_Suc_conv)
    have lt: "unat e * s < 2 ^ LENGTH('w)" using assms(6) e by simp
    have "s \<le> unat e * s" using posl e by (cases "unat e") auto
    then have "s < 2 ^ LENGTH('w)" "s < 2 ^ 64" using lt power_increasing[OF assms(5), of "2 :: nat"] by linarith+
    then have us: "unat (of_nat s :: 'w word) = s" "unat (of_nat s :: u64) = s" by (simp_all add: unat_of_nat)
    have "unat (ucast e :: u64) * unat (of_nat s :: u64) < 2 ^ 64"
      using lt power_increasing[OF assms(5), of "2 :: nat"] us by (simp add: unat_ucast_u64[OF assms(5)])
    then have "memSize = unat e * s"
      using unat_mult_bound[of "ucast e :: u64" "of_nat s"] us
      by (simp add: memSize_def emulatedAlignedMemDescription_def e vec_x_def unat_ucast_u64[OF assms(5)])
    then show ?thesis using us lt by (simp add: emulatedAlignedMemDescription_def e mult.commute)
  next
    case False
    then have n: "2 \<le> length es" using assms(1) length_0_conv[of es] by linarith
    note l = aligned_layout[OF assms(2) n assms(3,4,6,5)]
    have "?P \<noteq> []" using l(1) pitched_length by fastforce
    then show ?thesis using l by (simp add: memSize_def)
  qed
  then have P: "pitched s (map unat ?P) ?E" "last ?P = of_nat s" "?P \<noteq> []" "hd (map unat ?P) * hd ?E = memSize" "memSize < 2 ^ LENGTH('w)"
    and size: "length es \<noteq> 1 \<longrightarrow> memSize = prod_list (map unat (butlast es)) * rowPitch s (unat a) ?E"
    and dvd: "\<forall>p \<in> set (butlast ?P). unat a dvd unat p" by blast+
  have getP: "span_getPitches ?sp = ?P" using P(2,3) by (simp add: span_getPitches_split flip: P(2))
  have "mdSpan ptr s es ?P al = Some ?sp"
    using P(2,3) by (simp add: mdSpan_def dataPitches_store_def vec_eraseBack_butlast vec_back_last)
  moreover have "in_extents (last_idx ?E) ?E" using assms(2) by (induction es) (auto simp: unat_gt_0)
  then have "off (map unat ?P) (last_idx ?E) + s \<le> memSize" using off_bound[OF P(1)] P(4) by simp
  then have "span_ok (ptr + memSize) ?sp"
    using P(1,5) assms(3) unfolding span_ok_def getP by simp
  moreover have "unat a dvd row_start ?sp r" if "unat a dvd ptr" for r
    unfolding row_start_def getP using off_dvd[of "map unat (butlast ?P)" "unat a" r] dvd that by simp
  ultimately show ?thesis using size by blast
qed

lemma alloc_elements_fit_witness:
  "\<exists>sp. mdSpan 4096 12 [5, 7, 100 :: u32] (snd (emulatedAlignedMemDescription 12 32 [5, 7, 100 :: u32])) None = Some sp
     \<and> span_ok (4096 + 5 * 7 * 1216) sp \<and> 32 dvd row_start sp [3, 4]"
proof -
  have "fst (emulatedAlignedMemDescription 12 32 [5, 7, 100 :: u32]) = 5 * 7 * 1216" by code_simp
  then show ?thesis using alloc_elements_fit[of "[5, 7, 100 :: u32]" 12 32 4096 None] by auto
qed

text \<open>
  The condition is needed. With a 32-bit index type a buffer of more than 4 GiB gets enough memory,
  because the size is computed in 64 bits, but the offsets of its elements wrap: two different elements have the
  same address.
\<close>

lemma span_offset_wraps_example:
  "fst (emulatedAlignedMemDescription 4 64 [65537, 16384 :: u32]) = 65537 * 65536
   \<and> map_option (\<lambda>sp. (span_ptr sp [0, 0], span_ptr sp [65536, 0]))
       (mdSpan 0 4 [65537, 16384 :: u32] (snd (emulatedAlignedMemDescription 4 64 [65537, 16384 :: u32])) None) = Some (0, 0)"
  by code_simp

section \<open>Halo sub-views\<close>

text \<open>
  \<^verbatim>\<open>View::getSubView(BoundaryDirection)\<close>, which needs the extents to be 32-bit vectors; \<open>None\<close> is the exception on an
  out-of-bounds direction or a failing assertion.
\<close>

definition subViewBounds :: "u32 vec \<Rightarrow> u32 BoundaryDirection \<Rightarrow> nat \<Rightarrow> (u32 \<times> u32) option" where
  "subViewBounds ext boundaryDir i =
     (case bd_data boundaryDir ! i of
        lower \<Rightarrow> Some (0, bd_lowerHaloSize boundaryDir ! i)
      | upper \<Rightarrow> Some (ext ! i - bd_upperHaloSize boundaryDir ! i, bd_upperHaloSize boundaryDir ! i)
      | middle \<Rightarrow> Some (bd_lowerHaloSize boundaryDir ! i,
                        ext ! i - bd_lowerHaloSize boundaryDir ! i - bd_upperHaloSize boundaryDir ! i)
      | oob \<Rightarrow> None)"

definition getSubViewDir :: "32 word span \<Rightarrow> u32 BoundaryDirection \<Rightarrow> 32 word span option" where
  "getSubViewDir sp boundaryDir =
     (let dim = length (sp_extent sp) in
      Option.bind
        (for_upto 0 dim
           (\<lambda>i st. Option.bind st (\<lambda>(offset, extents).
              map_option (\<lambda>(o', e). (offset[i := o'], extents[i := e])) (subViewBounds (sp_extent sp) boundaryDir i)))
           (Some (vec_fill dim 0, vec_fill dim 0)))
        (\<lambda>(offset, extents). getSubViewAt sp offset extents))"

lemma getSubViewDir_bounds:
  assumes "\<And>i. i < length (sp_extent sp) \<Longrightarrow> subViewBounds (sp_extent sp) bd i = Some (B i, E i)"
  shows "getSubViewDir sp bd = getSubViewAt sp (map B [0..<length (sp_extent sp)]) (map E [0..<length (sp_extent sp)])"
proof -
  let ?n = "length (sp_extent sp)"
  let ?body = "\<lambda>i st. Option.bind st (\<lambda>(offset, extents).
              map_option (\<lambda>(o', e). (offset[i := o'], extents[i := e])) (subViewBounds (sp_extent sp) bd i))"
  have "k \<le> ?n \<Longrightarrow> for_upto 0 k ?body (Some (vec_fill ?n 0, vec_fill ?n 0))
      = Some (map B [0..<k] @ replicate (?n - k) 0, map E [0..<k] @ replicate (?n - k) 0)" for k
  proof (induction k)
    case 0
    then show ?case by (simp add: vec_fill_replicate)
  next
    case (Suc k)
    then have "?n - k = Suc (?n - Suc k)" by simp
    with Suc assms show ?case by (simp add: for_upto_Suc list_update_append)
  qed
  from this[of ?n] show ?thesis by (simp add: getSubViewDir_def Let_def)
qed

definition halos_in :: "u32 vec \<Rightarrow> u32 vec \<Rightarrow> u32 vec \<Rightarrow> bool" where
  "halos_in ext lo up \<longleftrightarrow> length lo = length ext \<and> length up = length ext
     \<and> (\<forall>i < length ext. unat (lo ! i) + unat (up ! i) \<le> unat (ext ! i))"

text \<open>The direction an index belongs to.\<close>

definition dir_class :: "u32 vec \<Rightarrow> u32 vec \<Rightarrow> u32 vec \<Rightarrow> u32 vec \<Rightarrow> nat \<Rightarrow> BoundaryType" where
  "dir_class ext lo up j i = (if j ! i < lo ! i then lower else if unat (j ! i) < unat (ext ! i) - unat (up ! i) then middle else upper)"

lemma halo_subView:
  assumes ok: "span_ok mlen sp" and halo: "halos_in (sp_extent sp) lo up"
    and ds: "length ds = length (sp_extent sp)" "oob \<notin> set ds"
  shows "\<exists>sp' os. getSubViewDir sp (boundaryDirection ds lo up) = Some sp' \<and> span_ok mlen sp'
    \<and> (\<forall>idx. in_extents idx (sp_extent sp') \<longrightarrow> in_extents (vec_add os idx) (sp_extent sp) \<and> span_ptr sp' idx = span_ptr sp (vec_add os idx))
    \<and> (\<forall>j. in_extents j (sp_extent sp) \<longrightarrow>
         (\<exists>idx. in_extents idx (sp_extent sp') \<and> vec_add os idx = j) = (\<forall>i < length ds. ds ! i = dir_class (sp_extent sp) lo up j i))"
proof -
  let ?ext = "sp_extent sp" and ?n = "length (sp_extent sp)" and ?bd = "boundaryDirection ds lo up"
  define B where "B i = fst (the (subViewBounds ?ext ?bd i))" for i
  define E where "E i = snd (the (subViewBounds ?ext ?bd i))" for i
  have len: "length lo = ?n" "length up = ?n" using halo by (simp_all add: halos_in_def)
  have fit: "unat (lo ! i) + unat (up ! i) \<le> unat (?ext ! i)" if "i < ?n" for i
    using halo that by (simp add: halos_in_def)
  have sub: "unat (?ext ! i - up ! i) = unat (?ext ! i) - unat (up ! i)"
    "unat (?ext ! i - lo ! i - up ! i) = unat (?ext ! i) - unat (lo ! i) - unat (up ! i)" if "i < ?n" for i
  proof -
    have "up ! i \<le> ?ext ! i" "lo ! i \<le> ?ext ! i" using fit[OF that] by (simp_all add: word_le_nat_alt)
    moreover from this have "up ! i \<le> ?ext ! i - lo ! i" using fit[OF that] by (simp add: word_le_nat_alt unat_sub_bound)
    ultimately show "unat (?ext ! i - up ! i) = unat (?ext ! i) - unat (up ! i)"
      "unat (?ext ! i - lo ! i - up ! i) = unat (?ext ! i) - unat (lo ! i) - unat (up ! i)" by (simp_all add: unat_sub_bound)
  qed
  have bound: "subViewBounds ?ext ?bd i = Some (B i, E i) \<and> unat (B i) + unat (E i) \<le> unat (?ext ! i)
      \<and> (\<forall>j < ?ext ! i. (unat (B i) \<le> unat j \<and> unat j < unat (B i) + unat (E i)) =
            (ds ! i = (if j < lo ! i then lower else if unat j < unat (?ext ! i) - unat (up ! i) then middle else upper)))" if "i < ?n" for i
  proof -
    have "ds ! i \<noteq> oob" using ds that by (metis nth_mem)
    then show ?thesis using fit[OF that] sub[OF that]
      by (cases "ds ! i") (auto simp: B_def E_def subViewBounds_def boundaryDirection_def word_less_nat_alt)
  qed
  let ?os = "map B [0..<?n]" and ?es = "map E [0..<?n]"
  have dir: "getSubViewDir sp ?bd = getSubViewAt sp ?os ?es" by (rule getSubViewDir_bounds) (use bound in blast)
  have wrap: "list_all2 (\<lambda>a b. unat a + unat b < 2 ^ LENGTH(32)) ?os ?es"
  proof (unfold list_all2_conv_all_nth, intro conjI allI impI)
    fix i assume "i < length ?os"
    then have "unat (B i) + unat (E i) \<le> unat (?ext ! i)" using bound by simp
    also have "\<dots> < 2 ^ LENGTH(32)" by (rule unsigned_less)
    finally show "unat (?os ! i) + unat (?es ! i) < 2 ^ LENGTH(32)" using \<open>i < length ?os\<close> by simp
  qed simp
  have "list_all2 (\<le>) (vec_add ?os ?es) ?ext"
  proof (unfold list_all2_conv_all_nth, intro conjI allI impI)
    fix i assume "i < length (vec_add ?os ?es)"
    then have i: "i < ?n" by (simp add: vec_op_def)
    have "unat (B i + E i) = unat (B i) + unat (E i)"
      by (rule unat_add_bound) (use wrap i in \<open>simp add: list_all2_conv_all_nth\<close>)
    then show "vec_add ?os ?es ! i \<le> ?ext ! i" using bound[OF i] i by (simp add: vec_op_def word_le_nat_alt)
  qed (simp add: vec_op_def)
  then obtain sp' where sp': "getSubViewAt sp ?os ?es = Some sp'"
    using mdSpan_same_pitches[OF ok] by (simp add: getSubViewAt_def)
  note at = getSubViewAt_ok[OF ok sp' wrap]
  have tile: "(\<exists>idx. in_extents idx ?es \<and> vec_add ?os idx = j) = (\<forall>i < length ds. ds ! i = dir_class ?ext lo up j i)"
    if j: "in_extents j ?ext" for j
  proof -
    have lj: "length j = ?n" using j by (simp add: list_all2_lengthD)
    have "(\<forall>i < length ds. ds ! i = dir_class ?ext lo up j i)
        = (\<forall>i < ?n. unat (B i) \<le> unat (j ! i) \<and> unat (j ! i) < unat (B i) + unat (E i))"
      using bound j ds(1) lj by (auto simp: dir_class_def list_all2_conv_all_nth)
    also have "\<dots> = (\<exists>idx. in_extents idx ?es \<and> vec_add ?os idx = j)"
    proof
      assume h: "\<forall>i < ?n. unat (B i) \<le> unat (j ! i) \<and> unat (j ! i) < unat (B i) + unat (E i)"
      let ?idx = "map (\<lambda>i. j ! i - B i) [0..<?n]"
      have "in_extents ?idx ?es"
        using h by (auto simp: add.commute list_all2_conv_all_nth word_less_nat_alt unat_sub_bound word_le_nat_alt less_diff_conv2)
      moreover have "vec_add ?os ?idx = j" by (rule nth_equalityI) (simp_all add: vec_op_def lj)
      ultimately show "\<exists>idx. in_extents idx ?es \<and> vec_add ?os idx = j" by blast
    next
      assume "\<exists>idx. in_extents idx ?es \<and> vec_add ?os idx = j"
      then obtain idx where idx: "in_extents idx ?es" "vec_add ?os idx = j" by blast
      show "\<forall>i < ?n. unat (B i) \<le> unat (j ! i) \<and> unat (j ! i) < unat (B i) + unat (E i)"
      proof (intro allI impI)
        fix i assume i: "i < ?n"
        have lt: "unat (idx ! i) < unat (E i)" using idx(1) i by (auto simp: list_all2_conv_all_nth word_less_nat_alt)
        have "unat (B i) + unat (E i) < 2 ^ LENGTH(32)" using wrap i by (simp add: list_all2_conv_all_nth)
        then have "unat (B i + idx ! i) = unat (B i) + unat (idx ! i)" using lt by (intro unat_add_bound) simp
        moreover have "j ! i = B i + idx ! i" using idx(2) i by (auto simp: vec_op_def)
        ultimately show "unat (B i) \<le> unat (j ! i) \<and> unat (j ! i) < unat (B i) + unat (E i)" using lt by simp
      qed
    qed
    finally show ?thesis by simp
  qed
  show ?thesis using at tile dir sp' by auto
qed

text \<open>
  Property C40. The halo sub-views of all directions tile the view, if the halos fit into the extents: every
  element belongs to the sub-view of exactly one direction.
\<close>

theorem halo_subViews_tile:
  assumes ok: "span_ok mlen sp" and halo: "halos_in (sp_extent sp) lo up" and j: "in_extents j (sp_extent sp)"
  shows "\<exists>!ds. length ds = length (sp_extent sp) \<and> oob \<notin> set ds
    \<and> (\<exists>sp' idx. getSubViewDir sp (boundaryDirection ds lo up) = Some sp' \<and> in_extents idx (sp_extent sp') \<and> span_ptr sp' idx = span_ptr sp j)"
proof (rule ex1I)
  let ?ds = "map (dir_class (sp_extent sp) lo up j) [0..<length (sp_extent sp)]"
  have d: "length ?ds = length (sp_extent sp)" "oob \<notin> set ?ds" by (auto simp: dir_class_def)
  obtain sp' os where sp': "getSubViewDir sp (boundaryDirection ?ds lo up) = Some sp'"
    "\<forall>idx. in_extents idx (sp_extent sp') \<longrightarrow> in_extents (vec_add os idx) (sp_extent sp) \<and> span_ptr sp' idx = span_ptr sp (vec_add os idx)"
    "(\<exists>idx. in_extents idx (sp_extent sp') \<and> vec_add os idx = j) = (\<forall>i < length ?ds. ?ds ! i = dir_class (sp_extent sp) lo up j i)"
    using halo_subView[OF ok halo d] j by blast
  then obtain idx where "in_extents idx (sp_extent sp')" "vec_add os idx = j" by auto
  then show "length ?ds = length (sp_extent sp) \<and> oob \<notin> set ?ds
    \<and> (\<exists>sp' idx. getSubViewDir sp (boundaryDirection ?ds lo up) = Some sp' \<and> in_extents idx (sp_extent sp') \<and> span_ptr sp' idx = span_ptr sp j)"
    using d sp' by metis
next
  fix ds assume a: "length ds = length (sp_extent sp) \<and> oob \<notin> set ds
    \<and> (\<exists>sp' idx. getSubViewDir sp (boundaryDirection ds lo up) = Some sp' \<and> in_extents idx (sp_extent sp') \<and> span_ptr sp' idx = span_ptr sp j)"
  then have d: "length ds = length (sp_extent sp)" "oob \<notin> set ds" by blast+
  obtain sp' os where sp': "getSubViewDir sp (boundaryDirection ds lo up) = Some sp'"
    "\<forall>idx. in_extents idx (sp_extent sp') \<longrightarrow> in_extents (vec_add os idx) (sp_extent sp) \<and> span_ptr sp' idx = span_ptr sp (vec_add os idx)"
    "(\<exists>idx. in_extents idx (sp_extent sp') \<and> vec_add os idx = j) = (\<forall>i < length ds. ds ! i = dir_class (sp_extent sp) lo up j i)"
    using halo_subView[OF ok halo d] j by blast
  obtain idx where idx: "in_extents idx (sp_extent sp')" "span_ptr sp' idx = span_ptr sp j" using a sp'(1) by auto
  then have i: "in_extents (vec_add os idx) (sp_extent sp)" "span_ptr sp (vec_add os idx) = span_ptr sp j" using sp'(2) by auto
  have "vec_add os idx = j"
    using elem_bytes_disjoint[OF ok i(1) j] span_okD(1)[OF ok] by (auto simp: elem_bytes_def i(2))
  then have "\<forall>i < length ds. ds ! i = dir_class (sp_extent sp) lo up j i" using sp'(3) idx(1) by blast
  then show "ds = map (dir_class (sp_extent sp) lo up j) [0..<length (sp_extent sp)]"
    using d(1) by (intro nth_equalityI) simp_all
qed

lemma halo_subViews_tile_witness:
  "\<exists>!ds. length ds = 2 \<and> oob \<notin> set ds
    \<and> (\<exists>sp' idx. getSubViewDir \<lparr>sp_ptr = 64, sp_sizeof = 4, sp_extent = [4, 5], sp_pitch = [32], sp_align = None\<rparr>
          (boundaryDirection ds [1, 1] [2, 1]) = Some sp' \<and> in_extents idx (sp_extent sp')
        \<and> span_ptr sp' idx = span_ptr \<lparr>sp_ptr = 64, sp_sizeof = 4, sp_extent = [4, 5 :: u32], sp_pitch = [32], sp_align = None\<rparr> [3, 2])"
proof -
  let ?sp = "\<lparr>sp_ptr = 64, sp_sizeof = 4, sp_extent = [4, 5 :: u32], sp_pitch = [32], sp_align = None\<rparr>"
  have "span_ok 256 ?sp" by (simp add: span_ok_def span_getPitches_split)
  moreover have "halos_in (sp_extent ?sp) [1, 1] [2, 1]" by (simp add: halos_in_def All_less_Suc)
  moreover have "in_extents [3, 2] (sp_extent ?sp)" by simp
  ultimately have "\<exists>!ds. length ds = length (sp_extent ?sp) \<and> oob \<notin> set ds
    \<and> (\<exists>sp' idx. getSubViewDir ?sp (boundaryDirection ds [1, 1] [2, 1]) = Some sp' \<and> in_extents idx (sp_extent sp')
        \<and> span_ptr sp' idx = span_ptr ?sp [3, 2])" by (rule halo_subViews_tile)
  moreover have "length (sp_extent ?sp) = 2" by simp
  ultimately show ?thesis by (simp only:)
qed

section \<open>Nested C arrays\<close>

text \<open>
  \<^verbatim>\<open>CArrayType\<close> wraps the element type in one array per step; the index of the extent it takes is computed
  from both counters, the number of dimensions left and the step, in 32 bits. An access resolves one
  index after the other: the address of an array element is the start of the array plus the index times
  the size of the element type.
\<close>

datatype carray = CElem nat | CArray carray nat

fun carray_sizeof :: "carray \<Rightarrow> nat" where
  "carray_sizeof (CElem s) = s"
| "carray_sizeof (CArray t n) = n * carray_sizeof t"

fun CArrayType :: "carray \<Rightarrow> nat vec \<Rightarrow> nat \<Rightarrow> nat \<Rightarrow> carray" where
  "CArrayType T extents numDims d =
     (if numDims \<le> 1 then CArray T (cvec_index extents 0)
      else CArrayType (CArray T (cvec_index extents (unat (of_nat numDims - of_nat d - 1 :: u32)))) extents (numDims - 1) (d + 1))"

declare CArrayType.simps [simp del]

fun resolveArrayAccess :: "carray \<Rightarrow> nat \<Rightarrow> nat vec \<Rightarrow> nat" where
  "resolveArrayAccess (CArray t n) ptr (i # is) = resolveArrayAccess t (ptr + i * carray_sizeof t) is"
| "resolveArrayAccess t ptr is = ptr"

fun carray_extents :: "carray \<Rightarrow> nat vec" where
  "carray_extents (CElem s) = []"
| "carray_extents (CArray t n) = n # carray_extents t"

definition mdSpanArray_getPitches :: "nat \<Rightarrow> carray \<Rightarrow> nat vec" where
  "mdSpanArray_getPitches sizeofValue T = calculatePitchesFromExtents sizeofValue (carray_extents T)"

text \<open>The array type with given extents, the outermost first.\<close>

definition nest :: "carray \<Rightarrow> nat list \<Rightarrow> carray" where
  "nest T es = foldr (\<lambda>e t. CArray t e) es T"

lemma nest_simps: "carray_extents (nest (CElem s) es) = es" "carray_sizeof (nest (CElem s) es) = prod_list es * s"
  by (induction es) (simp_all add: nest_def)

lemma resolve_nest: "length is = length es \<Longrightarrow> resolveArrayAccess (nest (CElem s) es) ptr is = ptr + s * lin es is"
proof (induction es arbitrary: ptr "is")
  case (Cons e es)
  then obtain i "is'" where "is = i # is'" "length is' = length es" by (cases "is") auto
  then show ?case using Cons.IH by (simp add: nest_def nest_simps[unfolded nest_def] algebra_simps)
qed (simp add: nest_def)

text \<open>The nested access finds an element where the pitches of the span put it.\<close>

theorem mdSpanArray_access:
  fixes s :: nat
  assumes "es \<noteq> []" "length is = length es"
  shows "resolveArrayAccess (nest (CElem s) es) ptr is
    = ptr + (\<Sum>d\<leftarrow>[0..<length es]. is ! d * mdSpanArray_getPitches s (nest (CElem s) es) ! d)"
  using resolve_nest[OF assms(2)] pitches_lin[OF assms, of s] by (simp add: mdSpanArray_getPitches_def nest_simps mult.commute)

lemma CArrayType_shapes:
  "CArrayType T [a] 1 0 = nest T [a]" "CArrayType T [a, b] 2 0 = nest T [a, b]" "CArrayType T [a, b, c] 3 0 = nest T [a, a, c]"
  by (simp_all add: CArrayType.simps nest_def cvec_index_def)

text \<open>
  Property C39. The array type a shared array of compile-time extents gets: in one and two dimensions it has the
  extents asked for, but in three dimensions the second extent is a copy of the first. If the second is
  larger, an access inside the extents asked for ends behind the array.
\<close>

theorem shared_array_shape:
  "carray_extents (CArrayType (CElem s) [a] 1 0) = [a]
   \<and> carray_extents (CArrayType (CElem s) [a, b] 2 0) = [a, b]
   \<and> carray_extents (CArrayType (CElem s) [a, b, c] 3 0) = [a, a, c]
   \<and> (0 < s \<and> 0 < a \<and> a < b \<and> 0 < c \<longrightarrow>
        in_extents [a - 1, b - 1, c - 1] [a, b, c]
      \<and> ptr + carray_sizeof (CArrayType (CElem s) [a, b, c] 3 0)
          \<le> resolveArrayAccess (CArrayType (CElem s) [a, b, c] 3 0) ptr [a - 1, b - 1, c - 1])"
proof -
  have "a * (a * c) * s \<le> s * ((a - 1) * (a * c) + ((b - 1) * c + (c - 1)))" if "0 < a" "a < b"
  proof -
    have "a * (a * c) = (a - 1) * (a * c) + a * c" using that(1) by (cases a) simp_all
    moreover have "a * c \<le> (b - 1) * c" using that(2) by (intro mult_le_mono1) simp
    ultimately have "a * (a * c) \<le> (a - 1) * (a * c) + ((b - 1) * c + (c - 1))" by linarith
    then show ?thesis unfolding mult.commute[of _ s] by (rule mult_le_mono2)
  qed
  then have "a * (a * c) * s \<le> s * lin [a, a, c] [a - 1, b - 1, c - 1]" if "0 < a" "a < b" using that by simp
  moreover have "resolveArrayAccess (nest (CElem s) [a, a, c]) ptr [a - 1, b - 1, c - 1] = ptr + s * lin [a, a, c] [a - 1, b - 1, c - 1]"
    by (rule resolve_nest) simp
  ultimately show ?thesis unfolding CArrayType_shapes nest_simps by (simp del: lin.simps)
qed

lemma shared_array_shape_witness:
  "0 + carray_sizeof (CArrayType (CElem 4) [2, 4, 8] 3 0) \<le> resolveArrayAccess (CArrayType (CElem 4) [2, 4, 8] 3 0) 0 [2 - 1, 4 - 1, 8 - 1]"
  using shared_array_shape[of 4 2 4 8 0] by simp

section \<open>The index generator\<close>

text \<open>A container without memory: the element at an index is its linear index.\<close>

definition linearizedIdxGenerator_access :: "'a::semiring_modulo vec \<Rightarrow> 'a vec \<Rightarrow> 'a" where
  "linearizedIdxGenerator_access extents idx = linearize extents idx"

definition linearizedIdxGenerator_getPitches :: "'a::semiring_modulo \<Rightarrow> 'a vec \<Rightarrow> 'a vec" where
  "linearizedIdxGenerator_getPitches sizeofValue extents = calculatePitchesFromExtents sizeofValue extents"

text \<open>Loading a SIMD pack advances the innermost index only.\<close>

definition linearizedIdxGenerator_load :: "nat \<Rightarrow> nat vec \<Rightarrow> nat vec \<Rightarrow> nat vec" where
  "linearizedIdxGenerator_load width extents idx =
     vec_generate width (\<lambda>i. linearizedIdxGenerator_access extents (vec_add idx (vec_rAssign (vec_fill (length idx) 0) i)))"

lemma lin_snoc: "length es = length is \<Longrightarrow> lin (es @ [e]) (is @ [i]) = lin es is * e + (i :: nat)"
  by (induction es "is" rule: list_induct2) (simp_all add: algebra_simps)

text \<open>A pack holds consecutive linear indices.\<close>

lemma linearizedIdxGenerator_load_consecutive:
  assumes "length idx = length extents" "extents \<noteq> []"
  shows "linearizedIdxGenerator_load w extents idx = map (\<lambda>i. linearize extents idx + i) [0..<w]"
proof -
  obtain es e where e: "extents = es @ [e]" using assms(2) by (cases extents rule: rev_cases) auto
  obtain "is" x where x: "idx = is @ [x]" using assms by (cases idx rule: rev_cases) auto
  have l: "length es = length is" using assms(1) e x by simp
  have u: "(replicate (Suc n) 0)[n := i] = replicate n 0 @ [i]" for n i :: nat by (induction n) simp_all
  have "vec_rAssign (vec_fill (length idx) 0) i = replicate (length is) 0 @ [i]" for i :: nat
    using u[of "length is" i] by (simp add: x vec_rAssign_def vec_rAssignAt_def vec_fill_replicate)
  then have "vec_add idx (vec_rAssign (vec_fill (length idx) 0) i) = is @ [x + i]" for i
    by (intro nth_equalityI) (auto simp: x vec_op_def nth_append)
  moreover have "linearize extents (is @ [y]) = lin es is * e + y" for y
    using linearize_lin[of extents "is @ [y]"] lin_snoc[OF l] l e by simp
  ultimately show ?thesis
    by (simp add: linearizedIdxGenerator_load_def linearizedIdxGenerator_access_def vec_generate_def x add.assoc)
qed

end
