(* ===== verification/Buffers.thy ===== *)
theory Buffers
  imports Views
begin

text \<open>
  Buffers with managed life time (\<^verbatim>\<open>onHost/mem/SharedBuffer.hpp\<close>, \<^verbatim>\<open>onHost/mem/ManagedDealloc.hpp\<close>): a
  buffer is a view and a shared pointer to the object that frees the memory. The variables of the program, the
  tasks that keep a buffer alive and the objects with their use counts are the state; each operation on a
  buffer is a step. The log records the destructor actions and the calls of the free operation.
\<close>

section \<open>State\<close>

text \<open>
  \<^verbatim>\<open>ManagedDealloc\<close>: the actions to run and the use count of its shared pointer. The region is the memory its free
  operation releases.
\<close>

record managed =
  md_actions :: "nat list"
  md_count :: nat
  md_start :: nat
  md_stop :: nat

record 'i buffer =
  b_view :: "'i span"
  b_deleter :: "nat option"

datatype effect = Action nat nat | FreeOp nat

record 'i world =
  w_buffers :: "'i buffer option list"
  w_tasks :: "nat list list"
  w_managed :: "managed list"
  w_log :: "effect list"

definition world_init :: "nat \<Rightarrow> 'i world" where
  "world_init numQueues = \<lparr>w_buffers = [], w_tasks = replicate numQueues [], w_managed = [], w_log = []\<rparr>"

section \<open>Shared pointers\<close>

definition acquire :: "nat option \<Rightarrow> 'i world \<Rightarrow> 'i world" where
  "acquire p w =
     (case p of
        None \<Rightarrow> w
      | Some d \<Rightarrow> w\<lparr>w_managed := (w_managed w)[d := (w_managed w ! d)\<lparr>md_count := md_count (w_managed w ! d) + 1\<rparr>]\<rparr>)"

text \<open>The destructor of \<^verbatim>\<open>ManagedDealloc\<close> runs the actions in the order they were added, then the free operation.\<close>

definition managed_destroy :: "nat \<Rightarrow> 'i world \<Rightarrow> 'i world" where
  "managed_destroy d w = w\<lparr>w_log := w_log w @ map (Action d) (md_actions (w_managed w ! d)) @ [FreeOp d]\<rparr>"

definition release :: "nat option \<Rightarrow> 'i world \<Rightarrow> 'i world" where
  "release p w =
     (case p of
        None \<Rightarrow> w
      | Some d \<Rightarrow>
          let n = md_count (w_managed w ! d) - 1;
              w = w\<lparr>w_managed := (w_managed w)[d := (w_managed w ! d)\<lparr>md_count := n\<rparr>]\<rparr>
          in if n = 0 then managed_destroy d w else w)"

section \<open>Operations\<close>

definition get_buffer :: "nat \<Rightarrow> 'i world \<Rightarrow> 'i buffer option" where
  "get_buffer i w = (if i < length (w_buffers w) then w_buffers w ! i else None)"

definition new_variable :: "'i buffer \<Rightarrow> 'i world \<Rightarrow> 'i world" where
  "new_variable b w = w\<lparr>w_buffers := w_buffers w @ [Some b]\<rparr>"

definition set_variable :: "nat \<Rightarrow> 'i buffer option \<Rightarrow> 'i world \<Rightarrow> 'i world" where
  "set_variable i b w = w\<lparr>w_buffers := (w_buffers w)[i := b]\<rparr>"

text \<open>The public constructor wraps a deleter for the given memory.\<close>

definition sharedBuffer :: "'i span \<Rightarrow> nat \<Rightarrow> nat \<Rightarrow> 'i world \<Rightarrow> 'i world" where
  "sharedBuffer view start stop w =
     (let d = length (w_managed w)
      in new_variable \<lparr>b_view = view, b_deleter = Some d\<rparr>
           (w\<lparr>w_managed := w_managed w @ [\<lparr>md_actions = [], md_count = 1, md_start = start, md_stop = stop\<rparr>]\<rparr>))"

text \<open>A copy, a read-only copy and the sub-buffers share the deleter.\<close>

definition share :: "'i span \<Rightarrow> nat option \<Rightarrow> 'i world \<Rightarrow> 'i world" where
  "share view p w = new_variable \<lparr>b_view = view, b_deleter = p\<rparr> (acquire p w)"

definition buffer_copy :: "nat \<Rightarrow> 'i world \<Rightarrow> 'i world option" where
  "buffer_copy i w = map_option (\<lambda>b. share (b_view b) (b_deleter b) w) (get_buffer i w)"

definition getConstSharedBuffer :: "nat \<Rightarrow> 'i::len word world \<Rightarrow> 'i word world option" where
  "getConstSharedBuffer i w =
     Option.bind (get_buffer i w) (\<lambda>b.
       map_option (\<lambda>view. share view (b_deleter b) w) (span_getConstMdSpan (b_view b)))"

definition getSubSharedBuffer :: "nat \<Rightarrow> 'i::len word vec \<Rightarrow> 'i word world \<Rightarrow> 'i word world option" where
  "getSubSharedBuffer i extents w =
     Option.bind (get_buffer i w) (\<lambda>b.
       map_option (\<lambda>view. share view (b_deleter b) w) (getSubView (b_view b) extents))"

definition getSubSharedBufferAt :: "nat \<Rightarrow> 'i::len word vec \<Rightarrow> 'i word vec \<Rightarrow> 'i word world \<Rightarrow> 'i word world option" where
  "getSubSharedBufferAt i offsets extents w =
     Option.bind (get_buffer i w) (\<lambda>b.
       map_option (\<lambda>view. share view (b_deleter b) w) (getSubViewAt (b_view b) offsets extents))"

text \<open>Moving leaves the view of the source behind, but not its deleter.\<close>

definition buffer_move :: "nat \<Rightarrow> 'i world \<Rightarrow> 'i world option" where
  "buffer_move i w =
     map_option (\<lambda>b. new_variable b (set_variable i (Some (b\<lparr>b_deleter := None\<rparr>)) w)) (get_buffer i w)"

definition buffer_assign :: "nat \<Rightarrow> nat \<Rightarrow> 'i world \<Rightarrow> 'i world option" where
  "buffer_assign i j w =
     Option.bind (get_buffer i w) (\<lambda>b. Option.bind (get_buffer j w) (\<lambda>c.
       Some (release (b_deleter b) (set_variable i (Some c) (acquire (b_deleter c) w)))))"

definition buffer_moveAssign :: "nat \<Rightarrow> nat \<Rightarrow> 'i world \<Rightarrow> 'i world option" where
  "buffer_moveAssign i j w =
     Option.bind (get_buffer j w) (\<lambda>c.
       let w1 = set_variable j (Some (c\<lparr>b_deleter := None\<rparr>)) w
       in map_option (\<lambda>b. release (b_deleter b) (set_variable i (Some c) w1)) (get_buffer i w1))"

definition buffer_destroy :: "nat \<Rightarrow> 'i world \<Rightarrow> 'i world option" where
  "buffer_destroy i w = map_option (\<lambda>b. release (b_deleter b) (set_variable i None w)) (get_buffer i w)"

text \<open>\<open>None\<close> is the access through the null pointer of a moved-from buffer.\<close>

definition addDestructorAction :: "nat \<Rightarrow> nat \<Rightarrow> 'i world \<Rightarrow> 'i world option" where
  "addDestructorAction i action w =
     Option.bind (get_buffer i w) (\<lambda>b.
       map_option (\<lambda>d. w\<lparr>w_managed := (w_managed w)[d := (w_managed w ! d)\<lparr>md_actions := md_actions (w_managed w ! d) @ [action]\<rparr>]\<rparr>)
         (b_deleter b))"

text \<open>The task that keeps a buffer alive captures the deleter; it is destroyed when the queue has reached it.\<close>

definition keepAlive :: "nat \<Rightarrow> nat \<Rightarrow> 'i world \<Rightarrow> 'i world option" where
  "keepAlive i q w =
     Option.bind (get_buffer i w) (\<lambda>b.
       if q < length (w_tasks w)
       then case b_deleter b of
              None \<Rightarrow> Some w
            | Some d \<Rightarrow> let w = acquire (Some d) w in Some (w\<lparr>w_tasks := (w_tasks w)[q := w_tasks w ! q @ [d]]\<rparr>)
       else None)"

definition task_destroyed :: "nat \<Rightarrow> 'i world \<Rightarrow> 'i world option" where
  "task_destroyed q w =
     (if q < length (w_tasks w)
      then case w_tasks w ! q of
             [] \<Rightarrow> None
           | d # ds \<Rightarrow> Some (release (Some d) (w\<lparr>w_tasks := (w_tasks w)[q := ds]\<rparr>))
      else None)"

definition getUseCount :: "nat \<Rightarrow> 'i world \<Rightarrow> nat option" where
  "getUseCount i w =
     map_option (\<lambda>b. case b_deleter b of None \<Rightarrow> 0 | Some d \<Rightarrow> md_count (w_managed w ! d)) (get_buffer i w)"

definition buffer_valid :: "nat \<Rightarrow> 'i world \<Rightarrow> bool option" where
  "buffer_valid i w = map_option (\<lambda>b. b_deleter b \<noteq> None) (get_buffer i w)"

datatype 'i buffer_call =
    NewBuffer "'i span" nat nat | CopyBuffer nat | ConstBuffer nat | SubBuffer nat "'i vec" | SubBufferAt nat "'i vec" "'i vec"
  | MoveBuffer nat | AssignBuffer nat nat | MoveAssignBuffer nat nat | DestroyBuffer nat
  | AddAction nat nat | KeepAlive nat nat | TaskDestroyed nat

fun buffer_step :: "'w::len word buffer_call \<Rightarrow> 'w word world \<Rightarrow> 'w word world option" where
  "buffer_step (NewBuffer view start stop) w = Some (sharedBuffer view start stop w)"
| "buffer_step (CopyBuffer i) w = buffer_copy i w"
| "buffer_step (ConstBuffer i) w = getConstSharedBuffer i w"
| "buffer_step (SubBuffer i extents) w = getSubSharedBuffer i extents w"
| "buffer_step (SubBufferAt i offsets extents) w = getSubSharedBufferAt i offsets extents w"
| "buffer_step (MoveBuffer i) w = buffer_move i w"
| "buffer_step (AssignBuffer i j) w = buffer_assign i j w"
| "buffer_step (MoveAssignBuffer i j) w = buffer_moveAssign i j w"
| "buffer_step (DestroyBuffer i) w = buffer_destroy i w"
| "buffer_step (AddAction i action) w = addDestructorAction i action w"
| "buffer_step (KeepAlive i q) w = keepAlive i q w"
| "buffer_step (TaskDestroyed q) w = task_destroyed q w"

text \<open>
  What the caller has to guarantee: a new buffer's view lies in the memory its deleter frees, and the offset
  and extents of a sub-buffer do not wrap around the index type.
\<close>

fun call_ok :: "'w::len word buffer_call \<Rightarrow> bool" where
  "call_ok (NewBuffer view start stop) = (span_ok stop view \<and> start \<le> sp_ptr view)"
| "call_ok (SubBufferAt i offsets extents) = list_all2 (\<lambda>a b. unat a + unat b < 2 ^ LENGTH('w)) offsets extents"
| "call_ok c = True"

inductive reachable_world :: "nat \<Rightarrow> 'w::len word world \<Rightarrow> bool" for n where
  world_start: "reachable_world n (world_init n)"
| world_step: "reachable_world n w \<Longrightarrow> call_ok c \<Longrightarrow> buffer_step c w = Some w' \<Longrightarrow> reachable_world n w'"

section \<open>Holders\<close>

definition ptr_mset :: "nat option \<Rightarrow> nat multiset" where
  "ptr_mset p = (case p of None \<Rightarrow> {#} | Some d \<Rightarrow> {#d#})"

definition var_mset :: "'i buffer option \<Rightarrow> nat multiset" where
  "var_mset b = (case b of None \<Rightarrow> {#} | Some b \<Rightarrow> ptr_mset (b_deleter b))"

definition holders :: "'i world \<Rightarrow> nat multiset" where
  "holders w = sum_list (map var_mset (w_buffers w)) + sum_list (map mset (w_tasks w))"

fun effect_of :: "effect \<Rightarrow> nat" where
  "effect_of (Action d a) = d"
| "effect_of (FreeOp d) = d"

definition log_of :: "nat \<Rightarrow> 'i world \<Rightarrow> effect list" where
  "log_of d w = filter (\<lambda>e. effect_of e = d) (w_log w)"

definition in_region :: "managed list \<Rightarrow> 'i::len word buffer \<Rightarrow> bool" where
  "in_region ms b \<longleftrightarrow> (case b_deleter b of None \<Rightarrow> True
     | Some d \<Rightarrow> d < length ms \<and> span_ok (md_stop (ms ! d)) (b_view b) \<and> md_start (ms ! d) \<le> sp_ptr (b_view b))"

text \<open>
  The use counts are the numbers of holders, pending ones included; what is logged of an object is its
  destructor once nobody holds it, and nothing before.
\<close>

definition counted :: "nat multiset \<Rightarrow> 'i::len word world \<Rightarrow> bool" where
  "counted X w \<longleftrightarrow>
     (\<forall>d < length (w_managed w). md_count (w_managed w ! d) = count (holders w + X) d
        \<and> log_of d w = (if md_count (w_managed w ! d) = 0 then map (Action d) (md_actions (w_managed w ! d)) @ [FreeOp d] else []))
   \<and> set_mset (holders w + X) \<subseteq> {..<length (w_managed w)} \<and> effect_of ` set (w_log w) \<subseteq> {..<length (w_managed w)}
   \<and> (\<forall>b. Some b \<in> set (w_buffers w) \<longrightarrow> in_region (w_managed w) b)"

lemma countedD:
  assumes "counted X w"
  shows "d < length (w_managed w) \<Longrightarrow> md_count (w_managed w ! d) = count (holders w + X) d"
    "d < length (w_managed w) \<Longrightarrow>
       log_of d w = (if md_count (w_managed w ! d) = 0 then map (Action d) (md_actions (w_managed w ! d)) @ [FreeOp d] else [])"
    "d \<in># holders w + X \<Longrightarrow> d < length (w_managed w)"
    "e \<in> set (w_log w) \<Longrightarrow> effect_of e < length (w_managed w)"
    "Some b \<in> set (w_buffers w) \<Longrightarrow> in_region (w_managed w) b"
  using assms unfolding counted_def by blast+

lemma sum_list_update_mset: "i < length xs \<Longrightarrow> sum_list (xs[i := x]) + xs ! i = sum_list xs + (x :: 'a::comm_monoid_add)"
proof (induction xs arbitrary: i)
  case (Cons y ys)
  then show ?case by (cases i) (simp_all add: ac_simps)
qed simp

lemma holders_set_variable:
  assumes "i < length (w_buffers w)"
  shows "holders (set_variable i b w) + var_mset (w_buffers w ! i) = holders w + var_mset b"
proof -
  have "sum_list ((map var_mset (w_buffers w))[i := var_mset b]) + map var_mset (w_buffers w) ! i = sum_list (map var_mset (w_buffers w)) + var_mset b"
    by (rule sum_list_update_mset) (simp add: assms)
  then show ?thesis using assms by (simp add: holders_def set_variable_def map_update ac_simps)
qed

lemma holders_new_variable [simp]: "holders (new_variable b w) = holders w + ptr_mset (b_deleter b)"
  by (simp add: holders_def new_variable_def var_mset_def ac_simps)

lemma holders_managed [simp]: "holders (w\<lparr>w_managed := ms\<rparr>) = holders w" "holders (w\<lparr>w_log := l\<rparr>) = holders w"
  by (simp_all add: holders_def)

lemma in_sum_list_mset: "x \<in> set xs \<Longrightarrow> d \<in># x \<Longrightarrow> d \<in># sum_list xs"
  by (induction xs) auto

lemma var_holds:
  assumes "get_buffer i w = Some b" "b_deleter b = Some d"
  shows "d \<in># holders w"
proof -
  have "i < length (w_buffers w)" "w_buffers w ! i = Some b" using assms(1) by (auto simp: get_buffer_def split: if_splits)
  then have "var_mset (Some b) \<in> set (map var_mset (w_buffers w))" by (metis image_eqI list.set_map nth_mem)
  then have "d \<in># sum_list (map var_mset (w_buffers w))"
    by (rule in_sum_list_mset) (simp add: var_mset_def ptr_mset_def assms(2))
  then show ?thesis by (simp add: holders_def)
qed

section \<open>Acquiring and releasing\<close>

lemma acquire_sel [simp]:
  "w_buffers (acquire p w) = w_buffers w" "w_tasks (acquire p w) = w_tasks w" "w_log (acquire p w) = w_log w"
  "length (w_managed (acquire p w)) = length (w_managed w)" "holders (acquire p w) = holders w"
  "log_of d (acquire p w) = log_of d w"
  by (simp_all add: acquire_def log_of_def split: option.splits)

lemma acquire_counted:
  assumes c: "counted X w" and h: "\<And>d. p = Some d \<Longrightarrow> d \<in># holders w + X"
  shows "counted (X + ptr_mset p) (acquire p w)"
proof (cases p)
  case None
  then show ?thesis using c by (simp add: acquire_def ptr_mset_def)
next
  case (Some d)
  let ?m = "w_managed w" and ?m' = "w_managed (acquire p w)"
  have d: "d < length ?m" using countedD(3)[OF c h[OF Some]] .
  have m': "?m' = ?m[d := (?m ! d)\<lparr>md_count := md_count (?m ! d) + 1\<rparr>]" by (simp add: acquire_def Some)
  have pos: "0 < md_count (?m ! d)" using countedD(1)[OF c d] h[OF Some] by (simp flip: count_greater_zero_iff)
  show ?thesis
    unfolding counted_def
  proof (intro conjI allI impI)
    fix e assume "e < length ?m'"
    then have e: "e < length ?m" by (simp add: m')
    show "md_count (?m' ! e) = count (holders (acquire p w) + (X + ptr_mset p)) e"
      using countedD(1)[OF c e] d e by (auto simp: m'[unfolded Some] Some ptr_mset_def nth_list_update)
    show "log_of e (acquire p w) = (if md_count (?m' ! e) = 0 then map (Action e) (md_actions (?m' ! e)) @ [FreeOp e] else [])"
      using countedD(2)[OF c e] d e pos by (auto simp: m' nth_list_update)
  next
    fix b assume "Some b \<in> set (w_buffers (acquire p w))"
    then show "in_region ?m' b" using countedD(5)[OF c, of b] d by (auto simp: in_region_def m' nth_list_update split: option.splits)
  qed (use c d in \<open>auto simp: counted_def Some ptr_mset_def m'\<close>)
qed

lemma release_sel [simp]:
  "w_buffers (release p w) = w_buffers w" "w_tasks (release p w) = w_tasks w"
  "length (w_managed (release p w)) = length (w_managed w)" "holders (release p w) = holders w"
  by (simp_all add: release_def managed_destroy_def Let_def split: option.splits)

lemma release_counted:
  assumes c: "counted (X + ptr_mset p) w"
  shows "counted X (release p w)"
proof (cases p)
  case None
  then show ?thesis using c by (simp add: release_def ptr_mset_def)
next
  case (Some d)
  let ?m = "w_managed w" and ?w = "release p w"
  let ?m' = "w_managed ?w"
  have d: "d < length ?m" using countedD(3)[OF c, of d] by (simp add: Some ptr_mset_def)
  have n: "md_count (?m ! d) = count (holders w + X) d + 1" using countedD(1)[OF c d] by (simp add: Some ptr_mset_def)
  have m': "?m' = ?m[d := (?m ! d)\<lparr>md_count := count (holders w + X) d\<rparr>]"
    using n by (simp add: release_def managed_destroy_def Some Let_def)
  have empty: "log_of d w = []" using countedD(2)[OF c d] n by simp
  have log: "w_log ?w = w_log w @ (if count (holders w + X) d = 0 then map (Action d) (md_actions (?m ! d)) @ [FreeOp d] else [])"
    using n d by (simp add: release_def managed_destroy_def Some Let_def count_eq_zero_iff)
  show ?thesis
    unfolding counted_def
  proof (intro conjI allI impI)
    fix e assume "e < length ?m'"
    then have e: "e < length ?m" by (simp add: m')
    show "md_count (?m' ! e) = count (holders ?w + X) e"
      using countedD(1)[OF c e] d e by (auto simp: m'[unfolded Some] Some ptr_mset_def nth_list_update)
    show "log_of e ?w = (if md_count (?m' ! e) = 0 then map (Action e) (md_actions (?m' ! e)) @ [FreeOp e] else [])"
    proof (cases "e = d")
      case True
      have "filter (\<lambda>x. effect_of x = d) (map (Action d) as) = map (Action d) as" for as by (induction as) simp_all
      then show ?thesis using True empty d by (simp add: log_of_def log m' count_eq_zero_iff)
    next
      case False
      have "filter (\<lambda>x. effect_of x = e) (map (Action d) as) = []" for as using False by (induction as) simp_all
      then have "log_of e ?w = log_of e w" using False by (simp add: log_of_def log)
      then show ?thesis using countedD(2)[OF c e] False by (simp add: m')
    qed
  next
    fix b assume "Some b \<in> set (w_buffers ?w)"
    then show "in_region ?m' b" using countedD(5)[OF c, of b] d by (auto simp: in_region_def m' nth_list_update split: option.splits)
  next
    show "effect_of ` set (w_log ?w) \<subseteq> {..<length ?m'}" using c d by (auto simp: counted_def log m' split: if_splits)
  qed (use c in \<open>auto simp: counted_def Some ptr_mset_def m'\<close>)
qed

section \<open>Every operation keeps the counts\<close>

lemma counted_cong:
  assumes "counted X w" "holders w' + X' = holders w + X" "w_managed w' = w_managed w" "w_log w' = w_log w"
    and "\<And>b. Some b \<in> set (w_buffers w') \<Longrightarrow> in_region (w_managed w) b"
  shows "counted X' w'"
  using assms unfolding counted_def log_of_def by metis

lemma new_variable_counted:
  assumes "counted (X + ptr_mset (b_deleter b)) w" "in_region (w_managed w) b"
  shows "counted X (new_variable b w)"
proof (rule counted_cong[OF assms(1)])
  fix c assume "Some c \<in> set (w_buffers (new_variable b w))"
  then have "c = b \<or> Some c \<in> set (w_buffers w)" by (auto simp: new_variable_def)
  then show "in_region (w_managed w) c" using countedD(5)[OF assms(1)] assms(2) by blast
qed (simp_all add: new_variable_def holders_def var_mset_def ac_simps)

lemma set_variable_counted:
  assumes "i < length (w_buffers w)" "counted (X + var_mset b) w" "\<And>c. b = Some c \<Longrightarrow> in_region (w_managed w) c"
  shows "counted (X + var_mset (w_buffers w ! i)) (set_variable i b w)"
proof (rule counted_cong[OF assms(2)])
  show "holders (set_variable i b w) + (X + var_mset (w_buffers w ! i)) = holders w + (X + var_mset b)"
    using holders_set_variable[OF assms(1), of b] by (simp add: ac_simps)
next
  fix c assume "Some c \<in> set (w_buffers (set_variable i b w))"
  then have "b = Some c \<or> Some c \<in> set (w_buffers w)" by (auto simp: set_variable_def dest: set_update_subset_insert[THEN subsetD])
  then show "in_region (w_managed w) c" using countedD(5)[OF assms(2)] assms(3) by blast
qed (simp_all add: set_variable_def)

lemma in_region_acquire: "in_region (w_managed (acquire p w)) b \<longleftrightarrow> in_region (w_managed w) b"
proof (cases p)
  case (Some d)
  have "md_start ((w_managed w)[d := (w_managed w ! d)\<lparr>md_count := n\<rparr>] ! e) = md_start (w_managed w ! e)"
    "md_stop ((w_managed w)[d := (w_managed w ! d)\<lparr>md_count := n\<rparr>] ! e) = md_stop (w_managed w ! e)" for e n
    by (cases "d < length (w_managed w)"; cases "e = d"; simp add: list_update_beyond)+
  then show ?thesis by (simp add: acquire_def Some in_region_def split: option.split)
qed (simp add: acquire_def)

lemma get_bufferD:
  assumes "get_buffer i w = Some b"
  shows "i < length (w_buffers w)" "w_buffers w ! i = Some b" "Some b \<in> set (w_buffers w)"
  using assms by (auto simp: get_buffer_def split: if_splits) (metis nth_mem)

lemma share_counted:
  assumes c: "counted {#} w" and b: "get_buffer i w = Some b"
    and view: "in_region (w_managed w) \<lparr>b_view = view, b_deleter = b_deleter b\<rparr>"
  shows "counted {#} (share view (b_deleter b) w)"
proof -
  have "counted ({#} + ptr_mset (b_deleter b)) (acquire (b_deleter b) w)"
    by (rule acquire_counted[OF c]) (use var_holds[OF b] in simp)
  then show ?thesis unfolding share_def
    by (intro new_variable_counted) (simp_all add: in_region_acquire view)
qed

text \<open>Views of a buffer that stay inside its memory.\<close>

lemma in_region_view:
  assumes "in_region ms b" "\<And>mlen. span_ok mlen (b_view b) \<Longrightarrow> span_ok mlen view" "sp_ptr (b_view b) \<le> sp_ptr view"
  shows "in_region ms \<lparr>b_view = view, b_deleter = b_deleter b\<rparr>"
  using assms by (auto simp: in_region_def split: option.splits)

lemma mdSpan_ptr: "mdSpan p s es ps al = Some sp \<Longrightarrow> sp_ptr sp = p"
  by (auto simp: mdSpan_def)

lemma sub_ptr:
  "getSubView sp es = Some sp' \<Longrightarrow> sp_ptr sp \<le> sp_ptr sp'"
  "getSubViewAt sp os es = Some sp' \<Longrightarrow> sp_ptr sp \<le> sp_ptr sp'"
  "span_getConstMdSpan sp = Some sp' \<Longrightarrow> sp_ptr sp \<le> sp_ptr sp'"
  by (auto simp: getSubView_def getSubViewAt_def span_getConstMdSpan_def span_ptr_def Let_def dest!: mdSpan_ptr split: if_splits)

lemma const_span_ok: "span_ok mlen sp \<Longrightarrow> span_getConstMdSpan sp = Some sp' \<Longrightarrow> span_ok mlen sp'"
proof -
  assume a: "span_ok mlen sp" "span_getConstMdSpan sp = Some sp'"
  then have "sp' = sp" unfolding span_getConstMdSpan_def mdSpan_same_pitches[OF a(1)] by (cases sp) simp
  then show ?thesis using a(1) by simp
qed

lemma step_counted:
  assumes c: "counted {#} w" and ok: "call_ok call" and st: "buffer_step call w = Some w'"
  shows "counted {#} w'"
proof (cases call)
  case (NewBuffer view start stop)
  let ?m = "w_managed w @ [\<lparr>md_actions = [], md_count = 1, md_start = start, md_stop = stop\<rparr>]"
  let ?d = "length (w_managed w)"
  have fresh: "count (holders w) ?d = 0" using countedD(3)[OF c, of ?d] by (simp add: count_eq_zero_iff) blast
  have nolog: "log_of ?d w = []" using countedD(4)[OF c] by (fastforce simp: log_of_def filter_empty_conv)
  have old: "in_region ?m b" if "Some b \<in> set (w_buffers w)" for b
    using countedD(5)[OF c that] by (auto simp: in_region_def nth_append split: option.splits)
  have "counted ({#} + {#?d#}) (w\<lparr>w_managed := ?m\<rparr>)"
    unfolding counted_def
  proof (intro conjI allI impI)
    fix e assume "e < length (w_managed (w\<lparr>w_managed := ?m\<rparr>))"
    then have "e < ?d \<or> e = ?d" by auto
    then show "md_count (w_managed (w\<lparr>w_managed := ?m\<rparr>) ! e) = count (holders (w\<lparr>w_managed := ?m\<rparr>) + ({#} + {#?d#})) e"
      "log_of e (w\<lparr>w_managed := ?m\<rparr>) = (if md_count (w_managed (w\<lparr>w_managed := ?m\<rparr>) ! e) = 0
         then map (Action e) (md_actions (w_managed (w\<lparr>w_managed := ?m\<rparr>) ! e)) @ [FreeOp e] else [])"
      using countedD(1,2)[OF c, of e] fresh nolog by (auto simp: nth_append log_of_def count_eq_zero_iff)
  qed (use c old in \<open>auto simp: counted_def\<close>)
  then show ?thesis using st ok NewBuffer
    by (auto simp: sharedBuffer_def Let_def ptr_mset_def in_region_def intro!: new_variable_counted)
next
  case (CopyBuffer i)
  then obtain b where b: "get_buffer i w = Some b" and w': "w' = share (b_view b) (b_deleter b) w" using st by (auto simp: buffer_copy_def)
  show ?thesis unfolding w'
    by (rule share_counted[OF c b], rule in_region_view[OF countedD(5)[OF c get_bufferD(3)[OF b]]]) simp_all
next
  case (ConstBuffer i)
  then obtain b v where b: "get_buffer i w = Some b" "span_getConstMdSpan (b_view b) = Some v" and w': "w' = share v (b_deleter b) w"
    using st by (auto simp: getConstSharedBuffer_def bind_eq_Some_conv)
  show ?thesis unfolding w'
    by (rule share_counted[OF c b(1)], rule in_region_view[OF countedD(5)[OF c get_bufferD(3)[OF b(1)]]])
      (use const_span_ok[OF _ b(2)] sub_ptr(3)[OF b(2)] in auto)
next
  case (SubBuffer i es)
  then obtain b v where b: "get_buffer i w = Some b" "getSubView (b_view b) es = Some v" and w': "w' = share v (b_deleter b) w"
    using st by (auto simp: getSubSharedBuffer_def bind_eq_Some_conv)
  show ?thesis unfolding w'
    by (rule share_counted[OF c b(1)], rule in_region_view[OF countedD(5)[OF c get_bufferD(3)[OF b(1)]]])
      (use getSubView_ok[OF _ b(2)] sub_ptr(1)[OF b(2)] in auto)
next
  case (SubBufferAt i os es)
  then obtain b v where b: "get_buffer i w = Some b" "getSubViewAt (b_view b) os es = Some v" and w': "w' = share v (b_deleter b) w"
    using st by (auto simp: getSubSharedBufferAt_def bind_eq_Some_conv)
  have "list_all2 (\<lambda>a b. unat a + unat b < 2 ^ LENGTH('a)) os es" using ok SubBufferAt by simp
  then show ?thesis unfolding w'
    by (intro share_counted[OF c b(1)] in_region_view[OF countedD(5)[OF c get_bufferD(3)[OF b(1)]]])
      (use getSubViewAt_ok[OF _ b(2)] sub_ptr(2)[OF b(2)] in auto)
next
  case (MoveBuffer i)
  then obtain b where b: "get_buffer i w = Some b"
    and w': "w' = new_variable b (set_variable i (Some (b\<lparr>b_deleter := None\<rparr>)) w)" using st by (auto simp: buffer_move_def)
  note g = get_bufferD[OF b]
  have "counted ({#} + var_mset (w_buffers w ! i)) (set_variable i (Some (b\<lparr>b_deleter := None\<rparr>)) w)"
    by (rule set_variable_counted[OF g(1)]) (use c in \<open>simp_all add: var_mset_def ptr_mset_def in_region_def\<close>)
  then show ?thesis unfolding w'
    by (intro new_variable_counted) (use countedD(5)[OF c g(3)] in \<open>simp_all add: g(2) var_mset_def set_variable_def\<close>)
next
  case (AssignBuffer i j)
  then obtain b d where b: "get_buffer i w = Some b" "get_buffer j w = Some d"
    and w': "w' = release (b_deleter b) (set_variable i (Some d) (acquire (b_deleter d) w))"
    using st by (auto simp: buffer_assign_def bind_eq_Some_conv)
  note g = get_bufferD[OF b(1)]
  have "counted ({#} + ptr_mset (b_deleter d)) (acquire (b_deleter d) w)"
    by (rule acquire_counted[OF c]) (use var_holds[OF b(2)] in simp)
  then have "counted ({#} + var_mset (w_buffers (acquire (b_deleter d) w) ! i)) (set_variable i (Some d) (acquire (b_deleter d) w))"
    by (intro set_variable_counted)
      (use g countedD(5)[OF c get_bufferD(3)[OF b(2)]] in \<open>simp_all add: var_mset_def in_region_acquire\<close>)
  then show ?thesis unfolding w' by (intro release_counted) (simp add: g(2) var_mset_def)
next
  case (MoveAssignBuffer i j)
  then obtain b d where b: "get_buffer j w = Some d" "get_buffer i (set_variable j (Some (d\<lparr>b_deleter := None\<rparr>)) w) = Some b"
    and w': "w' = release (b_deleter b) (set_variable i (Some d) (set_variable j (Some (d\<lparr>b_deleter := None\<rparr>)) w))"
    using st by (auto simp: buffer_moveAssign_def bind_eq_Some_conv Let_def)
  note g = get_bufferD[OF b(1)] and h = get_bufferD[OF b(2)]
  have "counted ({#} + var_mset (w_buffers w ! j)) (set_variable j (Some (d\<lparr>b_deleter := None\<rparr>)) w)"
    by (rule set_variable_counted[OF g(1)]) (use c in \<open>simp_all add: var_mset_def ptr_mset_def in_region_def\<close>)
  then have "counted ({#} + var_mset (Some d)) (set_variable j (Some (d\<lparr>b_deleter := None\<rparr>)) w)" by (simp add: g(2))
  then have "counted ({#} + var_mset (w_buffers (set_variable j (Some (d\<lparr>b_deleter := None\<rparr>)) w) ! i))
      (set_variable i (Some d) (set_variable j (Some (d\<lparr>b_deleter := None\<rparr>)) w))"
    by (intro set_variable_counted[OF h(1)]) (use countedD(5)[OF c g(3)] in \<open>simp_all add: set_variable_def\<close>)
  then show ?thesis unfolding w' by (intro release_counted) (simp add: h(2) var_mset_def)
next
  case (DestroyBuffer i)
  then obtain b where b: "get_buffer i w = Some b" and w': "w' = release (b_deleter b) (set_variable i None w)"
    using st by (auto simp: buffer_destroy_def)
  note g = get_bufferD[OF b]
  have "counted ({#} + var_mset (w_buffers w ! i)) (set_variable i None w)"
    by (rule set_variable_counted[OF g(1)]) (use c in \<open>simp_all add: var_mset_def\<close>)
  then show ?thesis unfolding w' by (intro release_counted) (simp add: g(2) var_mset_def)
next
  case (AddAction i action)
  then obtain b d where b: "get_buffer i w = Some b" "b_deleter b = Some d"
    and w': "w' = w\<lparr>w_managed := (w_managed w)[d := (w_managed w ! d)\<lparr>md_actions := md_actions (w_managed w ! d) @ [action]\<rparr>]\<rparr>"
    using st by (auto simp: addDestructorAction_def bind_eq_Some_conv)
  have pos: "md_count (w_managed w ! d) \<noteq> 0" and d: "d < length (w_managed w)"
    using countedD(1,3)[OF c, of d] var_holds[OF b] by (auto simp: count_eq_zero_iff)
  show ?thesis unfolding counted_def w'
  proof (intro conjI allI impI)
    fix b' assume "Some b' \<in> set (w_buffers (w\<lparr>w_managed := (w_managed w)[d := (w_managed w ! d)\<lparr>md_actions := md_actions (w_managed w ! d) @ [action]\<rparr>]\<rparr>))"
    then show "in_region (w_managed (w\<lparr>w_managed := (w_managed w)[d := (w_managed w ! d)\<lparr>md_actions := md_actions (w_managed w ! d) @ [action]\<rparr>]\<rparr>)) b'"
      using countedD(5)[OF c, of b'] d by (auto simp: in_region_def nth_list_update split: option.splits)
  qed (use c pos d in \<open>auto simp: counted_def nth_list_update log_of_def\<close>)
next
  case (KeepAlive i q)
  then obtain b where b: "get_buffer i w = Some b" "q < length (w_tasks w)"
    using st by (auto simp: keepAlive_def bind_eq_Some_conv split: if_splits)
  show ?thesis
  proof (cases "b_deleter b")
    case None
    then show ?thesis using st b c KeepAlive by (simp add: keepAlive_def)
  next
    case (Some d)
    have a: "counted ({#} + ptr_mset (Some d)) (acquire (Some d) w)"
      by (rule acquire_counted[OF c]) (use var_holds[OF b(1)] Some in simp)
    have w': "w' = (acquire (Some d) w)\<lparr>w_tasks := (w_tasks w)[q := w_tasks w ! q @ [d]]\<rparr>"
      using st b Some KeepAlive by (simp add: keepAlive_def Let_def)
    have "sum_list ((map mset (w_tasks w))[q := mset (w_tasks w ! q) + {#d#}]) + map mset (w_tasks w) ! q
        = sum_list (map mset (w_tasks w)) + (mset (w_tasks w ! q) + {#d#})"
      by (rule sum_list_update_mset) (simp add: b(2))
    then have t: "sum_list (map mset ((w_tasks w)[q := w_tasks w ! q @ [d]])) = sum_list (map mset (w_tasks w)) + {#d#}"
      using b(2) by (simp add: map_update)
    show ?thesis
    proof (rule counted_cong[OF a])
      have "holders (acquire (Some d) w) = holders w" by simp
      then show "holders w' + {#} = holders (acquire (Some d) w) + ({#} + ptr_mset (Some d))"
        by (simp add: w' holders_def ptr_mset_def t)
    qed (use countedD(5)[OF a] in \<open>simp_all add: w'\<close>)
  qed
next
  case (TaskDestroyed q)
  then obtain d ds where q: "q < length (w_tasks w)" "w_tasks w ! q = d # ds"
    and w': "w' = release (Some d) (w\<lparr>w_tasks := (w_tasks w)[q := ds]\<rparr>)"
    using st by (auto simp: task_destroyed_def split: if_splits list.splits)
  have "sum_list ((map mset (w_tasks w))[q := mset ds]) + map mset (w_tasks w) ! q = sum_list (map mset (w_tasks w)) + mset ds"
    by (rule sum_list_update_mset) (simp add: q(1))
  then have t: "sum_list (map mset ((w_tasks w)[q := ds])) + {#d#} = sum_list (map mset (w_tasks w))"
    using q by (simp add: map_update)
  have "counted ({#} + ptr_mset (Some d)) (w\<lparr>w_tasks := (w_tasks w)[q := ds]\<rparr>)"
  proof (rule counted_cong[OF c])
    show "holders (w\<lparr>w_tasks := (w_tasks w)[q := ds]\<rparr>) + ({#} + ptr_mset (Some d)) = holders w + {#}"
      by (simp add: holders_def ptr_mset_def flip: t)
  qed (use countedD(5)[OF c] in simp_all)
  then show ?thesis unfolding w' by (rule release_counted)
qed

lemma counted_init: "counted {#} (world_init n)"
proof -
  have "sum_list (replicate n {#}) = ({#} :: nat multiset)" by (induction n) simp_all
  then show ?thesis by (simp add: counted_def world_init_def holders_def)
qed

lemma reachable_counted: "reachable_world n w \<Longrightarrow> counted {#} w"
  by (induction rule: reachable_world.induct) (auto intro: counted_init step_counted)

text \<open>
  Property C10. Life time of buffers: in every reachable state a buffer that has its deleter refers to memory that
  has not been freed, every element of its view lies inside that memory, and the use count it reports
  is the number of buffers and waiting tasks that share the memory. The destructor of the memory runs exactly
  once, when the last of them is gone: first all actions in the order they were added, then the free
  operation; before that nothing of it has run.
\<close>

theorem buffer_lifetime:
  fixes w :: "'w::len word world"
  assumes "reachable_world n w"
  shows "(\<forall>i b d. get_buffer i w = Some b \<and> b_deleter b = Some d \<longrightarrow>
        FreeOp d \<notin> set (w_log w) \<and> getUseCount i w = Some (count (holders w) d)
      \<and> (\<forall>idx. in_extents idx (sp_extent (b_view b)) \<longrightarrow>
           elem_bytes (b_view b) idx \<subseteq> {md_start (w_managed w ! d)..<md_stop (w_managed w ! d)}))
    \<and> (\<forall>d < length (w_managed w). log_of d w =
        (if d \<in># holders w then [] else map (Action d) (md_actions (w_managed w ! d)) @ [FreeOp d]))"
proof -
  have c: "counted {#} w" using assms by (rule reachable_counted)
  have log: "log_of d w = (if d \<in># holders w then [] else map (Action d) (md_actions (w_managed w ! d)) @ [FreeOp d])"
    if "d < length (w_managed w)" for d
    using countedD(1,2)[OF c that] by (auto simp: count_eq_zero_iff)
  have live: "FreeOp d \<notin> set (w_log w) \<and> getUseCount i w = Some (count (holders w) d)
      \<and> (\<forall>idx. in_extents idx (sp_extent (b_view b)) \<longrightarrow>
           elem_bytes (b_view b) idx \<subseteq> {md_start (w_managed w ! d)..<md_stop (w_managed w ! d)})"
    if b: "get_buffer i w = Some b" "b_deleter b = Some d" for i b d
  proof -
    have h: "d \<in># holders w" by (rule var_holds[OF b])
    then have d: "d < length (w_managed w)" using countedD(3)[OF c] by simp
    have "FreeOp d \<notin> set (w_log w)" using log[OF d] h by (auto simp: log_of_def filter_empty_conv)
    moreover have "getUseCount i w = Some (count (holders w) d)"
      using countedD(1)[OF c d] b by (simp add: getUseCount_def)
    moreover have r: "span_ok (md_stop (w_managed w ! d)) (b_view b)" "md_start (w_managed w ! d) \<le> sp_ptr (b_view b)"
      using countedD(5)[OF c get_bufferD(3)[OF b(1)]] b(2) by (simp_all add: in_region_def)
    have "elem_bytes (b_view b) idx \<subseteq> {md_start (w_managed w ! d)..<md_stop (w_managed w ! d)}"
      if "in_extents idx (sp_extent (b_view b))" for idx
      using span_ok_bound(2)[OF r(1) that] r(2) span_ptr_off[OF r(1) that] by (auto simp: elem_bytes_def)
    ultimately show ?thesis by blast
  qed
  then show ?thesis using log by blast
qed

text \<open>A sub-buffer and a task outlive the buffer they come from; an action runs before the memory is freed.\<close>

definition lifetime_calls :: "32 word buffer_call list" where
  "lifetime_calls = [NewBuffer \<lparr>sp_ptr = 64, sp_sizeof = 4, sp_extent = [4, 4], sp_pitch = [16], sp_align = None\<rparr> 64 128,
     AddAction 0 7, SubBufferAt 0 [1, 1] [2, 3], KeepAlive 1 0, DestroyBuffer 0, DestroyBuffer 1]"

primrec buffer_run :: "'w::len word buffer_call list \<Rightarrow> 'w word world \<Rightarrow> 'w word world option" where
  "buffer_run [] w = Some w"
| "buffer_run (c # cs) w = (if call_ok c then Option.bind (buffer_step c w) (buffer_run cs) else None)"

lemma buffer_run_reachable: "reachable_world n w \<Longrightarrow> buffer_run cs w = Some w' \<Longrightarrow> reachable_world n w'"
  by (induction cs arbitrary: w) (auto simp: bind_eq_Some_conv split: if_splits intro: world_step)

lemmas buffer_defs = sharedBuffer_def share_def getSubSharedBufferAt_def getSubViewAt_def keepAlive_def buffer_destroy_def
  task_destroyed_def addDestructorAction_def new_variable_def set_variable_def get_buffer_def acquire_def release_def
  managed_destroy_def Let_def mdSpan_def dataPitches_store_def span_getPitches_split vec_back_def vec_eraseBack_butlast
  span_ptr_def vec_op_def for_upto_def span_ok_def

lemma lifetime_calls_run:
  "\<exists>w. buffer_run lifetime_calls (world_init 1) = Some w \<and> w_log w = [] \<and> w_tasks w = [[0]]"
  by (simp add: lifetime_calls_def world_init_def buffer_defs)

lemma lifetime_calls_end:
  "\<exists>w. buffer_run (lifetime_calls @ [TaskDestroyed 0]) (world_init 1) = Some w
     \<and> length (w_managed w) = 1 \<and> md_actions (w_managed w ! 0) = [7] \<and> holders w = {#}"
  by (simp add: lifetime_calls_def world_init_def buffer_defs holders_def var_mset_def)

lemma buffer_lifetime_witness:
  "\<exists>w. buffer_run (lifetime_calls @ [TaskDestroyed 0]) (world_init 1) = Some w \<and> log_of 0 w = [Action 0 7, FreeOp 0]"
proof -
  obtain w where w: "buffer_run (lifetime_calls @ [TaskDestroyed 0]) (world_init 1) = Some w"
    "length (w_managed w) = 1" "md_actions (w_managed w ! 0) = [7]" "holders w = {#}"
    using lifetime_calls_end by blast
  show ?thesis
    using buffer_lifetime[OF buffer_run_reachable[OF world_start w(1)]] w by simp
qed

end
