(* ===== verification/Reduce.thy ===== *)
theory Reduce
  imports Launch Store
begin

text \<open>
  Transforming and reducing data: what one thread reduces
  (\<^verbatim>\<open>onAcc/internal/SimdTransformReduce.hpp\<close>), the kernel that combines the threads of a block in
  shared memory and the blocks atomically, and the launch by the host
  (\<^verbatim>\<open>onHost/algo/internal/transformReduce.hpp\<close>). The contract of the reduction functor is a locale;
  the theorems hold for every functor that keeps it.
\<close>

section \<open>Functors\<close>

text \<open>
  A \<^verbatim>\<open>StencilFunc\<close> gets the \<^verbatim>\<open>SimdPtr\<close>s themselves, a \<^verbatim>\<open>ScalarFunc\<close> one lane of every input after the
  other, any other functor the loaded packs of all inputs.
\<close>

datatype ('d, 'r) transformFunc =
    StencilTransform "(nat vec \<Rightarrow> 'd) list \<Rightarrow> nat vec \<Rightarrow> nat \<Rightarrow> 'r list"
  | ScalarTransform "'d list \<Rightarrow> 'r"
  | PackTransform "'d list list \<Rightarrow> 'r list"

definition simd_load :: "(nat vec \<Rightarrow> 'd) \<Rightarrow> nat vec \<Rightarrow> nat \<Rightarrow> 'd list" where
  "simd_load dataSource idx width = map (\<lambda>j. dataSource (vec_rAssign idx (vec_back idx + j))) [0..<width]"

definition loadAndExecuteScalarOp :: "('d list \<Rightarrow> 'r) \<Rightarrow> 'd list list \<Rightarrow> nat \<Rightarrow> 'r list" where
  "loadAndExecuteScalarOp func packs width = map (\<lambda>lane. func (map (\<lambda>pack. pack ! lane) packs)) [0..<width]"

fun wrapTransformFunc :: "('d, 'r) transformFunc \<Rightarrow> (nat vec \<Rightarrow> 'd) list \<Rightarrow> nat vec \<Rightarrow> nat \<Rightarrow> 'r list" where
  "wrapTransformFunc (StencilTransform func) data idx width = func data idx width"
| "wrapTransformFunc (ScalarTransform func) data idx width =
     loadAndExecuteScalarOp func (map (\<lambda>d. simd_load d idx width) data) width"
| "wrapTransformFunc (PackTransform func) data idx width = func (map (\<lambda>d. simd_load d idx width) data)"

text \<open>
  A reduction functor: its result on two values and on two packs, whether it is marked as
  \<^verbatim>\<open>ScalarFunc\<close>, and what \<^verbatim>\<open>alpakaAtomicInvoke\<close> does for it.
\<close>

record 'r reduceFunc =
  rf_scalar :: "'r \<Rightarrow> 'r \<Rightarrow> 'r"
  rf_packs :: "'r list \<Rightarrow> 'r list \<Rightarrow> 'r list"
  rf_isScalarFunc :: bool
  rf_atomic :: "'r \<Rightarrow> 'r rmw"

definition std_plus :: "'r::plus reduceFunc" where
  "std_plus = \<lparr>rf_scalar = (+), rf_packs = vec_op (+), rf_isScalarFunc = False, rf_atomic = op_Add\<rparr>"

definition ScalarReducer :: "('r \<Rightarrow> 'r \<Rightarrow> 'r) \<Rightarrow> 'r list \<Rightarrow> 'r list \<Rightarrow> 'r list" where
  "ScalarReducer op a b = map (\<lambda>lane. op (a ! lane) (b ! lane)) [0..<length a]"

definition getReducer :: "'r reduceFunc \<Rightarrow> 'r list \<Rightarrow> 'r list \<Rightarrow> 'r list" where
  "getReducer rf = (if rf_isScalarFunc rf then ScalarReducer (rf_scalar rf) else rf_packs rf)"

text \<open>\<^verbatim>\<open>Simd::reduce\<close> halves the pack like \<^verbatim>\<open>Vec::reduce\<close>.\<close>

definition simd_reduce :: "('a \<Rightarrow> 'a \<Rightarrow> 'a) \<Rightarrow> 'a list \<Rightarrow> 'a" where
  "simd_reduce f v = vec_reduceRange f v 0 (length v)"

definition makeSimdized :: "nat \<Rightarrow> 'r \<Rightarrow> 'r list" where
  "makeSimdized width v = vec_fill width v"

section \<open>One thread\<close>

text \<open>
  The loop body takes \<open>k\<close> indices from the iterator, like \<^verbatim>\<open>execute\<close> of the concurrent algorithm, and
  reduces what the transform functor returns for them. If the simdized result is one pack
  (\<open>packed\<close>), the results are reduced in a tree first, otherwise one after the other.
\<close>

partial_function (option) batch_fold ::
  "nat \<Rightarrow> ('s \<Rightarrow> bool) \<Rightarrow> ('s \<Rightarrow> 's) \<Rightarrow> ('s \<Rightarrow> 'b) \<Rightarrow> ('b list \<Rightarrow> 'c \<Rightarrow> 'c) \<Rightarrow> 's \<Rightarrow> 'c \<Rightarrow> 'c option" where
  "batch_fold k at_end inc deref f s a =
     (if at_end s then Some a
      else batch_fold k at_end inc deref f ((inc ^^ k) s) (f (map (\<lambda>j. deref ((inc ^^ j) s)) [0..<k]) a))"

definition traverse_fold :: "nat \<Rightarrow> traverse \<Rightarrow> 'a::{semiring_modulo,linorder} idxContainer
    \<Rightarrow> ('a vec list \<Rightarrow> 'c \<Rightarrow> 'c) \<Rightarrow> 'c \<Rightarrow> 'c option" where
  "traverse_fold k tr c f a =
     (case tr of
        Flat \<Rightarrow> batch_fold k (flat_at_end (flat_end c)) flat_inc (flat_deref (ic_select c)) f (flat_begin c) a
      | Tiled \<Rightarrow> batch_fold k (tiled_at_end (ic_select c) (tiled_end c)) (tiled_inc (ic_select c)) tiled_deref f (tiled_begin c) a)"

definition executeReduce :: "('r list \<Rightarrow> 'r list \<Rightarrow> 'r list) \<Rightarrow> (nat vec \<Rightarrow> nat \<Rightarrow> 'r list) \<Rightarrow> nat \<Rightarrow> nat vec list \<Rightarrow> 'r list" where
  "executeReduce reducer transform width ids = simd_reduce reducer (map (\<lambda>idx. transform idx width) ids)"

definition executeReduceInto :: "('r list \<Rightarrow> 'r list \<Rightarrow> 'r list) \<Rightarrow> (nat vec \<Rightarrow> nat \<Rightarrow> 'r list) \<Rightarrow> nat \<Rightarrow> nat vec list
    \<Rightarrow> 'r list \<Rightarrow> 'r list" where
  "executeReduceInto reducer transform width ids result = fold (\<lambda>idx result. reducer result (transform idx width)) ids result"

definition reduceNextSimdized :: "bool \<Rightarrow> ('r list \<Rightarrow> 'r list \<Rightarrow> 'r list) \<Rightarrow> (nat vec \<Rightarrow> nat \<Rightarrow> 'r list) \<Rightarrow> nat \<Rightarrow> nat vec list
    \<Rightarrow> 'r list \<Rightarrow> 'r list" where
  "reduceNextSimdized packed reducer transform width ids tmpReturn =
     (if packed then reducer tmpReturn (executeReduce reducer transform width ids)
      else executeReduceInto reducer transform width ids tmpReturn)"

definition reduce_rows :: "nat \<Rightarrow> layoutPolicy \<Rightarrow> nat acc \<Rightarrow> nat vec \<Rightarrow> nat vec \<Rightarrow> nat vec \<Rightarrow> nat vec
    \<Rightarrow> (nat vec list \<Rightarrow> 'c \<Rightarrow> 'c) \<Rightarrow> 'c \<Rightarrow> 'c option" where
  "reduce_rows K pol acc threadIdx threadCount domainSize stride next result =
     (let n = length domainSize;
          wIdx = vec_rAssign threadIdx 0; wSize = vec_rAssign threadCount 1;
          domSize = vec_rAssign domainSize 1;
          wOuter = WG_vectors wIdx wSize True;
          wIdxInner = vec_rAssign (vec_fill n 0) (vec_back threadIdx);
          wSizeInner = vec_rAssign (vec_fill n 1) (vec_back threadCount);
          wInner = WG_vectors wIdxInner wSizeInner True
      in Option.bind (makeIdxMap acc wOuter (Range_given (idxRange1 domSize)) pol) (\<lambda>outer.
         Option.bind (traverse_indices Flat outer) (\<lambda>rows.
           fold_opt (\<lambda>rowIdx result.
             Option.bind (makeIdxMap acc wInner (Range_given (idxRange3 rowIdx domainSize stride)) pol) (\<lambda>inner.
               traverse_fold K Flat (flat_select inner [n - 1]) next result))
             rows result)))"

definition reduceSimdPackExecution :: "nat \<Rightarrow> nat \<Rightarrow> bool \<Rightarrow> traverse \<Rightarrow> layoutPolicy \<Rightarrow> nat acc \<Rightarrow> nat WorkerGroup
    \<Rightarrow> nat vec \<Rightarrow> 'r \<Rightarrow> 'r reduceFunc \<Rightarrow> (nat vec \<Rightarrow> nat \<Rightarrow> 'r list) \<Rightarrow> 'r option" where
  "reduceSimdPackExecution W K packed tr pol acc workGroup numElements neutralElement userReduceFunc transform =
     Option.bind (workerGroup_getThreadIdx workGroup acc) (\<lambda>threadIdx.
     Option.bind (workerGroup_getThreadCount workGroup acc) (\<lambda>threadCount.
      (let reducer = getReducer userReduceFunc;
           n = length numElements;
           wSize = vec_back threadCount;
           numElementsPerFnCall = W * K;
           numSimdPackLoops = vec_back numElements div numElementsPerFnCall div wSize;
           remainderBegin = numSimdPackLoops * numElementsPerFnCall * wSize;
           domainSize = vec_rAssign numElements remainderBegin;
           stride = vec_rAssign (vec_fill n 1) W;
           next = reduceNextSimdized packed reducer transform W
       in Option.bind
            (if n > 1 \<and> tr = Flat
             then reduce_rows K pol acc threadIdx threadCount domainSize stride next (makeSimdized W neutralElement)
             else Option.bind (makeIdxMap acc workGroup
                 (Range_given (idxRange3 (vec_fill n 0) domainSize stride)) pol)
                 (\<lambda>c. traverse_fold K tr c next (makeSimdized W neutralElement)))
            (\<lambda>simdizedReducedValue.
          Option.bind (Option.bind (makeIdxMap acc workGroup
              (Range_given (idxRange2 (vec_rAssign (vec_fill n 0) remainderBegin) numElements)) pol) (traverse_indices tr))
            (\<lambda>remainder. Some (simd_reduce (rf_scalar userReduceFunc)
               (fold (\<lambda>idx lhs. lhs[0 := rf_scalar userReduceFunc (lhs ! 0) (transform idx 1 ! 0)])
                 remainder simdizedReducedValue)))))))"

text \<open>With packs of width one the functor of the user is called as it is, without \<^verbatim>\<open>getReducer\<close>.\<close>

definition transformReduce :: "simdPackConfig \<Rightarrow> bool \<Rightarrow> traverse \<Rightarrow> layoutPolicy \<Rightarrow> nat acc \<Rightarrow> nat WorkerGroup
    \<Rightarrow> nat vec \<Rightarrow> 'r \<Rightarrow> 'r reduceFunc \<Rightarrow> ('d, 'r) transformFunc \<Rightarrow> (nat vec \<Rightarrow> 'd) list \<Rightarrow> 'r option" where
  "transformReduce cfg packed tr pol acc workGroup numElements neutralElement reduceFunc func data =
     (let transform = wrapTransformFunc func data in
      if simdWidth cfg \<noteq> 1
      then reduceSimdPackExecution (simdWidth cfg) (numSimdPacksPerFnCall cfg) packed tr pol acc workGroup numElements
             neutralElement reduceFunc transform
      else Option.bind (Option.bind (makeIdxMap acc workGroup (Range_given (idxRange1 numElements)) pol) (traverse_indices tr))
             (\<lambda>idxs. Some (fold (\<lambda>idx value. rf_packs reduceFunc value (transform idx 1)) idxs (makeSimdized 1 neutralElement) ! 0)))"

section \<open>The contract of a reduction functor\<close>

definition total :: "('r \<Rightarrow> 'r \<Rightarrow> 'r) \<Rightarrow> 'r \<Rightarrow> 'r list \<Rightarrow> 'r" where
  "total f e xs = foldr f xs e"

lemma total_simps [simp]: "total f e [] = e" "total f e (x # xs) = f x (total f e xs)"
  by (simp_all add: total_def)

locale reduction =
  fixes f :: "'r \<Rightarrow> 'r \<Rightarrow> 'r" and e :: 'r
  assumes assoc: "f (f a b) c = f a (f b c)"
    and comm: "f a b = f b a"
    and neutral: "f e a = a"
begin

lemma left_comm: "f a (f b c) = f b (f a c)"
  using assoc comm by metis

lemmas ac = assoc comm left_comm

lemma neutral_right [simp]: "f a e = a"
  using neutral comm by metis

lemma total_append: "total f e (xs @ ys) = f (total f e xs) (total f e ys)"
  by (induction xs) (simp_all add: neutral assoc)

lemma total_concat: "total f e (concat xss) = total f e (map (total f e) xss)"
  by (induction xss) (simp_all add: total_append)

lemma total_mset: "mset xs = mset ys \<Longrightarrow> total f e xs = total f e ys"
proof (induction xs arbitrary: ys)
  case (Cons x xs)
  then have "x \<in> set ys" by (metis list.set_intros(1) set_mset_mset)
  then obtain us vs where ys: "ys = us @ x # vs" by (meson split_list)
  with Cons.prems have "mset xs = mset (us @ vs)" by simp
  from Cons.IH[OF this] show ?case by (simp add: ys total_append ac)
qed simp

lemma total_fold: "fold (\<lambda>x a. f a (h x)) xs a = f a (total f e (map h xs))"
  by (induction xs arbitrary: a) (simp_all add: assoc)

lemma total_neutral: "total f e (replicate n e) = e"
  by (induction n) (simp_all add: neutral)

lemma total_map2: "length xs = length ys \<Longrightarrow> total f e (map2 f xs ys) = f (total f e xs) (total f e ys)"
  by (induction xs ys rule: list_induct2) (simp_all add: neutral ac)

lemma total_map_f: "total f e (map (\<lambda>x. f (h x) (h' x)) xs) = f (total f e (map h xs)) (total f e (map h' xs))"
  by (induction xs) (simp_all add: neutral ac)

text \<open>Trees of values and trees of packs.\<close>

lemma reduceRange_total: "start < stop \<Longrightarrow> vec_reduceRange f v start stop = total f e (map ((!) v) [start..<stop])"
proof -
  assume "start < stop"
  moreover have "foldl f a xs = f a (total f e xs)" for a xs
    by (induction xs arbitrary: a) (simp_all add: assoc)
  ultimately show ?thesis using vec_reduceRange_foldl[of f start stop v] assoc by (simp add: upt_conv_Cons)
qed

lemma simd_reduce_total: "v \<noteq> [] \<Longrightarrow> simd_reduce f v = total f e v"
  using reduceRange_total[of 0 "length v" v] by (simp add: simd_reduce_def map_nth)

end

interpretation op_add: reduction "\<lambda>ref v :: 'a::comm_monoid_add. fst (op_Add v ref)" 0
  by unfold_locales (simp_all add: op_Add_def ac_simps)

interpretation op_max: reduction "\<lambda>ref v :: 'a::{linorder,order_bot}. fst (op_Max v ref)" bot
  by unfold_locales (simp_all add: op_Max_def max.assoc max.commute max.left_commute max_absorb2)

interpretation op_min: reduction "\<lambda>ref v :: 'a::{linorder,order_top}. fst (op_Min v ref)" top
  by unfold_locales (simp_all add: op_Min_def min.assoc min.commute min.left_commute min_absorb2)

section \<open>A thread reduces what it would touch\<close>

text \<open>
  What the algorithm needs of its functors: on packs the reduction works lane by lane, and the
  transform of a pack yields the transforms \<open>g\<close> of its elements.
\<close>

definition lanewise :: "('r list \<Rightarrow> 'r list \<Rightarrow> 'r list) \<Rightarrow> ('r \<Rightarrow> 'r \<Rightarrow> 'r) \<Rightarrow> bool" where
  "lanewise op f \<longleftrightarrow> (\<forall>a b. length a = length b \<longrightarrow> op a b = map2 f a b)"

definition elementwise :: "(nat vec \<Rightarrow> nat \<Rightarrow> 'r list) \<Rightarrow> (nat vec \<Rightarrow> 'r) \<Rightarrow> bool" where
  "elementwise transform g \<longleftrightarrow> (\<forall>idx w. transform idx w = map g (call_elements (idx, w)))"

lemma ScalarReducer_lanewise: "lanewise (ScalarReducer f) f"
  unfolding lanewise_def ScalarReducer_def by (auto intro!: nth_equalityI)

lemma vec_op_lanewise: "lanewise (vec_op f) f"
  unfolding lanewise_def vec_op_def by (auto intro!: nth_equalityI)

lemma simd_load_elements: "simd_load src idx w = map src (call_elements (idx, w))"
  by (simp add: simd_load_def call_elements_def)

lemma ScalarTransform_elementwise:
  "elementwise (wrapTransformFunc (ScalarTransform h) data) (\<lambda>x. h (map (\<lambda>d. d x) data))"
proof -
  have nth: "map (\<lambda>d. simd_load d idx w ! lane) data = map (\<lambda>d. d (vec_rAssign idx (vec_back idx + lane))) data"
    if "lane < w" for idx w lane
    using that by (simp add: simd_load_def)
  show ?thesis
    by (auto simp: elementwise_def loadAndExecuteScalarOp_def call_elements_def comp_def nth)
qed

lemma PackTransform_elementwise:
  assumes "\<And>packs w. \<forall>p \<in> set packs. length p = w \<Longrightarrow> length packs = length data
      \<Longrightarrow> func packs = map (\<lambda>lane. h (map (\<lambda>p. p ! lane) packs)) [0..<w]"
  shows "elementwise (wrapTransformFunc (PackTransform func) data) (\<lambda>x. h (map (\<lambda>d. d x) data))"
proof -
  have "func (map (\<lambda>d. simd_load d idx w) data)
      = loadAndExecuteScalarOp h (map (\<lambda>d. simd_load d idx w) data) w" for idx w
    using assms[of "map (\<lambda>d. simd_load d idx w) data" w] by (simp add: loadAndExecuteScalarOp_def simd_load_def)
  then show ?thesis using ScalarTransform_elementwise[of h data] by (simp add: elementwise_def)
qed

text \<open>The calls and the reductions of a loop take the same batches from the iterator.\<close>

lemma batch_fold_batches:
  assumes "batch_for k at_end inc deref s = Some xs" "0 < k"
  shows "\<exists>bs. concat bs = xs \<and> [] \<notin> set bs \<and> (\<forall>f (a :: 'c). batch_fold k at_end inc deref f s a = Some (fold f bs a))"
proof -
  let ?P = "\<lambda>k at_end inc deref s xs. 0 < k \<longrightarrow>
      (\<exists>bs. concat bs = xs \<and> [] \<notin> set bs \<and> (\<forall>f (a :: 'c). batch_fold k at_end inc deref f s a = Some (fold f bs a)))"
  have "?P k at_end inc deref s xs"
  proof (rule batch_for.raw_induct[where P = ?P, OF _ assms(1)], intro impI)
    fix loop k at_end inc and deref :: "'b \<Rightarrow> 'a" and s xs
    assume IH: "\<And>k at_end inc deref s xs. loop k at_end inc deref s = Some xs \<Longrightarrow> ?P k at_end inc deref s xs"
      and step: "(if at_end s then Some [] else Option.bind (loop k at_end inc deref ((inc ^^ k) s))
            (\<lambda>xs. Some (map (\<lambda>j. deref ((inc ^^ j) s)) [0..<k] @ xs))) = Some xs" and k: "0 < k"
    show "\<exists>bs. concat bs = xs \<and> [] \<notin> set bs \<and> (\<forall>f (a :: 'c). batch_fold k at_end inc deref f s a = Some (fold f bs a))"
    proof (cases "at_end s")
      case True
      then show ?thesis using step by (intro exI[of _ "[]"]) (simp add: batch_fold.simps)
    next
      case False
      let ?b = "map (\<lambda>j. deref ((inc ^^ j) s)) [0..<k]"
      from step False obtain ys where ys: "loop k at_end inc deref ((inc ^^ k) s) = Some ys" "xs = ?b @ ys"
        by (auto simp: bind_eq_Some_conv)
      from IH[OF ys(1)] k obtain bs where "concat bs = ys" "[] \<notin> set bs"
        "\<forall>f (a :: 'c). batch_fold k at_end inc deref f ((inc ^^ k) s) a = Some (fold f bs a)" by blast
      then show ?thesis using False ys(2) k
        by (intro exI[of _ "?b # bs"]) (simp add: batch_fold.simps[of k at_end inc deref _ s])
    qed
  qed
  then show ?thesis using assms(2) by simp
qed

lemma traverse_fold_batches:
  assumes "traverse_batched k tr c = Some xs" "0 < k"
  shows "\<exists>bs. concat bs = xs \<and> [] \<notin> set bs \<and> (\<forall>f a. traverse_fold k tr c f a = Some (fold f bs a))"
proof (cases tr)
  case Flat
  with assms(1) show ?thesis
    unfolding traverse_batched_def traverse_fold_def by (simp add: batch_fold_batches[OF _ assms(2)])
next
  case Tiled
  with assms(1) show ?thesis
    unfolding traverse_batched_def traverse_fold_def by (simp add: batch_fold_batches[OF _ assms(2)])
qed

lemma fold_rows_batches:
  fixes xs :: "'a::{semiring_modulo,linorder} vec list"
  assumes "fold (\<lambda>r calls. Option.bind calls (\<lambda>cs. Option.bind (mk r) (\<lambda>c. map_option ((@) cs) (traverse_batched k tr c))))
             rows (Some cs) = Some xs" "0 < k"
  shows "\<exists>bs. xs = cs @ concat bs \<and> [] \<notin> set bs
       \<and> (\<forall>(f :: 'a vec list \<Rightarrow> 'c \<Rightarrow> 'c) a.
             fold_opt (\<lambda>r a. Option.bind (mk r) (\<lambda>c. traverse_fold k tr c f a)) rows a = Some (fold f bs a))"
  using assms
proof (induction rows arbitrary: cs)
  case Nil
  then show ?case by (intro exI[of _ "[]"]) simp
next
  case (Cons r rows)
  have none: "fold (\<lambda>r calls. Option.bind calls (\<lambda>cs. Option.bind (mk r) (\<lambda>c. map_option ((@) cs) (traverse_batched k tr c)))) rows None = None" for rows
    by (induction rows) simp_all
  from Cons.prems(1) none obtain c ys where c: "mk r = Some c" "traverse_batched k tr c = Some ys"
    by (cases "mk r"; cases "traverse_batched k tr (the (mk r))") auto
  from traverse_fold_batches[OF c(2) Cons.prems(2)] obtain bs where bs: "concat bs = ys" "[] \<notin> set bs"
    "\<And>(f :: 'a vec list \<Rightarrow> 'c \<Rightarrow> 'c) a. traverse_fold k tr c f a = Some (fold f bs a)" by blast
  have "fold (\<lambda>r calls. Option.bind calls (\<lambda>cs. Option.bind (mk r) (\<lambda>c. map_option ((@) cs) (traverse_batched k tr c))))
             rows (Some (cs @ ys)) = Some xs" using Cons.prems(1) c by simp
  from Cons.IH[OF this Cons.prems(2)] obtain bs' where bs': "xs = (cs @ ys) @ concat bs'" "[] \<notin> set bs'"
    "\<And>(f :: 'a vec list \<Rightarrow> 'c \<Rightarrow> 'c) a. fold_opt (\<lambda>r a. Option.bind (mk r) (\<lambda>c. traverse_fold k tr c f a)) rows a = Some (fold f bs' a)"
    by blast
  have "fold_opt (\<lambda>r a. Option.bind (mk r) (\<lambda>c. traverse_fold k tr c f a)) (r # rows) a = Some (fold f (bs @ bs') a)"
    for f :: "'a vec list \<Rightarrow> 'c \<Rightarrow> 'c" and a
    using bs(3)[of f a] bs'(3)[of f] c(1) by simp
  then show ?case using bs(1,2) bs'(1,2) by (intro exI[of _ "bs @ bs'"]) simp
qed

context reduction
begin

lemma lanewise_total:
  "lanewise op f \<Longrightarrow> length a = length b \<Longrightarrow> length (op a b) = length a \<and> total f e (op a b) = f (total f e a) (total f e b)"
  by (simp add: lanewise_def total_map2)

lemma pack_reduceRange:
  assumes op: "lanewise op f" and v: "\<forall>p \<in> set v. length p = W"
  shows "start < stop \<Longrightarrow> stop \<le> length v \<Longrightarrow> length (vec_reduceRange op v start stop) = W
     \<and> total f e (vec_reduceRange op v start stop) = total f e (concat (map ((!) v) [start..<stop]))"
proof (induction "stop - start" arbitrary: start stop rule: less_induct)
  case less
  show ?case
  proof (cases "stop - start \<le> 1")
    case True
    then have "stop = Suc start" using less.prems by simp
    then show ?thesis using less.prems v by (subst (1 2) vec_reduceRange.simps) simp
  next
    case False
    define mid where "mid = start + (stop - start) div 2"
    have m: "start < mid" "mid < stop" using False by (auto simp: mid_def)
    have split: "[start..<stop] = [start..<mid] @ [mid..<stop]"
      using upt_add_eq_append[of start mid "stop - mid"] m by simp
    have r: "vec_reduceRange op v start stop = op (vec_reduceRange op v start mid) (vec_reduceRange op v mid stop)"
      using False by (subst vec_reduceRange.simps) (simp add: mid_def Let_def)
    have "length (vec_reduceRange op v start mid) = W"
      "total f e (vec_reduceRange op v start mid) = total f e (concat (map ((!) v) [start..<mid]))"
      "length (vec_reduceRange op v mid stop) = W"
      "total f e (vec_reduceRange op v mid stop) = total f e (concat (map ((!) v) [mid..<stop]))"
      using less.hyps[of mid start] less.hyps[of stop mid] less.prems m by simp_all
    then show ?thesis unfolding r split using lanewise_total[OF op] by (simp add: total_append)
  qed
qed

lemma executeReduce_total:
  assumes op: "lanewise op f" and g: "elementwise transform g" and ids: "ids \<noteq> []"
  shows "length (executeReduce op transform W ids) = W
    \<and> total f e (executeReduce op transform W ids) = total f e (map g (concat (map (\<lambda>i. call_elements (i, W)) ids)))"
proof -
  let ?v = "map (\<lambda>idx. transform idx W) ids"
  have v: "\<forall>p \<in> set ?v. length p = W" using g by (auto simp: elementwise_def call_elements_def)
  have "map ((!) ?v) [0..<length ?v] = ?v" by (rule map_nth)
  then show ?thesis using pack_reduceRange[OF op v, of 0 "length ?v"] ids g
    by (simp add: executeReduce_def simd_reduce_def elementwise_def map_concat comp_def)
qed

lemma executeReduceInto_total:
  assumes op: "lanewise op f" and g: "elementwise transform g"
  shows "length tmp = W \<Longrightarrow> length (executeReduceInto op transform W ids tmp) = W
    \<and> total f e (executeReduceInto op transform W ids tmp)
      = f (total f e tmp) (total f e (map g (concat (map (\<lambda>i. call_elements (i, W)) ids))))"
proof (induction ids arbitrary: tmp)
  case (Cons i ids)
  have t: "length (transform i W) = W" "transform i W = map g (call_elements (i, W))"
    using g by (simp_all add: elementwise_def call_elements_def)
  note l = lanewise_total[OF op, of tmp "transform i W"]
  have "executeReduceInto op transform W (i # ids) tmp = executeReduceInto op transform W ids (op tmp (transform i W))"
    by (simp add: executeReduceInto_def)
  then show ?case using l t(1) Cons by (simp add: total_append assoc flip: t(2))
qed (simp add: executeReduceInto_def)

lemma reduceNextSimdized_total:
  assumes "lanewise op f" "elementwise transform g" "ids \<noteq> []" "length tmp = W"
  shows "length (reduceNextSimdized packed op transform W ids tmp) = W
    \<and> total f e (reduceNextSimdized packed op transform W ids tmp)
      = f (total f e tmp) (total f e (map g (concat (map (\<lambda>i. call_elements (i, W)) ids))))"
  using executeReduce_total[OF assms(1-3), of W] executeReduceInto_total[OF assms(1,2,4), of ids] lanewise_total[OF assms(1)] assms(4)
  by (simp add: reduceNextSimdized_def)

lemma batches_total:
  assumes "lanewise op f" "elementwise transform g"
  shows "[] \<notin> set bs \<Longrightarrow> length tmp = W \<Longrightarrow> length (fold (reduceNextSimdized packed op transform W) bs tmp) = W
    \<and> total f e (fold (reduceNextSimdized packed op transform W) bs tmp)
      = f (total f e tmp) (total f e (map g (concat (map (\<lambda>i. call_elements (i, W)) (concat bs)))))"
proof (induction bs arbitrary: tmp)
  case (Cons b bs)
  have "b \<noteq> []" using Cons.prems(1) by auto
  note r = reduceNextSimdized_total[OF assms this Cons.prems(2), of packed]
  show ?case using Cons.IH[of "reduceNextSimdized packed op transform W b tmp"] Cons.prems(1) r
    by (simp add: total_append assoc)
qed simp

lemma rest_total:
  assumes "elementwise transform g" "0 < W"
  shows "length lhs = W \<Longrightarrow> length (fold (\<lambda>idx lhs. lhs[0 := f (lhs ! 0) (transform idx 1 ! 0)]) rest lhs) = W
    \<and> total f e (fold (\<lambda>idx lhs. lhs[0 := f (lhs ! 0) (transform idx 1 ! 0)]) rest lhs)
      = f (total f e lhs) (total f e (map g (concat (map (\<lambda>i. call_elements (i, 1)) rest))))"
proof (induction rest arbitrary: lhs)
  case (Cons i rest)
  obtain x where x: "call_elements (i, 1) = [x]" by (simp add: call_elements_def)
  then have t: "transform i 1 ! 0 = g x" using assms(1) by (simp add: elementwise_def)
  obtain y ys where lhs: "lhs = y # ys" using Cons.prems assms(2) by (cases lhs) auto
  show ?case using Cons.IH[of "lhs[0 := f (lhs ! 0) (transform i 1 ! 0)]"] Cons.prems x t
    by (simp add: lhs ac)
qed simp

end

text \<open>The functors of a reduction: what the user must provide for the width in use.\<close>

definition reducer_ok :: "'r reduceFunc \<Rightarrow> simdPackConfig \<Rightarrow> bool" where
  "reducer_ok rf cfg \<longleftrightarrow> lanewise (rf_packs rf) (rf_scalar rf) \<or> rf_isScalarFunc rf \<and> simdWidth cfg \<noteq> 1"

lemma flat_rows_batches:
  assumes "flat_rows W K pol acc threadIdx threadCount domainSize stride = Some packs" "0 < K"
  shows "\<exists>bs. concat bs = packs \<and> [] \<notin> set bs
       \<and> (\<forall>f (a :: 'c). reduce_rows K pol acc threadIdx threadCount domainSize stride f a = Some (fold f bs a))"
proof -
  let ?n = "length domainSize"
  let ?outer = "makeIdxMap acc (WG_vectors (vec_rAssign threadIdx 0) (vec_rAssign threadCount 1) True)
     (Range_given (idxRange1 (vec_rAssign domainSize 1))) pol"
  let ?inner = "\<lambda>rowIdx. makeIdxMap acc (WG_vectors (vec_rAssign (vec_fill ?n 0) (vec_back threadIdx))
     (vec_rAssign (vec_fill ?n 1) (vec_back threadCount)) True) (Range_given (idxRange3 rowIdx domainSize stride)) pol"
  let ?mk = "\<lambda>rowIdx. map_option (\<lambda>inner. flat_select inner [?n - 1]) (?inner rowIdx)"
  have mk: "Option.bind (?mk r) h = Option.bind (?inner r) (\<lambda>inner. h (flat_select inner [?n - 1]))" for r and h :: "nat idxContainer \<Rightarrow> 'x option"
    by (cases "?inner r") simp_all
  from assms(1) obtain outer rows where rows: "?outer = Some outer" "traverse_indices Flat outer = Some rows"
    and calls: "fold (\<lambda>r calls. Option.bind calls (\<lambda>cs. Option.bind (?mk r) (\<lambda>c. map_option ((@) cs) (traverse_batched K Flat c))))
             rows (Some []) = Some packs"
    unfolding flat_rows_def Let_def mk by (auto simp: bind_eq_Some_conv)
  have "reduce_rows K pol acc threadIdx threadCount domainSize stride f a
      = fold_opt (\<lambda>r a. Option.bind (?mk r) (\<lambda>c. traverse_fold K Flat c f a)) rows a" for f and a :: 'c
    unfolding reduce_rows_def Let_def mk rows bind.bind_lunit by (rule refl)
  with fold_rows_batches[OF calls assms(2)] show ?thesis by auto
qed

context reduction
begin

lemma transformReduce_thread:
  assumes rf: "rf_scalar rf = f" "reducer_ok rf cfg" and g: "elementwise (wrapTransformFunc func data) g"
    and pos: "0 < simdWidth cfg" "0 < numSimdPacksPerFnCall cfg"
    and calls: "concurrent cfg tr pol acc wg ne = Some calls"
  shows "transformReduce cfg packed tr pol acc wg ne e rf func data
       = Some (total f e (map g (concat (map call_elements calls))))"
proof (cases "simdWidth cfg = 1")
  case True
  let ?t = "wrapTransformFunc func data"
  from calls True obtain idxs where idxs: "Option.bind (makeIdxMap acc wg (Range_given (idxRange1 ne)) pol) (traverse_indices tr) = Some idxs"
    "calls = map (\<lambda>idx. (idx, 1)) idxs" by (auto simp: concurrent_def)
  have op: "lanewise (rf_packs rf) f" using rf True by (simp add: reducer_ok_def)
  have "fold (\<lambda>idx value. rf_packs rf value (?t idx 1)) idxs [a] = [f a (total f e (map g (concat (map call_elements calls))))]" for a
    using idxs(2)
  proof (induction idxs arbitrary: a calls)
    case (Cons i idxs)
    obtain x where x: "call_elements (i, 1) = [x]" by (simp add: call_elements_def)
    have "rf_packs rf [a] (?t i 1) = [f a (g x)]" using op g x by (simp add: lanewise_def elementwise_def)
    then show ?case using Cons.IH[of _ "f a (g x)"] Cons.prems x by (simp add: assoc)
  qed simp
  from this[of e] show ?thesis
    by (simp only: transformReduce_def Let_def True idxs(1) bind.bind_lunit makeSimdized_def vec_fill_replicate simp_thms if_False)
      (simp add: neutral)
next
  case False
  let ?W = "simdWidth cfg" and ?K = "numSimdPacksPerFnCall cfg" and ?t = "wrapTransformFunc func data"
  let ?next = "reduceNextSimdized packed (getReducer rf) ?t ?W"
  have op: "lanewise (getReducer rf) f"
    using rf False ScalarReducer_lanewise[of f] by (auto simp: reducer_ok_def getReducer_def)
  from calls False have c: "concurrentSimdPackExecution ?W ?K tr pol acc wg ne = Some calls" by (simp add: concurrent_def)
  then obtain u U where uU: "workerGroup_getThreadIdx wg acc = Some u" "workerGroup_getThreadCount wg acc = Some U"
    unfolding concurrentSimdPackExecution_def by (auto simp: bind_eq_Some_conv)
  define rb where "rb = vec_back ne div (?W * ?K) div vec_back U * (?W * ?K) * vec_back U"
  let ?D = "vec_rAssign ne rb" and ?S = "vec_rAssign (vec_fill (length ne) 1) ?W"
  let ?calls = "if length ne > 1 \<and> tr = Flat then flat_rows ?W ?K pol acc u U ?D ?S
     else Option.bind (makeIdxMap acc wg (Range_given (idxRange3 (vec_fill (length ne) 0) ?D ?S)) pol) (traverse_batched ?K tr)"
  let ?loop = "if length ne > 1 \<and> tr = Flat then reduce_rows ?K pol acc u U ?D ?S ?next (makeSimdized ?W e)
     else Option.bind (makeIdxMap acc wg (Range_given (idxRange3 (vec_fill (length ne) 0) ?D ?S)) pol)
       (\<lambda>c. traverse_fold ?K tr c ?next (makeSimdized ?W e))"
  let ?rest = "Option.bind (makeIdxMap acc wg (Range_given (idxRange2 (vec_rAssign (vec_fill (length ne) 0) rb) ne)) pol) (traverse_indices tr)"
  from c obtain packs rest where p: "?calls = Some packs" and r: "?rest = Some rest"
    and calls': "calls = map (\<lambda>idx. (idx, ?W)) packs @ map (\<lambda>idx. (idx, 1)) rest"
    unfolding concurrentSimdPackExecution_def uU bind.bind_lunit Let_def rb_def[symmetric]
    by (elim bind_eq_Some_conv[THEN iffD1, elim_format] exE conjE) (rule that, assumption, simp only: bind.bind_lunit, simp only: option.inject)
  have "\<exists>bs. concat bs = packs \<and> [] \<notin> set bs \<and> ?loop = Some (fold ?next bs (makeSimdized ?W e))"
  proof (cases "length ne > 1 \<and> tr = Flat")
    case True
    show ?thesis unfolding if_P[OF True]
      using flat_rows_batches[where ?'c = "'r list", OF p[unfolded if_P[OF True]] pos(2)]
      by (elim exE conjE) (intro exI conjI, assumption+, erule allE, erule allE, assumption)
  next
    case False
    obtain ct where ct: "makeIdxMap acc wg (Range_given (idxRange3 (vec_fill (length ne) 0) ?D ?S)) pol = Some ct"
      "traverse_batched ?K tr ct = Some packs" using p[unfolded if_not_P[OF False] bind_eq_Some_conv] by blast
    show ?thesis unfolding if_not_P[OF False] ct(1) bind.bind_lunit
      using traverse_fold_batches[where ?'b = "'r list", OF ct(2) pos(2)]
      by (elim exE conjE) (intro exI conjI, assumption+, erule allE, erule allE, assumption)
  qed
  then obtain bs where bs: "concat bs = packs" "[] \<notin> set bs" "?loop = Some (fold ?next bs (makeSimdized ?W e))" by blast
  let ?x = "fold ?next bs (makeSimdized ?W e)"
  let ?y = "fold (\<lambda>idx lhs. lhs[0 := f (lhs ! 0) (?t idx 1 ! 0)]) rest ?x"
  have x: "length ?x = ?W" "total f e ?x = total f e (map g (concat (map (\<lambda>i. call_elements (i, ?W)) packs)))"
    using batches_total[OF op g bs(2), of "makeSimdized ?W e" ?W packed] bs(1)
    by (simp_all add: makeSimdized_def vec_fill_replicate total_neutral neutral)
  have y: "length ?y = ?W" "total f e ?y = total f e (map g (concat (map call_elements calls)))"
    using rest_total[OF g pos(1) x(1), of rest] x(2) by (simp_all add: calls' total_append comp_def)
  have "?y \<noteq> []" using y(1) pos(1) by (metis length_0_conv less_numeral_extra(3))
  then have "simd_reduce f ?y = total f e (map g (concat (map call_elements calls)))" using simd_reduce_total y(2) by simp
  then show ?thesis using False
    unfolding transformReduce_def reduceSimdPackExecution_def uU bind.bind_lunit Let_def rb_def[symmetric] bs(3) r rf(1)
    by simp
qed

end

section \<open>The kernel\<close>

datatype reducePhase = AccumulatePhase | AggregatePhase | TreePhase nat

text \<open>
  A run of the kernel: the pack configuration, the device, what the cells of the shared memory of a
  block hold at the start, and the order of the threads in every phase between two barriers and of the blocks.
\<close>

record 'r reduceRun =
  rr_simd :: simdPackConfig
  rr_packed :: bool
  rr_api :: api
  rr_deviceKind :: deviceKind
  rr_warpSize :: nat
  rr_shared :: "nat vec \<Rightarrow> nat \<Rightarrow> 'r"
  rr_order :: "nat vec \<Rightarrow> reducePhase \<Rightarrow> nat vec list \<Rightarrow> nat vec list"
  rr_blockOrder :: "nat vec list \<Rightarrow> nat vec list"

definition reduce_acc :: "'r reduceRun \<Rightarrow> nat vec \<Rightarrow> nat vec \<Rightarrow> nat vec \<Rightarrow> nat vec \<Rightarrow> nat acc" where
  "reduce_acc run B T b t = launch_acc (rr_api run) (rr_deviceKind run) (rr_warpSize run) B T b t"

text \<open>\<^verbatim>\<open>for(idx : makeIdxMap(acc, group, range))\<close> with the default traversal and layout.\<close>

definition idx_loop :: "nat acc \<Rightarrow> nat WorkerGroup \<Rightarrow> nat IdxRange \<Rightarrow> nat vec list option" where
  "idx_loop acc workGroup idxRange =
     Option.bind (makeIdxMap acc workGroup (Range_given idxRange) Optimized) (traverse_indices Flat)"

text \<open>
  A thread sets its elements of the shared memory to the neutral element and adds the reduction of
  every frame of its block; \<open>tbSum\<close> is a row-major span over the shared memory.
\<close>

definition accumulateElement :: "('r \<Rightarrow> 'r \<Rightarrow> 'r) \<Rightarrow> (nat vec \<Rightarrow> 'r option) \<Rightarrow> (nat vec \<Rightarrow> nat) \<Rightarrow> nat vec \<Rightarrow> nat vec
    \<Rightarrow> 'r list \<Rightarrow> 'r list option" where
  "accumulateElement reduceFunc reduceElements tbSum chunkIdx elemIdxInChunk dynS =
     Option.bind (reduceElements (vec_add chunkIdx elemIdxInChunk)) (\<lambda>reducedValue.
     Option.bind (arr_get dynS (tbSum elemIdxInChunk)) (\<lambda>v.
       arr_set dynS (tbSum elemIdxInChunk) (reduceFunc v reducedValue)))"

definition reduceAccumulate :: "'r reduceRun \<Rightarrow> nat vec \<Rightarrow> nat vec \<Rightarrow> nat vec \<Rightarrow> nat vec \<Rightarrow> nat vec \<Rightarrow> 'r
    \<Rightarrow> 'r reduceFunc \<Rightarrow> ('d, 'r) transformFunc \<Rightarrow> (nat vec \<Rightarrow> 'd) list \<Rightarrow> nat vec \<Rightarrow> nat vec \<Rightarrow> 'r list \<Rightarrow> 'r list option" where
  "reduceAccumulate run B T numChunks chunkExtents extentMd neutralElement rf func inputs b t dynS =
     (let acc = reduce_acc run B T b t;
          tbSum = linearize chunkExtents;
          chunkDataExtent = vec_mul numChunks chunkExtents;
          reduceElements = (\<lambda>w. transformReduce (rr_simd run) (rr_packed run) Flat Optimized acc
              (WG_vectors w chunkDataExtent True) extentMd neutralElement rf func inputs)
      in Option.bind (idx_loop acc worker_threadsInBlock (idxRange1 chunkExtents)) (\<lambda>traverseInFrame.
         Option.bind (fold_opt (\<lambda>elemIdxInFrame dynS. arr_set dynS (tbSum elemIdxInFrame) neutralElement) traverseInFrame dynS) (\<lambda>dynS.
         Option.bind (idx_loop acc worker_blocksInGrid
             (idxRange3 (vec_fill (length chunkDataExtent) 0) chunkDataExtent chunkExtents)) (\<lambda>traverseOverFrames.
           fold_opt (\<lambda>chunkIdx. fold_opt (accumulateElement (rf_scalar rf) reduceElements tbSum chunkIdx) traverseInFrame)
             traverseOverFrames dynS))))"

text \<open>Elements of the shared memory beyond the number of threads are folded onto the threads.\<close>

definition combineSlots :: "('r \<Rightarrow> 'r \<Rightarrow> 'r) \<Rightarrow> nat \<times> nat list \<Rightarrow> 'r list \<Rightarrow> 'r list option" where
  "combineSlots reduceFunc = (\<lambda>(lane, slots). fold_opt (\<lambda>slot dynS.
     Option.bind (arr_get dynS lane) (\<lambda>a. Option.bind (arr_get dynS slot) (\<lambda>b. arr_set dynS lane (reduceFunc a b)))) slots)"

definition reduceAggregate :: "'r reduceRun \<Rightarrow> nat vec \<Rightarrow> nat vec \<Rightarrow> nat vec \<Rightarrow> 'r reduceFunc \<Rightarrow> nat vec \<Rightarrow> nat vec
    \<Rightarrow> 'r list \<Rightarrow> 'r list option" where
  "reduceAggregate run B T chunkExtents rf b t dynS =
     (let laneIdInBlock = linearize T t; blockSize = vec_product T
      in Option.bind (idx_loop (reduce_acc run B T b t) worker_linearThreadsInBlock
             (idxRange2 [blockSize] [vec_product chunkExtents])) (\<lambda>slots.
           combineSlots (rf_scalar rf) (laneIdInBlock, map vec_x slots) dynS))"

text \<open>\<^verbatim>\<open>for(offset = blockSize / 2; offset > 0; offset /= 2)\<close>, with a barrier in every turn.\<close>

fun reduceTree :: "('r \<Rightarrow> 'r \<Rightarrow> 'r) \<Rightarrow> (nat \<Rightarrow> nat list) \<Rightarrow> nat \<Rightarrow> 'r list \<Rightarrow> 'r list option" where
  "reduceTree reduceFunc lanes offset dynS =
     (if offset > 0
      then Option.bind (fold_opt (\<lambda>laneIdInBlock dynS.
               if laneIdInBlock < offset then combineSlots reduceFunc (laneIdInBlock, [laneIdInBlock + offset]) dynS
               else Some dynS) (lanes offset) dynS)
             (reduceTree reduceFunc lanes (offset div 2))
      else Some dynS)"

declare reduceTree.simps [simp del]

definition reduceBlock :: "'r reduceRun \<Rightarrow> nat vec \<Rightarrow> nat vec \<Rightarrow> nat vec \<Rightarrow> nat vec \<Rightarrow> nat vec \<Rightarrow> 'r
    \<Rightarrow> 'r reduceFunc \<Rightarrow> ('d, 'r) transformFunc \<Rightarrow> (nat vec \<Rightarrow> 'd) list \<Rightarrow> nat vec \<Rightarrow> 'r option" where
  "reduceBlock run B T numChunks chunkExtents extentMd neutralElement rf func inputs b =
     Option.bind (fold_opt (reduceAccumulate run B T numChunks chunkExtents extentMd neutralElement rf func inputs b)
         (rr_order run b AccumulatePhase (all_idx T)) (map (rr_shared run b) [0..<vec_product chunkExtents])) (\<lambda>dynS.
     Option.bind (fold_opt (reduceAggregate run B T chunkExtents rf b) (rr_order run b AggregatePhase (all_idx T)) dynS) (\<lambda>dynS.
     Option.bind (reduceTree (rf_scalar rf) (\<lambda>offset. map (linearize T) (rr_order run b (TreePhase offset) (all_idx T)))
         (vec_product T div 2) dynS) (\<lambda>dynS.
       arr_get dynS 0)))"

text \<open>The thread with lane 0 of every block updates the first element of the output atomically.\<close>

definition simdTransformReduceKernel :: "'r reduceRun \<Rightarrow> nat vec \<Rightarrow> nat vec \<Rightarrow> nat vec \<Rightarrow> nat vec \<Rightarrow> nat vec \<Rightarrow> 'r
    \<Rightarrow> 'r list \<Rightarrow> 'r reduceFunc \<Rightarrow> ('d, 'r) transformFunc \<Rightarrow> (nat vec \<Rightarrow> 'd) list \<Rightarrow> 'r list option" where
  "simdTransformReduceKernel run B T numChunks chunkExtents extentMd neutralElement out rf func inputs =
     fold_opt (\<lambda>b out.
         Option.bind (reduceBlock run B T numChunks chunkExtents extentMd neutralElement rf func inputs b) (\<lambda>v.
         Option.bind (arr_get out 0) (\<lambda>ref. arr_set out 0 (fst (rf_atomic rf v ref)))))
       (rr_blockOrder run (all_idx B)) out"

section \<open>The host\<close>

text \<open>
  The number of frames is limited by the multiprocessors of the device, 32 frames for each unless it is
  a CPU; the shared memory has one element per frame item; the first element of the output is filled
  with the neutral element before the kernel is enqueued.
\<close>

record reduceDevice =
  rd_executor :: executor
  rd_warpSize :: nat
  rd_elementsPerFrameItem :: nat
  rd_multiProcessorCount :: nat
  rd_maxThreadsPerBlock :: nat

definition hostTransformReduce :: "reduceDevice \<Rightarrow> 'r reduceRun \<Rightarrow> 'r \<Rightarrow> 'r list \<Rightarrow> 'r reduceFunc
    \<Rightarrow> ('d, 'r) transformFunc \<Rightarrow> nat vec \<Rightarrow> (nat vec \<Rightarrow> 'd) list \<Rightarrow> 'r list option" where
  "hostTransformReduce dev run neutralElement out reduceFn transformFn extentMd inputs =
     Option.bind (getSimdFrameSpec (rd_warpSize dev) (rd_elementsPerFrameItem dev) (rd_executor dev) extentMd) (\<lambda>fs.
     (let multiprocessorScaling = (if rr_deviceKind run = Cpu then 1 else 32) in
     Option.bind (adjustToLimit (fs_numFrames fs) (rd_multiProcessorCount dev * multiprocessorScaling)) (\<lambda>adjustedNumFrames.
     (let fs = frameSpec adjustedNumFrames (fs_frameExtents fs) (rd_executor dev) in
     Option.bind (arr_set out 0 neutralElement) (\<lambda>out.
     Option.bind (adjustThreadSpec (rd_maxThreadsPerBlock dev) fs) (\<lambda>ts.
       simdTransformReduceKernel run (ths_numBlocks ts) (ths_numThreads ts) (fs_numFrames fs) (fs_frameExtents fs)
         extentMd neutralElement out reduceFn transformFn inputs))))))"

definition hostReduce :: "reduceDevice \<Rightarrow> 'r reduceRun \<Rightarrow> 'r \<Rightarrow> 'r list \<Rightarrow> 'r reduceFunc \<Rightarrow> nat vec
    \<Rightarrow> (nat vec \<Rightarrow> 'r) \<Rightarrow> 'r list option" where
  "hostReduce dev run neutralElement out reduceFn extentMd input =
     hostTransformReduce dev run neutralElement out reduceFn (PackTransform hd) extentMd [input]"

section \<open>What the loops of the kernel visit\<close>

definition loop_share :: "idxLayout \<Rightarrow> nat IdxRange \<Rightarrow> nat vec \<Rightarrow> nat vec \<Rightarrow> nat vec list" where
  "loop_share l r N t = the (traverse_indices Flat (idxContainer r (threadSpace t N) l (iotaCVec (length N))))"

lemma idx_loop_share:
  assumes "workerGroup_getThreadSpace wg (reduce_acc run B T b t) = Some (threadSpace u N)"
    and "length (range_distance r) = length N" "wf_range r (iotaCVec (length N)) N" "in_extents u N"
  shows "idx_loop (reduce_acc run B T b t) wg r
       = Some (loop_share (autoIndexMapping (rr_api run) (rr_deviceKind run)) r N u)"
proof -
  let ?l = "autoIndexMapping (rr_api run) (rr_deviceKind run)"
  have l: "resolve_layout (reduce_acc run B T b t) Optimized = ?l"
    by (simp add: resolve_layout_def adjustMapping_def reduce_acc_def launch_acc_def)
  have "traverse_indices Flat (idxContainer r (threadSpace u N) ?l (iotaCVec (length N))) \<noteq> None"
    using traverse_indices_terminates[OF assms(3,4)] .
  then show ?thesis
    unfolding idx_loop_def makeIdxMap_given[OF assms(1,2)] l bind.bind_lunit loop_share_def by auto
qed

lemma loop_share_mset:
  "wf_range r (iotaCVec (length N)) N \<Longrightarrow>
     mset (concat (map (loop_share l r N) (all_idx N))) = mset (range_points r (iotaCVec (length N)))"
  using traverse_indices_mset[of r N Flat l] by (simp add: loop_share_def[abs_def])

lemma reduce_workers:
  "workerGroup_getThreadSpace worker_threadsInBlock (reduce_acc run B T b t) = Some (threadSpace t T)"
  "workerGroup_getThreadSpace worker_blocksInGrid (reduce_acc run B T b t) = Some (threadSpace b B)"
  "workerGroup_getThreadSpace worker_linearThreadsInBlock (reduce_acc run B T b t)
     = Some (threadSpace [linearize T t] [vec_product T])"
  by (simp_all add: worker_threadsInBlock_def worker_blocksInGrid_def worker_linearThreadsInBlock_def reduce_acc_def launch_acc_def)

lemma product_lists_map_zip:
  "product_lists (map (\<lambda>s. map (h s) (vs s)) ss) = map (map2 h ss) (product_lists (map vs ss))"
  by (induction ss) (simp_all add: map_concat comp_def)

lemma divCeil_one: "divCeil n 1 = (n :: nat)"
  by (simp add: divCeil_def)

text \<open>The elements of a frame, the first elements of all frames, and the slots beyond the threads.\<close>

lemma frame_range:
  assumes "ce \<noteq> []"
  shows "range_points (idxRange1 ce) (iotaCVec (length ce)) = all_idx ce"
    and "length (range_distance (idxRange1 ce)) = length (ce :: nat vec)"
    and "length N = length ce \<Longrightarrow> \<forall>c \<in> set N. 0 < c \<Longrightarrow> wf_range (idxRange1 ce) (iotaCVec (length N)) N"
proof -
  have r: "idxRange1 ce = idxRange3 (replicate (length ce) 0) ce (replicate (length ce) 1)"
    by (simp add: idxRange1_def idxRange3_def vec_fill_replicate)
  have "map (\<lambda>s. map (\<lambda>j. replicate (length ce) 0 ! s + j * replicate (length ce) 1 ! s)
          [0..<divCeil (ce ! s - replicate (length ce) 0 ! s) (replicate (length ce) 1 ! s)]) [0..<length ce]
      = map (\<lambda>s. [0..<ce ! s]) [0..<length ce]"
    by (rule map_cong) (simp_all add: divCeil_one[simplified] map_idI)
  also have "\<dots> = map (\<lambda>e. [0..<e]) ce" by (rule nth_equalityI) simp_all
  finally show "range_points (idxRange1 ce) (iotaCVec (length ce)) = all_idx ce"
    unfolding r using assms by (simp add: range_points_iota all_idx_product)
  show "length (range_distance (idxRange1 ce)) = length ce" by (simp add: r range_distance_def idxRange3_def)
  show "wf_range (idxRange1 ce) (iotaCVec (length N)) N" if "length N = length ce" "\<forall>c \<in> set N. 0 < c"
    unfolding r by (rule wf_iota) (use that assms in \<open>auto simp: idxRange3_def\<close>)
qed

lemma frames_range:
  fixes nc ce :: "nat vec"
  assumes "ce \<noteq> []" "length nc = length ce" "\<forall>c \<in> set ce. 0 < c"
  defines "r \<equiv> idxRange3 (vec_fill (length (vec_mul nc ce)) 0) (vec_mul nc ce) ce"
  shows "range_points r (iotaCVec (length ce)) = map (\<lambda>k. map2 (\<lambda>s j. j * ce ! s) [0..<length ce] k) (all_idx nc)"
    and "length (range_distance r) = length ce"
    and "length N = length ce \<Longrightarrow> \<forall>c \<in> set N. 0 < c \<Longrightarrow> wf_range r (iotaCVec (length N)) N"
proof -
  let ?n = "length ce"
  have r: "r = idxRange3 (replicate ?n 0) (vec_mul nc ce) ce" by (simp add: r_def vec_fill_replicate assms(2))
  have dc: "divCeil (nc ! s * ce ! s) (ce ! s) = nc ! s" if "s < ?n" for s
    using divCeil_mult assms(3) that by simp
  have "map (\<lambda>s. map (\<lambda>j. replicate ?n 0 ! s + j * ce ! s) [0..<divCeil (vec_mul nc ce ! s - replicate ?n 0 ! s) (ce ! s)]) [0..<?n]
      = map (\<lambda>s. map (\<lambda>j. j * ce ! s) [0..<nc ! s]) [0..<?n]"
    by (rule map_cong) (simp_all add: dc assms(2))
  also have "product_lists \<dots> = map (map2 (\<lambda>s j. j * ce ! s) [0..<?n]) (product_lists (map (\<lambda>s. [0..<nc ! s]) [0..<?n]))"
    by (rule product_lists_map_zip)
  also have "map (\<lambda>s. [0..<nc ! s]) [0..<?n] = map (\<lambda>e. [0..<e]) nc" by (rule nth_equalityI) (simp_all add: assms(2))
  finally show "range_points r (iotaCVec ?n) = map (\<lambda>k. map2 (\<lambda>s j. j * ce ! s) [0..<?n] k) (all_idx nc)"
    unfolding r all_idx_product using assms by (simp add: range_points_iota)
  show "length (range_distance r) = ?n" by (simp add: r range_distance_def idxRange3_def assms(2))
  show "wf_range r (iotaCVec (length N)) N" if "length N = length ce" "\<forall>c \<in> set N. 0 < c"
    unfolding r by (rule wf_iota) (use that assms in \<open>auto simp: idxRange3_def\<close>)
qed

lemma slots_range:
  "range_points (idxRange2 [lo] [hi :: nat]) (iotaCVec 1) = map (\<lambda>j. [j]) [lo..<hi]"
  "length (range_distance (idxRange2 [lo] [hi])) = 1"
  "0 < N \<Longrightarrow> wf_range (idxRange2 [lo] [hi]) (iotaCVec 1) [N]"
proof -
  have r: "idxRange2 [lo] [hi] = idxRange3 [lo] [hi] [1]"
    by (simp add: idxRange2_def idxRange3_def vec_fill_replicate)
  have "map (\<lambda>j. [lo + j]) [0..<hi - lo] = map (\<lambda>j. [j]) [lo..<hi]"
    by (rule nth_equalityI) simp_all
  then show "range_points (idxRange2 [lo] [hi]) (iotaCVec 1) = map (\<lambda>j. [j]) [lo..<hi]"
    unfolding r by (simp add: range_points_iota divCeil_one[simplified] map_concat comp_def)
  show "length (range_distance (idxRange2 [lo] [hi])) = 1" by (simp add: r range_distance_def idxRange3_def)
  show "0 < N \<Longrightarrow> wf_range (idxRange2 [lo] [hi]) (iotaCVec 1) [N]"
    unfolding r by (rule wf_iota) (auto simp: idxRange3_def)
qed

text \<open>Every element of the index space of all frames is one element of one frame.\<close>

lemma frame_elements_mset:
  fixes nc ce :: "nat vec"
  assumes "length nc = length ce"
  shows "mset (map (\<lambda>(k, x). vec_add (map2 (\<lambda>s j. j * ce ! s) [0..<length ce] k) x) (List.product (all_idx nc) (all_idx ce)))
       = mset (all_idx (vec_mul nc ce))"
proof (rule mset_map_product_all_idx)
  let ?f = "\<lambda>(k, x). vec_add (map2 (\<lambda>s j. j * ce ! s) [0..<length ce] k) x"
  have nth: "?f (k, x) ! i = ce ! i * k ! i + x ! i" "length (?f (k, x)) = length ce"
    if "length k = length ce" "i < length ce" for k x :: "nat vec" and i
    using that by (simp_all add: vec_op_def mult.commute)
  have len: "length (?f (k, x)) = length ce" if "length k = length ce" for k x :: "nat vec"
    using that by (simp add: vec_op_def)
  show "inj_on ?f ({b. in_extents b nc} \<times> {t. in_extents t ce})"
  proof (rule inj_onI)
    fix p q assume pq: "p \<in> {b. in_extents b nc} \<times> {t. in_extents t ce}" "q \<in> {b. in_extents b nc} \<times> {t. in_extents t ce}" "?f p = ?f q"
    obtain k x k' x' where p: "p = (k, x)" and q: "q = (k', x')" by (cases p, cases q)
    from pq(1,2) p q assms have l: "length k = length ce" "length x = length ce" "length k' = length ce" "length x' = length ce"
      and lt: "\<And>i. i < length ce \<Longrightarrow> x ! i < ce ! i \<and> x' ! i < ce ! i" by (auto simp: in_extents_nth)
    have "k ! i = k' ! i \<and> x ! i = x' ! i" if "i < length ce" for i
      using grid_index_inj[of "x ! i" "ce ! i" "x' ! i" "k ! i" "k' ! i"] lt[OF that] pq(3) nth(1)[OF l(1) that, of x] nth(1)[OF l(3) that, of x']
      by (simp add: p q)
    then show "p = q" using l by (auto simp: p q intro!: nth_equalityI)
  qed
  show "in_extents (?f (k, x)) (vec_mul nc ce)" if "in_extents k nc" "in_extents x ce" for k x
  proof -
    have "k ! i * ce ! i + x ! i < nc ! i * ce ! i" if "i < length ce" for i
      using grid_index_less[of "k ! i" "nc ! i" "x ! i" "ce ! i"] that \<open>in_extents k nc\<close> \<open>in_extents x ce\<close> assms
      by (simp add: in_extents_nth mult.commute)
    then show ?thesis using that assms nth len by (auto simp: in_extents_nth)
  qed
  show "prod_list nc * prod_list ce = prod_list (vec_mul nc ce)" using prod_list_vec_mul assms by simp
qed

section \<open>The phases of a block\<close>

lemma fill_loop:
  "\<forall>x \<in> set xs. tb x < length s \<Longrightarrow> \<exists>s'. fold_opt (\<lambda>x s. arr_set s (tb x) a) xs s = Some s' \<and> length s' = length s
     \<and> (\<forall>c < length s. s' ! c = (if c \<in> tb ` set xs then a else s ! c))"
proof (induction xs arbitrary: s)
  case (Cons x xs)
  from Cons.prems Cons.IH[of "s[tb x := a]"] obtain s' where
    "fold_opt (\<lambda>x s. arr_set s (tb x) a) xs (s[tb x := a]) = Some s'" "length s' = length s"
    "\<forall>c < length s. s' ! c = (if c \<in> tb ` set xs then a else s[tb x := a] ! c)" by auto
  then show ?case using Cons.prems by (intro exI[of _ s']) (auto simp: nth_list_update)
qed simp

lemma accumulate_loop:
  "distinct (map tb xs) \<Longrightarrow> \<forall>x \<in> set xs. tb x < length s \<and> red (vec_add ch x) = Some (v (vec_add ch x)) \<Longrightarrow>
     \<exists>s'. fold_opt (accumulateElement f red tb ch) xs s = Some s' \<and> length s' = length s
       \<and> (\<forall>x \<in> set xs. s' ! tb x = f (s ! tb x) (v (vec_add ch x)))
       \<and> (\<forall>c < length s. c \<notin> tb ` set xs \<longrightarrow> s' ! c = s ! c)"
proof (induction xs arbitrary: s)
  case (Cons x xs)
  let ?s = "s[tb x := f (s ! tb x) (v (vec_add ch x))]"
  have step: "accumulateElement f red tb ch x s = Some ?s" using Cons.prems by (simp add: accumulateElement_def)
  from Cons.prems Cons.IH[of ?s] obtain s' where
    s': "fold_opt (accumulateElement f red tb ch) xs ?s = Some s'" "length s' = length s"
    "\<forall>y \<in> set xs. s' ! tb y = f (?s ! tb y) (v (vec_add ch y))" "\<forall>c < length s. c \<notin> tb ` set xs \<longrightarrow> s' ! c = ?s ! c" by auto
  have "s' ! tb y = f (s ! tb y) (v (vec_add ch y))" if "y \<in> set (x # xs)" for y
  proof (cases "y = x")
    case True
    then show ?thesis using s'(4) Cons.prems by auto
  next
    case False
    then have "y \<in> set xs" "tb x \<noteq> tb y" using that Cons.prems(1) by auto
    then show ?thesis using s'(3) by simp
  qed
  then show ?case using step s' by (intro exI[of _ s']) (simp add: nth_list_update)
qed simp

lemma frames_loop:
  assumes "distinct (map tb xs)"
  shows "\<forall>x \<in> set xs. tb x < length s \<and> (\<forall>ch \<in> set chs. red (vec_add ch x) = Some (v (vec_add ch x))) \<Longrightarrow>
     \<exists>s'. fold_opt (\<lambda>ch. fold_opt (accumulateElement f red tb ch) xs) chs s = Some s' \<and> length s' = length s
       \<and> (\<forall>x \<in> set xs. s' ! tb x = fold (\<lambda>ch a. f a (v (vec_add ch x))) chs (s ! tb x))
       \<and> (\<forall>c < length s. c \<notin> tb ` set xs \<longrightarrow> s' ! c = s ! c)"
proof (induction chs arbitrary: s)
  case (Cons ch chs)
  then obtain s1 where s1: "fold_opt (accumulateElement f red tb ch) xs s = Some s1" "length s1 = length s"
    "\<forall>x \<in> set xs. s1 ! tb x = f (s ! tb x) (v (vec_add ch x))" "\<forall>c < length s. c \<notin> tb ` set xs \<longrightarrow> s1 ! c = s ! c"
    using accumulate_loop[OF assms, of s red ch v f] by auto
  from Cons.prems Cons.IH[of s1] s1(2) obtain s' where
    "fold_opt (\<lambda>ch. fold_opt (accumulateElement f red tb ch) xs) chs s1 = Some s'" "length s' = length s"
    "\<forall>x \<in> set xs. s' ! tb x = fold (\<lambda>ch a. f a (v (vec_add ch x))) chs (s1 ! tb x)"
    "\<forall>c < length s. c \<notin> tb ` set xs \<longrightarrow> s' ! c = s1 ! c" by auto
  then show ?case using s1 by (intro exI[of _ s']) simp
qed simp

text \<open>Threads that write the same value to a cell whoever writes it.\<close>

lemma fold_opt_cells:
  assumes "\<And>t s. t \<in> set ts \<Longrightarrow> length s = n \<Longrightarrow>
     \<exists>s'. step t s = Some s' \<and> length s' = n \<and> (\<forall>c < n. s' ! c = (if c \<in> cells t then val c else s ! c))"
  shows "length s = n \<Longrightarrow> \<exists>s'. fold_opt step ts s = Some s' \<and> length s' = n
     \<and> (\<forall>c < n. s' ! c = (if \<exists>t \<in> set ts. c \<in> cells t then val c else s ! c))"
  using assms
proof (induction ts arbitrary: s)
  case (Cons t ts)
  from Cons.prems(2)[of t s] Cons.prems(1) obtain s1 where s1: "step t s = Some s1" "length s1 = n"
    "\<forall>c < n. s1 ! c = (if c \<in> cells t then val c else s ! c)" by auto
  from Cons.IH[OF s1(2)] Cons.prems(2) obtain s' where "fold_opt step ts s1 = Some s'" "length s' = n"
    "\<forall>c < n. s' ! c = (if \<exists>t \<in> set ts. c \<in> cells t then val c else s1 ! c)" by auto
  then show ?case using s1 by (intro exI[of _ s']) simp
qed simp

text \<open>Folding slots onto lanes: every lane reads its slots and writes itself.\<close>

definition combine_cells :: "nat \<times> nat list \<Rightarrow> nat set" where
  "combine_cells = (\<lambda>(lane, slots). insert lane (set slots))"

definition combine_result :: "('r \<Rightarrow> 'r \<Rightarrow> 'r) \<Rightarrow> nat \<times> nat list \<Rightarrow> 'r list \<Rightarrow> nat \<Rightarrow> 'r" where
  "combine_result f = (\<lambda>(lane, slots) s j.
     if j = lane then fold (\<lambda>slot a. f a (if slot = lane then a else s ! slot)) slots (s ! lane) else s ! j)"

lemma combineSlots_value:
  "lane < length s \<Longrightarrow> \<forall>c \<in> set slots. c < length s \<Longrightarrow>
     combineSlots f (lane, slots) s = Some (s[lane := combine_result f (lane, slots) s lane])"
proof (induction slots arbitrary: s)
  case (Cons c slots)
  have eq: "(\<lambda>slot a. f a (if slot = lane then a else s[lane := b] ! slot)) = (\<lambda>slot a. f a (if slot = lane then a else s ! slot))" for b
    by (intro ext) simp
  have "combineSlots f (lane, c # slots) s = combineSlots f (lane, slots) (s[lane := f (s ! lane) (s ! c)])"
    using Cons.prems by (simp add: combineSlots_def)
  also have "\<dots> = Some (s[lane := combine_result f (lane, c # slots) s lane])"
    using Cons by (simp add: combine_result_def eq split: if_splits)
  finally show ?case .
qed (simp add: combineSlots_def combine_result_def)

interpretation combine: parallel_phase "combineSlots f" combine_cells "combine_result f"
  for f :: "'r \<Rightarrow> 'r \<Rightarrow> 'r"
proof
  fix i :: "nat \<times> nat list" and s :: "'r list"
  obtain lane slots where i: "i = (lane, slots)" by (cases i)
  assume "\<forall>c \<in> combine_cells i. c < length s"
  then show "\<exists>s'. combineSlots f i s = Some s' \<and> length s' = length s
      \<and> (\<forall>j < length s. s' ! j = (if j \<in> combine_cells i then combine_result f i s j else s ! j))"
    by (auto simp: i combine_cells_def combineSlots_value combine_result_def nth_list_update)
next
  fix i :: "nat \<times> nat list" and s s' :: "'r list" and j
  obtain lane slots where i: "i = (lane, slots)" by (cases i)
  assume eq: "\<forall>c \<in> combine_cells i. s ! c = s' ! c" and j: "j \<in> combine_cells i"
  have "fold (\<lambda>slot a. f a (if slot = lane then a else s ! slot)) slots b
      = fold (\<lambda>slot a. f a (if slot = lane then a else s' ! slot)) slots b" for b
    by (rule fold_cong) (use eq in \<open>auto simp: i combine_cells_def\<close>)
  then show "combine_result f i s j = combine_result f i s' j" using eq j
    by (auto simp: i combine_cells_def combine_result_def)
qed

text \<open>What the phases assume of a launch, and the value a worker contributes.\<close>

definition reduce_run_ok :: "'r reduceRun \<Rightarrow> bool" where
  "reduce_run_ok run \<longleftrightarrow> 0 < simdWidth (rr_simd run) \<and> 0 < numSimdPacksPerFnCall (rr_simd run)
     \<and> (\<forall>b ph xs. mset (rr_order run b ph xs) = mset xs) \<and> (\<forall>xs. mset (rr_blockOrder run xs) = mset xs)"

definition reduce_dims_ok :: "nat vec \<Rightarrow> nat vec \<Rightarrow> nat vec \<Rightarrow> nat vec \<Rightarrow> nat vec \<Rightarrow> bool" where
  "reduce_dims_ok B T nc ce ext \<longleftrightarrow> ce \<noteq> [] \<and> length B = length ce \<and> length T = length ce \<and> length nc = length ce
     \<and> length ext = length ce \<and> (\<forall>xs \<in> {B, T, nc, ce}. \<forall>c \<in> set xs. 0 < c)"

definition run_layout :: "'r reduceRun \<Rightarrow> idxLayout" where
  "run_layout run = autoIndexMapping (rr_api run) (rr_deviceKind run)"

definition worker_elements :: "'r reduceRun \<Rightarrow> nat vec \<Rightarrow> nat vec \<Rightarrow> nat vec \<Rightarrow> nat vec list" where
  "worker_elements run ext N w = concat (map call_elements (worker_calls (rr_simd run) Flat (run_layout run) ext N w))"

definition block_frames :: "'r reduceRun \<Rightarrow> nat vec \<Rightarrow> nat vec \<Rightarrow> nat vec \<Rightarrow> nat vec \<Rightarrow> nat vec list" where
  "block_frames run B nc ce b = loop_share (run_layout run)
     (idxRange3 (vec_fill (length (vec_mul nc ce)) 0) (vec_mul nc ce) ce) B b"

lemma block_frames_mset:
  assumes "reduce_dims_ok B T nc ce ext"
  shows "mset (concat (map (block_frames run B nc ce) (all_idx B)))
       = mset (map (\<lambda>k. map2 (\<lambda>s j. j * ce ! s) [0..<length ce] k) (all_idx nc))"
proof -
  from assms have d: "ce \<noteq> []" "length nc = length ce" "\<forall>c \<in> set ce. 0 < c" "length B = length ce" "\<forall>c \<in> set B. 0 < c"
    by (auto simp: reduce_dims_ok_def)
  show ?thesis
    using loop_share_mset[OF frames_range(3)[OF d], of "run_layout run"] frames_range(1)[OF d(1-3)] d(4)
    by (simp add: block_frames_def[abs_def])
qed

lemma block_frames_extents:
  assumes "reduce_dims_ok B T nc ce ext" "in_extents b B" "ch \<in> set (block_frames run B nc ce b)" "in_extents x ce"
  shows "in_extents (vec_add ch x) (vec_mul nc ce)"
proof -
  have "ch \<in> set (concat (map (block_frames run B nc ce) (all_idx B)))" using assms(2,3) by (auto simp: set_all_idx)
  then obtain k where k: "in_extents k nc" "ch = map2 (\<lambda>s j. j * ce ! s) [0..<length ce] k"
    unfolding mset_eq_setD[OF block_frames_mset[OF assms(1)]] by (auto simp: set_all_idx)
  have "(k, x) \<in> set (List.product (all_idx nc) (all_idx ce))" using k(1) assms(4) by (simp add: set_all_idx)
  then have "vec_add ch x \<in> set (map (\<lambda>(k, x). vec_add (map2 (\<lambda>s j. j * ce ! s) [0..<length ce] k) x) (List.product (all_idx nc) (all_idx ce)))"
    using k(2) by force
  also have "\<dots> = set (all_idx (vec_mul nc ce))"
    using mset_eq_setD[OF frame_elements_mset] assms(1) by (simp add: reduce_dims_ok_def)
  finally show ?thesis by (simp add: set_all_idx)
qed

text \<open>The elements of all frames of all blocks are the workers of the whole index space.\<close>

lemma block_elements_mset:
  assumes "reduce_dims_ok B T nc ce ext"
  shows "mset (concat (map (\<lambda>b. concat (map (\<lambda>x. map (\<lambda>ch. vec_add ch x) (block_frames run B nc ce b)) (all_idx ce))) (all_idx B)))
       = mset (all_idx (vec_mul nc ce))"
proof -
  let ?F = "block_frames run B nc ce" and ?P = "map (\<lambda>k. map2 (\<lambda>s j. j * ce ! s) [0..<length ce] k) (all_idx nc)"
  have "mset (concat (map (\<lambda>x. map (\<lambda>ch. vec_add ch x) (?F b)) (all_idx ce)))
      = mset (concat (map (\<lambda>ch. map (vec_add ch) (all_idx ce)) (?F b)))" for b
    using mset_concat_swap[of "\<lambda>x ch. [vec_add ch x]" "?F b" "all_idx ce"]
    by (simp add: map_concat comp_def concat_map_singleton)
  then have "mset (concat (map (\<lambda>b. concat (map (\<lambda>x. map (\<lambda>ch. vec_add ch x) (?F b)) (all_idx ce))) (all_idx B)))
      = mset (concat (map (\<lambda>b. concat (map (\<lambda>ch. map (vec_add ch) (all_idx ce)) (?F b))) (all_idx B)))"
    by (intro mset_concat_map_cong)
  also have "\<dots> = mset (concat (map (\<lambda>ch. map (vec_add ch) (all_idx ce)) (concat (map ?F (all_idx B)))))"
    by (simp add: map_concat concat_concat_map comp_def)
  also have "\<dots> = mset (concat (map (\<lambda>ch. map (vec_add ch) (all_idx ce)) ?P))"
    by (rule mset_concat_map_mset[OF block_frames_mset[OF assms]])
  also have "concat (map (\<lambda>ch. map (vec_add ch) (all_idx ce)) ?P)
      = map (\<lambda>(k, x). vec_add (map2 (\<lambda>s j. j * ce ! s) [0..<length ce] k) x) (List.product (all_idx nc) (all_idx ce))"
    by (simp add: product_concat_map map_concat comp_def)
  also have "mset \<dots> = mset (all_idx (vec_mul nc ce))"
    by (rule frame_elements_mset) (use assms in \<open>simp add: reduce_dims_ok_def\<close>)
  finally show ?thesis .
qed

lemma lin_slots:
  assumes "ce \<noteq> []"
  shows "in_extents x ce \<Longrightarrow> linearize ce x < prod_list ce"
    and "in_extents x ce \<Longrightarrow> unlin ce (linearize ce x) = x"
    and "inj_on (linearize ce) {x. in_extents x (ce :: nat vec)}"
    and "map (linearize ce) (all_idx ce) = [0..<prod_list ce]"
    and "linearize ce ` {x. in_extents x ce} = {..<prod_list ce}"
proof -
  have l: "linearize ce x = lin ce x" if "in_extents x ce" for x
    using that assms list_all2_lengthD[OF that] by (intro linearize_lin) auto
  show 1: "linearize ce x < prod_list ce" if "in_extents x ce" for x using that l lin_less by simp
  show 2: "unlin ce (linearize ce x) = x" if "in_extents x ce" for x using that l unlin_lin by simp
  show "inj_on (linearize ce) {x. in_extents x ce}" by (rule inj_on_inverseI[of _ "unlin ce"]) (simp add: 2)
  have "linearize ce (unlin ce i) = i" if "i < prod_list ce" for i
    using l[OF unlin_in_extents[OF assms that]] lin_unlin[OF assms] by simp
  then show m: "map (linearize ce) (all_idx ce) = [0..<prod_list ce]"
    unfolding all_idx_unlin[OF assms] map_map by (intro map_idI) simp
  show "linearize ce ` {x. in_extents x ce} = {..<prod_list ce}"
    using arg_cong[OF m, of set] by (simp add: set_all_idx lessThan_atLeast0)
qed

lemma loop_share_distinct:
  assumes "wf_range r (iotaCVec (length N)) N" "distinct (range_points r (iotaCVec (length N)))" "in_extents u N"
  shows "distinct (loop_share l r N u)" "set (loop_share l r N u) \<subseteq> set (range_points r (iotaCVec (length N)))"
proof -
  note m = loop_share_mset[OF assms(1), of l]
  have "distinct (concat (map (loop_share l r N) (all_idx N)))"
    using mset_eq_imp_distinct_iff[OF m] assms(2) by simp
  moreover have "u \<in> set (all_idx N)" using assms(3) by (simp add: set_all_idx)
  ultimately show "distinct (loop_share l r N u)" by (auto simp: distinct_concat_iff)
  show "set (loop_share l r N u) \<subseteq> set (range_points r (iotaCVec (length N)))"
    using mset_eq_setD[OF m] \<open>u \<in> set (all_idx N)\<close> by auto
qed

context reduction
begin

lemma worker_value:
  assumes rf: "rf_scalar rf = f" "reducer_ok rf (rr_simd run)" and g: "elementwise (wrapTransformFunc func data) g"
    and run: "reduce_run_ok run" and dims: "reduce_dims_ok B T nc ce ext" and w: "in_extents w (vec_mul nc ce)"
  shows "transformReduce (rr_simd run) (rr_packed run) Flat Optimized (reduce_acc run B T b t)
          (WG_vectors w (vec_mul nc ce) True) ext e rf func data
       = Some (total f e (map g (worker_elements run ext (vec_mul nc ce) w)))"
proof -
  have N: "length (vec_mul nc ce) = length ext" "ext \<noteq> []" "\<forall>c \<in> set (vec_mul nc ce). 0 < c"
    using dims by (auto simp: reduce_dims_ok_def in_set_conv_nth vec_op_def)
  have l: "resolve_layout (reduce_acc run B T b t) Optimized = run_layout run"
    by (simp add: resolve_layout_def adjustMapping_def reduce_acc_def launch_acc_def run_layout_def)
  have pos: "0 < simdWidth (rr_simd run)" "0 < numSimdPacksPerFnCall (rr_simd run)"
    using run by (simp_all add: reduce_run_ok_def)
  have "workerGroup_getThreadSpace (WG_vectors w (vec_mul nc ce) True) (reduce_acc run B T b t) = Some (threadSpace w (vec_mul nc ce))"
    by simp
  from concurrent_worker_calls[OF this N w pos, of Flat Optimized, unfolded l]
  show ?thesis unfolding worker_elements_def by (rule transformReduce_thread[OF rf g pos])
qed

lemma accumulate_thread:
  assumes rf: "rf_scalar rf = f" "reducer_ok rf (rr_simd run)" and g: "elementwise (wrapTransformFunc func data) g"
    and run: "reduce_run_ok run" and dims: "reduce_dims_ok B T nc ce ext" and b: "in_extents b B" and t: "in_extents t T"
    and s: "length s = prod_list ce"
  defines "val \<equiv> \<lambda>x. total f e (map (\<lambda>ch. total f e (map g (worker_elements run ext (vec_mul nc ce) (vec_add ch x)))) (block_frames run B nc ce b))"
  shows "\<exists>s'. reduceAccumulate run B T nc ce ext e rf func data b t s = Some s' \<and> length s' = prod_list ce
     \<and> (\<forall>c < prod_list ce. s' ! c = (if c \<in> linearize ce ` set (loop_share (run_layout run) (idxRange1 ce) T t)
            then val (unlin ce c) else s ! c))"
proof -
  let ?l = "run_layout run" and ?tb = "linearize ce" and ?F = "block_frames run B nc ce b"
  let ?r = "idxRange3 (vec_fill (length (vec_mul nc ce)) 0) (vec_mul nc ce) ce"
  let ?xs = "loop_share ?l (idxRange1 ce) T t"
  let ?v = "\<lambda>w. total f e (map g (worker_elements run ext (vec_mul nc ce) w))"
  from dims have d: "ce \<noteq> []" "length nc = length ce" "\<forall>c \<in> set ce. 0 < c" "length B = length ce" "\<forall>c \<in> set B. 0 < c"
    "length T = length ce" "\<forall>c \<in> set T. 0 < c" by (auto simp: reduce_dims_ok_def)
  note fr = frame_range(3)[OF d(1,6,7)]
  have pts: "range_points (idxRange1 ce) (iotaCVec (length T)) = all_idx ce" using frame_range(1)[OF d(1)] d(6) by simp
  have xs: "distinct ?xs" "\<And>x. x \<in> set ?xs \<Longrightarrow> in_extents x ce"
    using loop_share_distinct[OF fr _ t, of ?l] by (auto simp: pts distinct_all_idx set_all_idx)
  have tb: "?tb x < prod_list ce" "unlin ce (?tb x) = x" if "x \<in> set ?xs" for x
    using lin_slots(1,2)[OF d(1) xs(2)[OF that]] .
  have inj: "distinct (map ?tb ?xs)" using xs lin_slots(3)[OF d(1)] by (auto simp: distinct_map intro: inj_on_subset)
  have l1: "idx_loop (reduce_acc run B T b t) worker_threadsInBlock (idxRange1 ce) = Some ?xs"
    unfolding run_layout_def by (rule idx_loop_share[OF reduce_workers(1) _ fr t]) (use frame_range(2)[OF d(1)] d(6) in simp)
  have l2: "idx_loop (reduce_acc run B T b t) worker_blocksInGrid ?r = Some ?F"
    unfolding run_layout_def block_frames_def
    by (rule idx_loop_share[OF reduce_workers(2) _ frames_range(3)[OF d(1-5)] b]) (use frames_range(2)[OF d(1-3)] d(4) in simp)
  have "\<forall>x \<in> set ?xs. ?tb x < length s" using tb(1) s by simp
  from fill_loop[OF this, of e] obtain s1 where s1: "fold_opt (\<lambda>x s. arr_set s (?tb x) e) ?xs s = Some s1" "length s1 = length s"
    "\<And>c. c < length s \<Longrightarrow> s1 ! c = (if c \<in> ?tb ` set ?xs then e else s ! c)" by auto
  let ?red = "\<lambda>w. transformReduce (rr_simd run) (rr_packed run) Flat Optimized (reduce_acc run B T b t)
          (WG_vectors w (vec_mul nc ce) True) ext e rf func data"
  have red: "\<forall>x \<in> set ?xs. ?tb x < length s1 \<and> (\<forall>ch \<in> set ?F. ?red (vec_add ch x) = Some (?v (vec_add ch x)))"
    using tb(1) s s1(2) worker_value[OF rf g run dims block_frames_extents[OF dims b _ xs(2)]] by auto
  from frames_loop[OF inj red, of f] obtain s2 where s2: "fold_opt (\<lambda>ch. fold_opt (accumulateElement f ?red ?tb ch) ?xs) ?F s1 = Some s2"
    "length s2 = length s1" "\<And>x. x \<in> set ?xs \<Longrightarrow> s2 ! ?tb x = fold (\<lambda>ch a. f a (?v (vec_add ch x))) ?F (s1 ! ?tb x)"
    "\<And>c. c < length s1 \<Longrightarrow> c \<notin> ?tb ` set ?xs \<Longrightarrow> s2 ! c = s1 ! c" by auto
  have "s2 ! ?tb x = val x" if "x \<in> set ?xs" for x
    using s2(3)[OF that] s1(3)[of "?tb x"] tb(1)[OF that] that s by (simp add: total_fold neutral val_def)
  then have "s2 ! c = (if c \<in> ?tb ` set ?xs then val (unlin ce c) else s ! c)" if "c < prod_list ce" for c
    using s1(2,3) s2(4) tb(2) that s by auto
  moreover have "reduceAccumulate run B T nc ce ext e rf func data b t s = Some s2"
    unfolding reduceAccumulate_def Let_def l1 l2 bind.bind_lunit s1(1) rf(1) by (rule s2(1))
  ultimately show ?thesis using s1(2) s2(2) s by (intro exI[of _ s2]) simp
qed

end

definition aggregate_slots :: "'r reduceRun \<Rightarrow> nat vec \<Rightarrow> nat vec \<Rightarrow> nat vec \<Rightarrow> nat list" where
  "aggregate_slots run T ce t = map vec_x (loop_share (run_layout run) (idxRange2 [prod_list T] [prod_list ce])
     [prod_list T] [linearize T t])"

lemma aggregate_slots_mset:
  assumes "T \<noteq> []" "\<forall>c \<in> set T. 0 < c"
  shows "mset (concat (map (aggregate_slots run T ce) (all_idx T))) = mset [prod_list T..<prod_list ce]"
proof -
  let ?n = "prod_list T" and ?C = "prod_list ce"
  let ?r = "idxRange2 [?n] [?C]"
  have "0 < ?n" using assms by (simp add: prod_list_pos_nat)
  then have wf: "wf_range ?r (iotaCVec (length [?n])) [?n]" using slots_range(3) by simp
  have lanes: "map (\<lambda>t. [linearize T t]) (all_idx T) = all_idx [?n]"
    using arg_cong[OF lin_slots(4)[OF assms(1)], of "map (\<lambda>i. [i])"] by (simp add: comp_def concat_map_singleton)
  have "mset (concat (map (aggregate_slots run T ce) (all_idx T)))
      = mset (map vec_x (concat (map (loop_share (run_layout run) ?r [?n]) (map (\<lambda>t. [linearize T t]) (all_idx T)))))"
    by (simp add: aggregate_slots_def[abs_def] map_concat comp_def)
  also have "\<dots> = mset (map vec_x (map (\<lambda>j. [j]) [?n..<?C]))"
    unfolding lanes mset_map[of vec_x] loop_share_mset[OF wf] using slots_range(1) by simp
  also have "map vec_x (map (\<lambda>j. [j]) [?n..<?C]) = [?n..<?C]" unfolding map_map by (rule map_idI) (simp add: vec_x_def)
  finally show ?thesis .
qed

lemma reduceAggregate_slots:
  assumes "ce \<noteq> []" "T \<noteq> []" "\<forall>c \<in> set T. 0 < c" "in_extents t T"
  shows "reduceAggregate run B T ce rf b t s = combineSlots (rf_scalar rf) (linearize T t, aggregate_slots run T ce t) s"
proof -
  let ?n = "prod_list T"
  have "0 < ?n" using assms by (simp add: prod_list_pos_nat)
  then have wf: "wf_range (idxRange2 [?n] [prod_list ce]) (iotaCVec (length [?n])) [?n]" using slots_range(3) by simp
  have "in_extents [linearize T t] [?n]" using lin_slots(1)[OF assms(2,4)] by simp
  from idx_loop_share[OF _ _ wf this, of worker_linearThreadsInBlock run B T b t]
  show ?thesis using reduce_workers(3)[of run B T b t] slots_range(2)
    by (simp add: reduceAggregate_def vec_product_prod_list[OF assms(1)] vec_product_prod_list[OF assms(2)] aggregate_slots_def run_layout_def)
qed

lemma distinct_concat_map_disjoint:
  "distinct (concat (map g xs)) \<Longrightarrow> x \<in> set xs \<Longrightarrow> y \<in> set xs \<Longrightarrow> x \<noteq> y \<Longrightarrow> set (g x) \<inter> set (g y) = {}"
  by (induction xs) auto

context reduction
begin

lemma accumulate_phase:
  assumes rf: "rf_scalar rf = f" "reducer_ok rf (rr_simd run)" and g: "elementwise (wrapTransformFunc func data) g"
    and run: "reduce_run_ok run" and dims: "reduce_dims_ok B T nc ce ext" and b: "in_extents b B"
  defines "val \<equiv> \<lambda>x. total f e (map (\<lambda>ch. total f e (map g (worker_elements run ext (vec_mul nc ce) (vec_add ch x)))) (block_frames run B nc ce b))"
  shows "fold_opt (reduceAccumulate run B T nc ce ext e rf func data b) (rr_order run b AccumulatePhase (all_idx T))
         (map (rr_shared run b) [0..<vec_product ce]) = Some (map val (all_idx ce))"
proof -
  let ?ts = "rr_order run b AccumulatePhase (all_idx T)" and ?xs = "loop_share (run_layout run) (idxRange1 ce) T"
  from dims have d: "ce \<noteq> []" "length T = length ce" "\<forall>c \<in> set T. 0 < c" by (auto simp: reduce_dims_ok_def)
  let ?s0 = "map (rr_shared run b) [0..<vec_product ce]"
  have "mset ?ts = mset (all_idx T)" and sh: "length ?s0 = prod_list ce"
    using run vec_product_prod_list[OF d(1)] by (simp_all add: reduce_run_ok_def)
  then have ts: "set ?ts = {t. in_extents t T}" using mset_eq_setD[of ?ts] by (simp add: set_all_idx)
  obtain s where s: "fold_opt (reduceAccumulate run B T nc ce ext e rf func data b) ?ts ?s0 = Some s" "length s = prod_list ce"
    "\<And>c. c < prod_list ce \<Longrightarrow> s ! c = (if \<exists>t \<in> set ?ts. c \<in> linearize ce ` set (?xs t) then val (unlin ce c) else ?s0 ! c)"
    using fold_opt_cells[of ?ts "prod_list ce" "reduceAccumulate run B T nc ce ext e rf func data b" "\<lambda>t. linearize ce ` set (?xs t)"
        "\<lambda>c. val (unlin ce c)", OF _ sh] accumulate_thread[OF rf g run dims b] ts unfolding val_def by blast
  have all: "(\<Union>t \<in> set ?ts. set (?xs t)) = {x. in_extents x ce}"
    using mset_eq_setD[OF loop_share_mset[OF frame_range(3)[OF d], of "run_layout run"]] frame_range(1)[OF d(1)] d(2)
    by (simp add: ts set_all_idx)
  have "s ! c = val (unlin ce c)" if "c < prod_list ce" for c
  proof -
    have "c \<in> linearize ce ` (\<Union>t \<in> set ?ts. set (?xs t))" unfolding all lin_slots(5)[OF d(1)] using that by simp
    then show ?thesis using s(3)[OF that] by (simp add: image_UN)
  qed
  then have "s = map val (all_idx ce)" unfolding all_idx_unlin[OF d(1)]
    using s(2) by (intro nth_equalityI) simp_all
  then show ?thesis using s(1) by simp
qed

lemma aggregate_phase:
  assumes rf: "rf_scalar rf = f" and run: "reduce_run_ok run" and dims: "reduce_dims_ok B T nc ce ext"
    and s: "length s = prod_list ce" and le: "prod_list T \<le> prod_list ce"
  shows "\<exists>s'. fold_opt (reduceAggregate run B T ce rf b) (rr_order run b AggregatePhase (all_idx T)) s = Some s'
     \<and> length s' = prod_list ce \<and> total f e (map ((!) s') [0..<prod_list T]) = total f e s"
proof -
  let ?ts = "rr_order run b AggregatePhase (all_idx T)" and ?n = "prod_list T" and ?C = "prod_list ce"
  let ?slots = "aggregate_slots run T ce"
  let ?i = "\<lambda>t. (linearize T t, ?slots t)"
  from dims have d: "ce \<noteq> []" "T \<noteq> []" "\<forall>c \<in> set T. 0 < c" by (auto simp: reduce_dims_ok_def)
  have perm: "mset ?ts = mset (all_idx T)" using run by (simp add: reduce_run_ok_def)
  then have ts: "set ?ts = {t. in_extents t T}" "distinct ?ts"
    using mset_eq_setD[OF perm] mset_eq_imp_distinct_iff[OF perm] by (simp_all add: set_all_idx distinct_all_idx)
  note part = aggregate_slots_mset[OF d(2,3), of run ce]
  have rest: "mset (concat (map ?slots ?ts)) = mset [?n..<?C]" using mset_concat_map_mset[OF perm, of ?slots] part by simp
  have slot: "n' \<in> {?n..<?C}" if "in_extents t T" "n' \<in> set (?slots t)" for t n'
    using mset_eq_setD[OF part] that by (auto simp: set_all_idx)
  have lane: "linearize T t < ?n" if "in_extents t T" for t using lin_slots(1)[OF d(2) that] .
  have lane_inj: "t = t'" if "in_extents t T" "in_extents t' T" "linearize T t = linearize T t'" for t t'
    using inj_onD[OF lin_slots(3)[OF d(2)] that(3)] that(1,2) by simp
  have dist: "distinct (concat (map ?slots ?ts))" using mset_eq_imp_distinct_iff[OF rest] by simp
  have "distinct (map ?i ?ts)" using ts lane_inj by (auto simp: distinct_map intro!: inj_onI)
  moreover have "\<forall>i \<in> set (map ?i ?ts). \<forall>i' \<in> set (map ?i ?ts). i \<noteq> i' \<longrightarrow> combine_cells i \<inter> combine_cells i' = {}"
  proof (intro ballI impI)
    fix i i' assume "i \<in> set (map ?i ?ts)" "i' \<in> set (map ?i ?ts)" "i \<noteq> i'"
    then obtain t t' where t: "i = ?i t" "i' = ?i t'" "t \<in> set ?ts" "t' \<in> set ?ts" "t \<noteq> t'" by auto
    then have te: "in_extents t T" "in_extents t' T" using ts(1) by auto
    have "set (?slots t) \<inter> set (?slots t') = {}" using distinct_concat_map_disjoint[OF dist t(3-5)] .
    moreover have "linearize T t \<noteq> linearize T t'" using lane_inj[OF te] t(5) by blast
    moreover have "linearize T t \<notin> set (?slots t')" "linearize T t' \<notin> set (?slots t)"
      using lane[OF te(1)] lane[OF te(2)] slot[OF te(1)] slot[OF te(2)] by fastforce+
    ultimately show "combine_cells i \<inter> combine_cells i' = {}" by (simp add: t(1,2) combine_cells_def)
  qed
  moreover have "\<forall>i \<in> set (map ?i ?ts). \<forall>c \<in> combine_cells i. c < length s"
    using lane slot ts(1) s le by (fastforce simp: combine_cells_def)
  ultimately obtain s' where s': "fold_opt (combineSlots f) (map ?i ?ts) s = Some s'" "length s' = length s"
    "\<And>t j. t \<in> set ?ts \<Longrightarrow> j \<in> combine_cells (?i t) \<Longrightarrow> s' ! j = combine_result f (?i t) s j"
    using combine.phase[of "map ?i ?ts" s f] by auto
  have val: "s' ! linearize T t = f (s ! linearize T t) (total f e (map ((!) s) (?slots t)))" if "in_extents t T" for t
  proof -
    have "fold (\<lambda>slot a. f a (if slot = linearize T t then a else s ! slot)) (?slots t) a = fold (\<lambda>slot a. f a (s ! slot)) (?slots t) a" for a
      by (rule fold_cong) (use slot[OF that] lane[OF that] in fastforce)+
    then show ?thesis using s'(3)[of t "linearize T t"] that ts(1)
      by (simp add: combine_cells_def combine_result_def total_fold)
  qed
  have "total f e (map ((!) s') [0..<?n]) = total f e (map (\<lambda>t. s' ! linearize T t) (all_idx T))"
    unfolding lin_slots(4)[OF d(2), symmetric] by (simp add: comp_def)
  also have "\<dots> = total f e (map (\<lambda>t. f (s ! linearize T t) (total f e (map ((!) s) (?slots t)))) (all_idx T))"
    by (rule arg_cong[where f = "total f e"], rule map_cong) (simp_all add: val set_all_idx)
  also have "\<dots> = f (total f e (map (\<lambda>t. s ! linearize T t) (all_idx T))) (total f e (map (\<lambda>t. total f e (map ((!) s) (?slots t))) (all_idx T)))"
    by (rule total_map_f)
  also have "map (\<lambda>t. s ! linearize T t) (all_idx T) = map ((!) s) [0..<?n]"
    unfolding lin_slots(4)[OF d(2), symmetric] by (simp add: comp_def)
  also have "total f e (map (\<lambda>t. total f e (map ((!) s) (?slots t))) (all_idx T)) = total f e (map ((!) s) (concat (map ?slots (all_idx T))))"
    by (simp add: total_concat map_concat comp_def)
  also have "\<dots> = total f e (map ((!) s) [?n..<?C])"
    by (rule total_mset) (simp only: mset_map part)
  also have "f (total f e (map ((!) s) [0..<?n])) \<dots> = total f e (map ((!) s) ([0..<?n] @ [?n..<?C]))"
    by (simp add: total_append)
  also have "[0..<?n] @ [?n..<?C] = [0..<length s]" using le s upt_add_eq_append[of 0 ?n "?C - ?n"] by simp
  also have "map ((!) s) \<dots> = s" by (rule map_nth)
  finally have "total f e (map ((!) s') [0..<?n]) = total f e s" .
  moreover have "fold_opt (reduceAggregate run B T ce rf b) ?ts s = Some s'"
  proof -
    have "reduceAggregate run B T ce rf b t s = combineSlots f (?i t) s" if "t \<in> set ?ts" for t s
      using reduceAggregate_slots[OF d, of t run B rf b s] that ts(1) rf by simp
    then show ?thesis unfolding s'(1)[symmetric] by (rule fold_opt_cong_map)
  qed
  ultimately show ?thesis using s'(2) s by (intro exI[of _ s']) simp
qed

end

context reduction
begin

text \<open>One turn of the tree halves the slots, in whatever order the lanes take it.\<close>

lemma tree_turn:
  assumes "2 * offset \<le> length s" "distinct ls" "{..<offset} \<subseteq> set ls"
  shows "\<exists>s'. fold_opt (\<lambda>lane s. if lane < offset then combineSlots f (lane, [lane + offset]) s else Some s) ls s = Some s'
     \<and> length s' = length s \<and> total f e (map ((!) s') [0..<offset]) = total f e (map ((!) s) [0..<2 * offset])"
proof -
  let ?is = "map (\<lambda>lane. (lane, [lane + offset])) (filter (\<lambda>lane. lane < offset) ls)"
  have d: "distinct ?is" using assms(2) by (auto simp: distinct_map inj_on_def)
  have disj: "\<forall>i \<in> set ?is. \<forall>i' \<in> set ?is. i \<noteq> i' \<longrightarrow> combine_cells i \<inter> combine_cells i' = {}"
    by (auto simp: combine_cells_def)
  have bound: "\<forall>i \<in> set ?is. \<forall>c \<in> combine_cells i. c < length s" using assms(1) by (auto simp: combine_cells_def)
  from combine.phase[OF d disj bound, of f] obtain s' where
    s': "fold_opt (combineSlots f) ?is s = Some s'" "length s' = length s"
      "\<forall>i \<in> set ?is. \<forall>j \<in> combine_cells i. s' ! j = combine_result f i s j" by (elim exE conjE) (rule that)
  have "s' ! lane = f (s ! lane) (s ! (lane + offset))" if "lane < offset" for lane
  proof -
    have i: "(lane, [lane + offset]) \<in> set ?is" using that assms(3) by auto
    have "s' ! lane = combine_result f (lane, [lane + offset]) s lane"
      by (rule s'(3)[THEN bspec, OF i, THEN bspec]) (simp add: combine_cells_def)
    then show ?thesis using that by (simp add: combine_result_def)
  qed
  then have "map ((!) s') [0..<offset] = map (\<lambda>lane. f (s ! lane) (s ! (lane + offset))) [0..<offset]" by simp
  then have "total f e (map ((!) s') [0..<offset]) = f (total f e (map ((!) s) [0..<offset])) (total f e (map (\<lambda>lane. s ! (lane + offset)) [0..<offset]))"
    by (simp only: total_map_f)
  also have "\<dots> = total f e (map ((!) s) [0..<offset] @ map (\<lambda>lane. s ! (lane + offset)) [0..<offset])"
    by (simp only: total_append)
  also have "map ((!) s) [0..<offset] @ map (\<lambda>lane. s ! (lane + offset)) [0..<offset] = map ((!) s) [0..<2 * offset]"
    by (rule nth_equalityI) (auto simp: nth_append)
  finally have "total f e (map ((!) s') [0..<offset]) = total f e (map ((!) s) [0..<2 * offset])" .
  moreover have "fold_opt (\<lambda>lane s. if lane < offset then combineSlots f (lane, [lane + offset]) s else Some s) ls s = Some s'"
    unfolding fold_opt_filter s'(1)[symmetric] by (rule fold_opt_cong_map) simp
  ultimately show ?thesis using s'(2) by blast
qed

lemma tree_total:
  assumes "\<And>offset. distinct (lanes offset)" "\<And>offset. {..<n} \<subseteq> set (lanes offset)"
  shows "2 ^ k \<le> length s \<Longrightarrow> 2 ^ k \<le> n \<Longrightarrow>
     \<exists>s'. reduceTree f lanes (2 ^ k div 2) s = Some s' \<and> length s' = length s \<and> s' ! 0 = total f e (map ((!) s) [0..<2 ^ k])"
proof (induction k arbitrary: s)
  case 0
  then show ?case by (simp add: reduceTree.simps)
next
  case (Suc k)
  let ?o = "2 ^ k :: nat"
  have cover: "{..<?o} \<subseteq> set (lanes ?o)" using assms(2)[of ?o] Suc.prems(2) by auto
  have fits: "2 * ?o \<le> length s" using Suc.prems(1) by simp
  from tree_turn[OF fits assms(1) cover] obtain s1 where s1:
    "fold_opt (\<lambda>lane s. if lane < ?o then combineSlots f (lane, [lane + ?o]) s else Some s) (lanes ?o) s = Some s1"
    "length s1 = length s" "total f e (map ((!) s1) [0..<?o]) = total f e (map ((!) s) [0..<2 * ?o])"
    by (elim exE conjE) (rule that)
  from Suc.IH[of s1] Suc.prems s1(2) obtain s' where "reduceTree f lanes (?o div 2) s1 = Some s'" "length s' = length s1"
    "s' ! 0 = total f e (map ((!) s1) [0..<?o])" by auto
  moreover have "reduceTree f lanes (2 ^ Suc k div 2) s = Option.bind (fold_opt (\<lambda>lane s.
      if lane < ?o then combineSlots f (lane, [lane + ?o]) s else Some s) (lanes ?o) s) (reduceTree f lanes (?o div 2))"
    by (simp add: reduceTree.simps[of f lanes "2 ^ k"])
  ultimately show ?case using s1 by simp
qed

lemma reduceBlock_value:
  assumes rf: "rf_scalar rf = f" "reducer_ok rf (rr_simd run)" and g: "elementwise (wrapTransformFunc func data) g"
    and run: "reduce_run_ok run" and dims: "reduce_dims_ok B T nc ce ext" and b: "in_extents b B"
    and threads: "prod_list T = 2 ^ k" "prod_list T \<le> prod_list ce"
  shows "reduceBlock run B T nc ce ext e rf func data b
       = Some (total f e (map (\<lambda>w. total f e (map g (worker_elements run ext (vec_mul nc ce) w)))
           (concat (map (\<lambda>x. map (\<lambda>ch. vec_add ch x) (block_frames run B nc ce b)) (all_idx ce)))))"
proof -
  let ?v = "\<lambda>w. total f e (map g (worker_elements run ext (vec_mul nc ce) w))"
  let ?s = "map (\<lambda>x. total f e (map (\<lambda>ch. ?v (vec_add ch x)) (block_frames run B nc ce b))) (all_idx ce)"
  let ?lanes = "\<lambda>offset. map (linearize T) (rr_order run b (TreePhase offset) (all_idx T))"
  from dims have d: "T \<noteq> []" by (auto simp: reduce_dims_ok_def)
  have "length ?s = prod_list ce" by (simp add: length_all_idx)
  from aggregate_phase[OF rf(1) run dims this threads(2)] obtain s1 where
    s1: "fold_opt (reduceAggregate run B T ce rf b) (rr_order run b AggregatePhase (all_idx T)) ?s = Some s1"
    "length s1 = prod_list ce" "total f e (map ((!) s1) [0..<prod_list T]) = total f e ?s" by blast
  have "mset (?lanes offset) = mset [0..<prod_list T]" for offset
    using run by (simp add: reduce_run_ok_def lin_slots(4)[OF d, symmetric])
  then have "distinct (?lanes offset)" "{..<prod_list T} \<subseteq> set (?lanes offset)" for offset
    using mset_eq_imp_distinct_iff[of "?lanes offset" "[0..<prod_list T]"] mset_eq_setD[of "?lanes offset" "[0..<prod_list T]"] by auto
  from tree_total[of ?lanes, OF this, of k s1] s1(2) threads obtain s2 where
    s2: "reduceTree f ?lanes (prod_list T div 2) s1 = Some s2" "length s2 = length s1" "s2 ! 0 = total f e (map ((!) s1) [0..<prod_list T])" by auto
  have "0 < length s2" using s1(2) s2(2) threads by (metis less_le_trans zero_less_numeral zero_less_power)
  then have "reduceBlock run B T nc ce ext e rf func data b = Some (s2 ! 0)"
    unfolding reduceBlock_def accumulate_phase[OF rf g run dims b] s1(1) bind.bind_lunit vec_product_prod_list[OF d] rf(1) s2(1)
    by simp
  also have "s2 ! 0 = total f e (map ?v (concat (map (\<lambda>x. map (\<lambda>ch. vec_add ch x) (block_frames run B nc ce b)) (all_idx ce))))"
    unfolding s2(3) s1(3) by (simp add: total_concat map_concat comp_def)
  finally show ?thesis .
qed

lemma kernel_value:
  assumes rf: "rf_scalar rf = f" "reducer_ok rf (rr_simd run)" "\<And>v ref. fst (rf_atomic rf v ref) = f ref v"
    and g: "elementwise (wrapTransformFunc func data) g"
    and run: "reduce_run_ok run" and dims: "reduce_dims_ok B T nc ce ext"
    and threads: "prod_list T = 2 ^ k" "prod_list T \<le> prod_list ce"
  shows "simdTransformReduceKernel run B T nc ce ext e (x # xs) rf func data
       = Some (f x (total f e (map g (all_idx ext))) # xs)"
proof -
  let ?els = "\<lambda>b. concat (map (\<lambda>x. map (\<lambda>ch. vec_add ch x) (block_frames run B nc ce b)) (all_idx ce))"
  let ?v = "\<lambda>w. total f e (map g (worker_elements run ext (vec_mul nc ce) w))"
  let ?bv = "\<lambda>b. total f e (map ?v (?els b))"
  let ?bs = "rr_blockOrder run (all_idx B)"
  have perm: "mset ?bs = mset (all_idx B)" using run by (simp add: reduce_run_ok_def)
  have bs: "in_extents b B" if "b \<in> set ?bs" for b using mset_eq_setD[OF perm] that by (simp add: set_all_idx)
  let ?body = "\<lambda>b out. Option.bind (reduceBlock run B T nc ce ext e rf func data b) (\<lambda>v.
         Option.bind (arr_get out 0) (\<lambda>ref. arr_set out 0 (fst (rf_atomic rf v ref))))"
  have "fold_opt ?body bs (x # xs) = Some (f x (total f e (map ?bv bs)) # xs)" if "set bs \<subseteq> set ?bs" for bs
    using that
  proof (induction bs arbitrary: x)
    case (Cons b bs)
    then show ?case using reduceBlock_value[OF rf(1,2) g run dims bs threads, of b] by (simp add: rf(3) assoc)
  qed simp
  then have "simdTransformReduceKernel run B T nc ce ext e (x # xs) rf func data = Some (f x (total f e (map ?bv ?bs)) # xs)"
    by (simp add: simdTransformReduceKernel_def)
  also have "total f e (map ?bv ?bs) = total f e (map ?bv (all_idx B))"
    by (rule total_mset) (simp only: mset_map perm)
  also have "\<dots> = total f e (map ?v (concat (map ?els (all_idx B))))"
    by (simp only: total_concat map_concat map_map comp_def)
  also have "\<dots> = total f e (map ?v (all_idx (vec_mul nc ce)))"
    by (rule total_mset) (simp only: mset_map block_elements_mset[OF dims])
  also have "\<dots> = total f e (map g (concat (map (worker_elements run ext (vec_mul nc ce)) (all_idx (vec_mul nc ce)))))"
    by (simp only: total_concat map_concat map_map comp_def)
  also have "\<dots> = total f e (map g (all_idx ext))"
  proof (rule total_mset)
    have "ext \<noteq> []" "length (vec_mul nc ce) = length ext" "\<forall>c \<in> set (vec_mul nc ce). 0 < c" "0 < simdWidth (rr_simd run)"
      using dims run by (auto simp: reduce_dims_ok_def reduce_run_ok_def in_set_conv_nth vec_op_def)
    from worker_calls_complete[OF this, of Flat "run_layout run"]
    show "mset (map g (concat (map (worker_elements run ext (vec_mul nc ce)) (all_idx (vec_mul nc ce))))) = mset (map g (all_idx ext))"
      by (simp only: mset_map worker_elements_def[abs_def])
  qed
  finally show ?thesis .
qed

end

section \<open>The result\<close>

lemma pow2_prod: "\<forall>i < length xs. \<exists>k. xs ! i = (2 :: nat) ^ k \<Longrightarrow> \<exists>k. prod_list xs = 2 ^ k"
proof (induction xs)
  case (Cons x xs)
  then obtain k k' where "x = 2 ^ k" "prod_list xs = 2 ^ k'" by fastforce
  then show ?case by (metis power_add prod_list.Cons)
qed (simp add: exI[of _ 0])

lemma prod_list_mono: "length xs = length ys \<Longrightarrow> \<forall>i < length ys. xs ! i \<le> (ys ! i :: nat) \<Longrightarrow> prod_list xs \<le> prod_list ys"
proof (induction xs ys rule: list_induct2)
  case (Cons x xs y ys)
  then have "x \<le> y" "\<forall>i < length ys. xs ! i \<le> ys ! i" by fastforce+
  with Cons.IH show ?case by (simp add: mult_le_mono)
qed simp

lemma pow2_halved:
  assumes "(2 :: nat) ^ k div 2 ^ h \<ge> 1"
  shows "\<exists>k'. (2 :: nat) ^ k div 2 ^ h = 2 ^ k'"
proof -
  have "h \<le> k" using assms by (rule contrapos_pp) (simp add: power_strict_increasing)
  then show ?thesis using power_diff[of "2 :: nat" h k] by (intro exI[of _ "k - h"]) simp
qed

text \<open>Every executor runs the frames with a power of two of threads that fit into the frame.\<close>

lemma adjustThreadSpec_threads:
  assumes fe: "fe \<noteq> []" "\<forall>i < length fe. \<exists>k. fe ! i = 2 ^ k" and nf: "length nf = length fe" "\<forall>c \<in> set nf. 0 < c"
    and limit: "0 < maxThreads"
  shows "\<exists>B T k ex'. adjustThreadSpec maxThreads (frameSpec nf fe ex) = Some (threadSpec B T ex')
     \<and> length B = length fe \<and> length T = length fe \<and> (\<forall>c \<in> set B. 0 < c) \<and> (\<forall>c \<in> set T. 0 < c)
     \<and> prod_list T = 2 ^ k \<and> prod_list T \<le> prod_list fe"
proof -
  have pos: "\<forall>c \<in> set fe. 0 < c" using fe(2) by (fastforce simp: in_set_conv_nth)
  have p: "0 < prod_list fe" using pos by (simp add: prod_list_pos_nat)
  let ?one = "replicate (length fe) (1 :: nat)"
  have limited: "\<exists>r k. adjustToLimit fe maxThreads = Some r \<and> length r = length fe \<and> prod_list r = 2 ^ k
      \<and> prod_list r \<le> prod_list fe \<and> (\<forall>c \<in> set r. 0 < c)"
  proof -
    from adjustToLimit_halves[OF fe(1) pos limit] obtain r where r: "adjustToLimit fe maxThreads = Some r" "length r = length fe"
      "\<forall>i < length fe. 1 \<le> r ! i \<and> (\<exists>h. r ! i = fe ! i div 2 ^ h)" by blast
    have "\<exists>k. r ! i = 2 ^ k" if "i < length r" for i
    proof -
      from r(2,3) fe(2) that obtain h k where "r ! i = fe ! i div 2 ^ h" "fe ! i = 2 ^ k" "1 \<le> r ! i" by metis
      then show ?thesis using pow2_halved[of k h] by simp
    qed
    then obtain k where k: "prod_list r = 2 ^ k" using pow2_prod[of r] by blast
    have "\<forall>i < length fe. r ! i \<le> fe ! i" using r(3) by (metis div_le_dividend)
    with r(2) have "prod_list r \<le> prod_list fe" by (rule prod_list_mono)
    moreover have "\<forall>c \<in> set r. 0 < c" using r(2,3) by (fastforce simp: in_set_conv_nth)
    ultimately show ?thesis using r(1,2) k by blast
  qed
  then obtain r k where r: "adjustToLimit fe maxThreads = Some r" "length r = length fe" "prod_list r = 2 ^ k"
    "prod_list r \<le> prod_list fe" "\<forall>c \<in> set r. 0 < c" by blast
  show ?thesis
  proof (cases ex)
    case AnyExecutor
    from pow2_prod[OF fe(2)] obtain k where "prod_list fe = 2 ^ k" by blast
    with AnyExecutor nf pos show ?thesis
      by (intro exI[of _ nf] exI[of _ fe] exI[of _ k] exI[of _ ex]) (simp add: adjustThreadSpec_def frameSpec_def adjustThreadSpec_default_def)
  next
    case CpuSerial
    with p show ?thesis
      by (intro exI[of _ ?one] exI[of _ ?one] exI[of _ 0] exI[of _ ex])
         (simp add: adjustThreadSpec_def frameSpec_def adjustThreadSpec_serial_def vec_fill_replicate prod_list_replicate Let_def)
  next
    case CpuOmpBlocks
    with p nf show ?thesis
      by (intro exI[of _ nf] exI[of _ ?one] exI[of _ 0] exI[of _ ex])
         (simp add: adjustThreadSpec_def frameSpec_def adjustThreadSpec_seq_def vec_fill_replicate prod_list_replicate)
  next
    case CpuTbbBlocks
    with p nf show ?thesis
      by (intro exI[of _ nf] exI[of _ ?one] exI[of _ 0] exI[of _ ex])
         (simp add: adjustThreadSpec_def frameSpec_def adjustThreadSpec_seq_def vec_fill_replicate prod_list_replicate)
  next
    case GpuCuda
    with r nf show ?thesis by (intro exI[of _ nf] exI[of _ r] exI[of _ k] exI[of _ ex])
      (simp add: adjustThreadSpec_def frameSpec_def adjustThreadSpec_cuda_def)
  next
    case GpuHip
    with r nf show ?thesis by (intro exI[of _ nf] exI[of _ r] exI[of _ k] exI[of _ ex])
      (simp add: adjustThreadSpec_def frameSpec_def adjustThreadSpec_cuda_def)
  next
    case OneApi
    with r nf show ?thesis by (intro exI[of _ nf] exI[of _ r] exI[of _ k] exI[of _ AnyExecutor])
      (simp add: adjustThreadSpec_def frameSpec_def adjustThreadSpec_sycl_def)
  qed
qed

lemma getSimdFrameSpec_frames:
  assumes "extentMd \<noteq> []" "\<forall>i < length extentMd. 0 < extentMd ! i" "0 < warpSize" "warpSize < 2 ^ 64"
  shows "\<exists>nf fe. getSimdFrameSpec warpSize epi ex extentMd = Some (frameSpec nf fe ex) \<and> length nf = length extentMd
     \<and> (\<forall>c \<in> set nf. 0 < c) \<and> length fe = length extentMd \<and> (\<forall>i < length fe. \<exists>k. fe ! i = 2 ^ k)"
proof -
  from getFrameSpec_fits[OF assms, of ex] obtain fe where
    fe: "getFrameSpec warpSize ex extentMd = Some (frameSpec (vec_divCeil extentMd fe) fe ex)" "frame_fits extentMd fe" by blast
  let ?m = "vec_mul fe (vec_rAssign (vec_fill (length extentMd) 1) epi)"
  have "length (vec_divExZero extentMd ?m) = length extentMd"
    unfolding vec_divExZero_def Let_def by (rule trans[OF length_for_upto]) simp_all
  moreover have "\<forall>i < length extentMd. 0 < vec_divExZero extentMd ?m ! i"
    using fe(2) by (auto simp: vec_divExZero_nth divExZero_def frame_fits_def)
  ultimately show ?thesis using fe by (auto simp: getSimdFrameSpec_def frame_fits_def frameSpec_def in_set_conv_nth Let_def)
qed

text \<open>A functor's contract, without the locale.\<close>

definition reduceFunc_ok :: "'r reduceFunc \<Rightarrow> 'r \<Rightarrow> bool" where
  "reduceFunc_ok rf e \<longleftrightarrow> reduction (rf_scalar rf) e \<and> (\<forall>v ref. fst (rf_atomic rf v ref) = rf_scalar rf ref v)"

lemma std_plus_ok: "reduceFunc_ok std_plus (0 :: 'a::comm_monoid_add)" "reducer_ok (std_plus :: 'a reduceFunc) cfg"
  using op_add.reduction_axioms
  by (simp_all add: reduceFunc_ok_def std_plus_def op_Add_def reducer_ok_def vec_op_lanewise)

lemma identity_elementwise: "elementwise (wrapTransformFunc (PackTransform hd) [input]) input"
  using PackTransform_elementwise[of "[input]" hd hd]
  by (simp add: elementwise_def simd_load_elements)

lemma spec_sel: "fs_numFrames (frameSpec a b c) = a" "fs_frameExtents (frameSpec a b c) = b"
  "ths_numBlocks (threadSpec a b c) = a" "ths_numThreads (threadSpec a b c) = b"
  by (simp_all add: frameSpec_def threadSpec_def)

lemma hostTransformReduce_value:
  assumes ext: "extentMd \<noteq> []" "\<forall>i < length extentMd. 0 < extentMd ! i"
    and dev: "0 < rd_warpSize dev" "rd_warpSize dev < 2 ^ 64" "0 < rd_multiProcessorCount dev" "0 < rd_maxThreadsPerBlock dev"
    and run: "reduce_run_ok run"
    and rf: "reduceFunc_ok rf e" "reducer_ok rf (rr_simd run)" and g: "elementwise (wrapTransformFunc func data) g"
  shows "hostTransformReduce dev run e (x # xs) rf func extentMd data
       = Some (total (rf_scalar rf) e (map g (all_idx extentMd)) # xs)"
proof -
  let ?ex = "rd_executor dev" and ?scale = "if rr_deviceKind run = Cpu then 1 else 32 :: nat"
  from rf(1) have red: "reduction (rf_scalar rf) e" and at: "\<And>v ref. fst (rf_atomic rf v ref) = rf_scalar rf ref v"
    by (simp_all add: reduceFunc_ok_def)
  from getSimdFrameSpec_frames[OF ext dev(1,2), of "rd_elementsPerFrameItem dev" ?ex] obtain nf fe where
    fs: "getSimdFrameSpec (rd_warpSize dev) (rd_elementsPerFrameItem dev) ?ex extentMd = Some (frameSpec nf fe ?ex)"
      "length nf = length extentMd" "\<forall>c \<in> set nf. 0 < c" "length fe = length extentMd" "\<forall>i < length fe. \<exists>k. fe ! i = 2 ^ k" by blast
  have ne: "nf \<noteq> []" "fe \<noteq> []" using ext(1) fs(2,4) by auto
  have "0 < rd_multiProcessorCount dev * ?scale" using dev(3) by simp
  from adjustToLimit_halves[OF ne(1) fs(3) this] obtain nc where
    nc: "adjustToLimit nf (rd_multiProcessorCount dev * ?scale) = Some nc" "length nc = length nf" "\<forall>i < length nf. 1 \<le> nc ! i" by blast
  have ncpos: "\<forall>c \<in> set nc. 0 < c" using nc(2,3) by (fastforce simp: in_set_conv_nth)
  have fepos: "\<forall>c \<in> set fe. 0 < c" using fs(5) by (fastforce simp: in_set_conv_nth)
  have "length nc = length fe" using nc(2) fs(2,4) by simp
  from adjustThreadSpec_threads[OF ne(2) fs(5) this ncpos dev(4), of ?ex] obtain B T k ex' where
    ts: "adjustThreadSpec (rd_maxThreadsPerBlock dev) (frameSpec nc fe ?ex) = Some (threadSpec B T ex')"
      "length B = length fe" "length T = length fe" "\<forall>c \<in> set B. 0 < c" "\<forall>c \<in> set T. 0 < c"
      "prod_list T = 2 ^ k" "prod_list T \<le> prod_list fe" by blast
  have "reduce_dims_ok B T nc fe extentMd"
    using ne ts nc(2) fs(2,4) ncpos fepos by (auto simp: reduce_dims_ok_def)
  from reduction.kernel_value[OF red refl rf(2) at g run this ts(6,7), of e xs]
  have "simdTransformReduceKernel run B T nc fe extentMd e (e # xs) rf func data
      = Some (total (rf_scalar rf) e (map g (all_idx extentMd)) # xs)"
    using reduction.neutral[OF red] by simp
  then show ?thesis
    unfolding hostTransformReduce_def fs(1) bind.bind_lunit Let_def spec_sel nc(1) ts(1) by simp
qed

text \<open>
  Property C3. \<^verbatim>\<open>onHost::transformReduce\<close>: for every problem of positive extents, on every executor, with
  every SIMD configuration and every order of blocks and of threads between barriers, the
  computation ends without leaving an array, and the first element of the output is the reduction
  of the transformed elements, each taken once; the other elements of the output are untouched.
  The reduction functor is associative and commutative with the given neutral element, its atomic
  version agrees with it, and on packs the functors work lane by lane. The heuristic of the frames
  always launches a power of two of threads, without which the tree would lose slots.
\<close>

theorem transformReduce_correct:
  assumes ext: "extentMd \<noteq> []" "\<forall>i < length extentMd. 0 < extentMd ! i"
    and dev: "0 < rd_warpSize dev" "rd_warpSize dev < 2 ^ 64" "0 < rd_multiProcessorCount dev" "0 < rd_maxThreadsPerBlock dev"
    and run: "reduce_run_ok run"
    and rf: "reduceFunc_ok rf e" "reducer_ok rf (rr_simd run)" and g: "elementwise (wrapTransformFunc func data) g"
  shows "hostTransformReduce dev run e (x # xs) rf func extentMd data
       = Some (total (rf_scalar rf) e (map g (all_idx extentMd)) # xs)"
  by (rule hostTransformReduce_value[OF assms])

theorem transformReduce_correct_witness:
  "hostTransformReduce \<lparr>rd_executor = GpuCuda, rd_warpSize = 32, rd_elementsPerFrameItem = 8, rd_multiProcessorCount = 4, rd_maxThreadsPerBlock = 64\<rparr>
     \<lparr>rr_simd = \<lparr>simdWidth = 4, numSimdPacksPerFnCall = 2\<rparr>, rr_packed = True, rr_api = Cuda, rr_deviceKind = Gpu, rr_warpSize = 32,
      rr_shared = (\<lambda>b i. 7), rr_order = (\<lambda>b ph. rev), rr_blockOrder = rev\<rparr>
     (0 :: nat) [5, 6] std_plus (ScalarTransform (\<lambda>xs. hd xs * hd (tl xs))) [2, 3] [\<lambda>i. i ! 1, \<lambda>i. i ! 0 + 1]
   = Some [9, 6]"
proof -
  let ?run = "\<lparr>rr_simd = \<lparr>simdWidth = 4, numSimdPacksPerFnCall = 2\<rparr>, rr_packed = True, rr_api = Cuda, rr_deviceKind = Gpu, rr_warpSize = 32,
      rr_shared = (\<lambda>b i. 7), rr_order = (\<lambda>b ph. rev), rr_blockOrder = rev\<rparr> :: nat reduceRun"
  let ?dev = "\<lparr>rd_executor = GpuCuda, rd_warpSize = 32, rd_elementsPerFrameItem = 8, rd_multiProcessorCount = 4, rd_maxThreadsPerBlock = 64\<rparr>"
  have "reduce_run_ok ?run" "[2, 3 :: nat] \<noteq> []" "\<forall>i < length [2, 3 :: nat]. 0 < [2, 3 :: nat] ! i" "0 < rd_warpSize ?dev"
    "rd_warpSize ?dev < 2 ^ 64" "0 < rd_multiProcessorCount ?dev" "0 < rd_maxThreadsPerBlock ?dev"
    by (simp_all add: reduce_run_ok_def less_Suc_eq)
  from transformReduce_correct[OF this(2-7,1) std_plus_ok
      ScalarTransform_elementwise[of "\<lambda>xs. hd xs * hd (tl xs)" "[\<lambda>i. i ! 1, \<lambda>i. i ! 0 + 1]"], of 5 "[6]"]
  show ?thesis by (simp add: std_plus_def upt_rec)
qed

text \<open>\<^verbatim>\<open>onHost::reduce\<close> is the same algorithm with the identity.\<close>

lemma hostReduce_value:
  assumes "extentMd \<noteq> []" "\<forall>i < length extentMd. 0 < extentMd ! i"
    and "0 < rd_warpSize dev" "rd_warpSize dev < 2 ^ 64" "0 < rd_multiProcessorCount dev" "0 < rd_maxThreadsPerBlock dev"
    and "reduce_run_ok run" "reduceFunc_ok rf e" "reducer_ok rf (rr_simd run)"
  shows "hostReduce dev run e (x # xs) rf extentMd input = Some (total (rf_scalar rf) e (map input (all_idx extentMd)) # xs)"
  unfolding hostReduce_def by (rule hostTransformReduce_value[OF assms identity_elementwise])

text \<open>With three threads in a block the tree ignores the third slot.\<close>

lemma reduceTree_three_lanes_example:
  "reduceTree (+) (\<lambda>offset. [0, 1, 2]) (3 div 2) [1, 2, 4 :: nat] = Some [3, 2, 4]"
  by (simp add: reduceTree.simps combineSlots_def)

end
