(* ===== verification/Philox.thy ===== *)
theory Philox
  imports VecModel
begin

text \<open>
  The counter-based random number engines (\<^verbatim>\<open>rand/engine/philox/\<close>): the shuffle of a counter under a
  key, the 128-bit counter with its increments and skips, and the two engines, which return single
  numbers or vectors. The theorems say that the shuffle can be inverted, which numbers an engine
  returns for every seed, subsequence and offset, and where this differs from what is documented.
\<close>

unbundle bit_operations_syntax

section \<open>The shuffle\<close>

definition high32Bits :: "u64 \<Rightarrow> u32" where "high32Bits x = ucast (drop_bit 32 x)"

definition low32Bits :: "u64 \<Rightarrow> u32" where "low32Bits x = ucast (x AND 0xffffffff)"

definition multiplyAndSplit64to32 :: "u64 \<Rightarrow> u64 \<Rightarrow> u32 \<times> u32" where
  "multiplyAndSplit64to32 a b = (let res64 = a * b in (high32Bits res64, low32Bits res64))"

definition weyl64p0 :: u64 where "weyl64p0 = 0x9E3779B97F4A7C15"
definition weyl64p1 :: u64 where "weyl64p1 = 0xBB67AE8584CAA73B"
definition weyl32p0 :: u32 where "weyl32p0 = high32Bits weyl64p0"
definition weyl32p1 :: u32 where "weyl32p1 = high32Bits weyl64p1"
definition multiplier4x32p0 :: u32 where "multiplier4x32p0 = 0xCD9E8D57"
definition multiplier4x32p1 :: u32 where "multiplier4x32p1 = 0xD2511F53"

definition numRounds :: nat where "numRounds = 10"

definition singleRound :: "u32 vec \<Rightarrow> u32 vec \<Rightarrow> u32 vec" where
  "singleRound counter key =
     (let (h0, l0) = multiplyAndSplit64to32 (ucast (counter ! 0)) (ucast multiplier4x32p0);
          (h1, l1) = multiplyAndSplit64to32 (ucast (counter ! 2)) (ucast multiplier4x32p1)
      in [h1 XOR counter ! 1 XOR key ! 0, l1, h0 XOR counter ! 3 XOR key ! 1, l0])"

definition bumpKey :: "u32 vec \<Rightarrow> u32 vec" where
  "bumpKey key = [key ! 0 + weyl32p0, key ! 1 + weyl32p1]"

definition nRounds :: "u32 vec \<Rightarrow> u32 vec \<Rightarrow> u32 vec" where
  "nRounds counterIn keyIn = snd (for_upto 0 numRounds
     (\<lambda>n (key, counter). let key = bumpKey key in (key, singleRound counter key))
     (keyIn, singleRound counterIn keyIn))"

definition generate :: "u32 vec \<Rightarrow> u32 vec \<Rightarrow> u32 vec" where
  "generate counter key = nRounds counter key"

section \<open>The counter\<close>

definition advanceCounter :: "u32 vec \<Rightarrow> u32 vec" where
  "advanceCounter counter =
     (let counter = counter[0 := counter ! 0 + 1] in
      if counter ! 0 = 0
      then let counter = counter[1 := counter ! 1 + 1] in
        if counter ! 1 = 0
        then let counter = counter[2 := counter ! 2 + 1] in
          if counter ! 2 = 0 then counter[3 := counter ! 3 + 1] else counter
        else counter
      else counter)"

definition skip4 :: "u64 \<Rightarrow> u32 vec \<Rightarrow> u32 vec" where
  "skip4 offset counter =
     (let temp = counter;
          counter = counter[0 := counter ! 0 + low32Bits offset];
          counter = counter[1 := counter ! 1 + (high32Bits offset + (if counter ! 0 < temp ! 0 then 1 else 0))];
          counter = counter[2 := counter ! 2 + (if counter ! 0 < temp ! 1 then 1 else 0)]
      in counter[3 := counter ! 3 + (if counter ! 0 < temp ! 2 then 1 else 0)])"

definition skipSubsequence :: "u64 \<Rightarrow> u32 vec \<Rightarrow> u32 vec" where
  "skipSubsequence subsequence counter =
     (let temp = counter;
          counter = counter[2 := counter ! 2 + low32Bits subsequence]
      in counter[3 := counter ! 3 + (high32Bits subsequence + (if counter ! 2 < temp ! 2 then 1 else 0))])"

section \<open>The engines\<close>

record philoxState =
  ps_counter :: "u32 vec"
  ps_key :: "u32 vec"

record philoxSingleState = philoxState +
  ps_result :: "u32 vec"
  ps_position :: u32

definition advanceState :: "philoxSingleState \<Rightarrow> philoxSingleState" where
  "advanceState st =
     (let counter = advanceCounter (ps_counter st)
      in st\<lparr>ps_counter := counter, ps_result := nRounds counter (ps_key st), ps_position := 0\<rparr>)"

definition shiftResult :: "u32 vec \<Rightarrow> u32 vec" where
  "shiftResult result = (let result = result[0 := result ! 1]; result = result[1 := result ! 2] in result[2 := result ! 3])"

definition nextNumber :: "philoxSingleState \<Rightarrow> u32 \<times> philoxSingleState" where
  "nextNumber st =
     (let result = ps_result st ! 0;
          st = st\<lparr>ps_position := ps_position st + 1\<rparr>
      in (result, if ps_position st = 4 then advanceState st else st\<lparr>ps_result := shiftResult (ps_result st)\<rparr>))"

definition philoxSingle_skip :: "u64 \<Rightarrow> philoxSingleState \<Rightarrow> philoxSingleState" where
  "philoxSingle_skip offset st =
     (let position = ps_position st + ucast (offset AND 3);
          offset = offset + (if position < 4 then 0 else 4);
          position = position - (if position < 4 then 0 else 4)
      in st\<lparr>ps_position := position, ps_result := (shiftResult ^^ unat position) (ps_result st),
            ps_counter := skip4 (offset div 4) (ps_counter st)\<rparr>)"

definition philoxSingle :: "u64 \<Rightarrow> u64 \<Rightarrow> u64 \<Rightarrow> philoxSingleState" where
  "philoxSingle seed subsequence offset =
     (let st = \<lparr>ps_counter = [0, 0, 0, 0], ps_key = [low32Bits seed, high32Bits seed], ps_result = [0, 0, 0, 0], ps_position = 0\<rparr>;
          st = st\<lparr>ps_counter := skipSubsequence subsequence (ps_counter st)\<rparr>
      in advanceState (philoxSingle_skip offset st))"

definition nextVector :: "philoxState \<Rightarrow> u32 vec \<times> philoxState" where
  "nextVector st =
     (let counter = advanceCounter (ps_counter st)
      in (nRounds counter (ps_key st), st\<lparr>ps_counter := counter\<rparr>))"

definition philoxVector_skip :: "u64 \<Rightarrow> philoxState \<Rightarrow> philoxState" where
  "philoxVector_skip offset st = st\<lparr>ps_counter := skip4 offset (ps_counter st)\<rparr>"

definition philoxVector :: "u64 \<Rightarrow> u64 \<Rightarrow> u64 \<Rightarrow> philoxState" where
  "philoxVector seed subsequence offset =
     (let st = \<lparr>ps_counter = [0, 0, 0, 0], ps_key = [low32Bits seed, high32Bits seed]\<rparr>;
          st = st\<lparr>ps_counter := skipSubsequence subsequence (ps_counter st)\<rparr>
      in snd (nextVector (philoxVector_skip offset st)))"

text \<open>The classes of the interface; the vector engine takes 32-bit arguments.\<close>

definition Philox4x32x10 :: "u64 \<Rightarrow> u64 \<Rightarrow> u64 \<Rightarrow> philoxSingleState" where
  "Philox4x32x10 seed subsequence offset = philoxSingle seed subsequence offset"

definition Philox4x32x10Vector :: "u32 \<Rightarrow> u32 \<Rightarrow> u32 \<Rightarrow> philoxState" where
  "Philox4x32x10Vector seed subsequence offset = philoxVector (ucast seed) (ucast subsequence) (ucast offset)"

definition engine_min :: u32 where "engine_min = 0"
definition engine_max :: u32 where "engine_max = - 1"

text \<open>Drawing \<open>n\<close> times from an engine.\<close>

fun draws :: "('s \<Rightarrow> 'v \<times> 's) \<Rightarrow> nat \<Rightarrow> 's \<Rightarrow> 'v list \<times> 's" where
  "draws next 0 st = ([], st)"
| "draws next (Suc n) st = (let (v, st) = next st; (vs, st) = draws next n st in (v # vs, st))"

text \<open>
  An engine as the distributions use it: 64 bits are made of two numbers, or of the first two
  components of a vector; of a vector 32 bits are its first component. C++ leaves open which of the two
  calls in \<^verbatim>\<open>engine() << 32 | engine()\<close> comes first; the model takes the left one.
\<close>

definition adapt4to8 :: "('s \<Rightarrow> u32 \<times> 's) \<Rightarrow> 's \<Rightarrow> u64 \<times> 's" where
  "adapt4to8 engine st = (let (hi, st) = engine st; (lo, st) = engine st in (push_bit 32 (ucast hi) OR ucast lo, st))"

definition adapt8to4 :: "('s \<Rightarrow> u64 \<times> 's) \<Rightarrow> 's \<Rightarrow> u32 \<times> 's" where
  "adapt8to4 engine st = (let (v, st) = engine st in (ucast v, st))"

definition vectorDispatch4 :: "('s \<Rightarrow> u32 vec \<times> 's) \<Rightarrow> 's \<Rightarrow> u32 \<times> 's" where
  "vectorDispatch4 engine st = (let (res, st) = engine st in (res ! 0, st))"

definition vectorDispatch8 :: "('s \<Rightarrow> u32 vec \<times> 's) \<Rightarrow> 's \<Rightarrow> u64 \<times> 's" where
  "vectorDispatch8 engine st = (let (res, st) = engine st in (push_bit 32 (ucast (res ! 0)) OR ucast (res ! 1), st))"

section \<open>The shuffle can be inverted\<close>

lemma low32Bits_ucast: "low32Bits x = ucast x"
proof -
  have m: "(0xffffffff :: u64) = mask 32" by (simp add: mask_eq_exp_minus_1)
  show ?thesis unfolding low32Bits_def m
    by (intro bit_word_eqI) (simp add: bit_ucast_iff bit_and_iff bit_mask_iff)
qed

lemma low32Bits_product: "low32Bits (ucast (a :: u32) * ucast (b :: u32)) = a * b"
  unfolding low32Bits_ucast
  by (rule word_unat_eq_iff[THEN iffD2])
     (simp add: unat_word_ariths unsigned_ucast_eq take_bit_eq_mod mod_mod_cancel mod_mult_eq)

text \<open>Both multipliers are odd, so the low half of the product determines the factor.\<close>

definition multiplierInv0 :: u32 where "multiplierInv0 = 0x6D7CAE67"
definition multiplierInv1 :: u32 where "multiplierInv1 = 0x991A7CDB"

lemma multiplier_inverse: "multiplier4x32p0 * multiplierInv0 = 1" "multiplier4x32p1 * multiplierInv1 = 1"
  by (simp_all add: multiplier4x32p0_def multiplierInv0_def multiplier4x32p1_def multiplierInv1_def)

definition singleRoundInv :: "u32 vec \<Rightarrow> u32 vec \<Rightarrow> u32 vec" where
  "singleRoundInv counter key =
     (let c0 = counter ! 3 * multiplierInv0; c2 = counter ! 1 * multiplierInv1;
          h0 = high32Bits (ucast c0 * ucast multiplier4x32p0); h1 = high32Bits (ucast c2 * ucast multiplier4x32p1)
      in [c0, counter ! 0 XOR h1 XOR key ! 0, c2, counter ! 2 XOR h0 XOR key ! 1])"

lemma xor_cancel: "(a XOR b XOR k) XOR a XOR k = (b :: u32)"
  by (metis xor.commute xor.left_commute xor_self_eq xor.right_neutral)

lemma list4: "length c = 4 \<Longrightarrow> c = [c ! 0, c ! 1, c ! 2, c ! 3]"
  by (rule nth_equalityI) (auto simp: less_Suc_eq numeral_eq_Suc)

lemma singleRound_inverse:
  assumes "length c = 4"
  shows "singleRoundInv (singleRound c k) k = c"
proof -
  have m: "x * multiplier4x32p0 * multiplierInv0 = x" "x * multiplier4x32p1 * multiplierInv1 = x" for x
    using multiplier_inverse by (simp_all add: mult.assoc)
  show ?thesis
    by (subst (2) list4[OF assms])
       (simp add: singleRoundInv_def singleRound_def multiplyAndSplit64to32_def Let_def low32Bits_product m xor_cancel numeral_eq_Suc)
qed

lemma singleRound_length [simp]: "length (singleRound c k) = 4"
  by (simp add: singleRound_def split: prod.splits)

text \<open>There is one round more than \<open>numRounds\<close>, under the key as it was given.\<close>

lemma nRounds_fold: "nRounds c k = fold (\<lambda>i c. singleRound c ((bumpKey ^^ i) k)) [0..<Suc numRounds] c"
proof -
  have "for_upto 0 n (\<lambda>n (key, counter). let key = bumpKey key in (key, singleRound counter key)) (k, singleRound c k)
      = ((bumpKey ^^ n) k, fold (\<lambda>i c. singleRound c ((bumpKey ^^ i) k)) [0..<Suc n] c)" for n
    by (induction n) (simp_all add: for_upto_Suc Let_def)
  then show ?thesis by (simp only: nRounds_def snd_conv)
qed

definition nRoundsInv :: "u32 vec \<Rightarrow> u32 vec \<Rightarrow> u32 vec" where
  "nRoundsInv counter key = fold (\<lambda>i c. singleRoundInv c ((bumpKey ^^ i) key)) (rev [0..<Suc numRounds]) counter"

lemma rounds_length: "length c = 4 \<Longrightarrow> length (fold (\<lambda>i c. singleRound c ((bumpKey ^^ i) k)) xs c) = 4"
  by (induction xs arbitrary: c) simp_all

lemma rounds_inverse:
  "length c = 4 \<Longrightarrow> fold (\<lambda>i c. singleRoundInv c ((bumpKey ^^ i) k)) (rev xs)
     (fold (\<lambda>i c. singleRound c ((bumpKey ^^ i) k)) xs c) = c"
  by (induction xs arbitrary: c) (simp_all add: singleRound_inverse)

lemma nRounds_inverse: "length c = 4 \<Longrightarrow> nRoundsInv (nRounds c k) k = c"
  unfolding nRoundsInv_def nRounds_fold by (rule rounds_inverse)

section \<open>The counter counts\<close>

text \<open>The counter of a natural number, least significant word first.\<close>

fun words_of :: "nat \<Rightarrow> nat \<Rightarrow> u32 vec" where
  "words_of 0 v = []"
| "words_of (Suc k) v = of_nat v # words_of k (v div 2 ^ 32)"

definition counter_of :: "nat \<Rightarrow> u32 vec" where
  "counter_of v = words_of 4 v"

fun inc_words :: "u32 vec \<Rightarrow> u32 vec" where
  "inc_words [] = []"
| "inc_words (x # xs) = (x + 1) # (if x + 1 = 0 then inc_words xs else xs)"

lemma carry: "Suc v div 2 ^ 32 = (if (of_nat (Suc v) :: u32) = 0 then Suc (v div 2 ^ 32) else v div 2 ^ 32)"
proof -
  have "(of_nat (Suc v) :: u32) = 0 \<longleftrightarrow> Suc v mod 2 ^ 32 = 0"
    by (simp add: word_of_nat_eq_0_iff dvd_eq_mod_eq_0 del: of_nat_Suc)
  then show ?thesis by (simp add: div_Suc)
qed

lemma inc_words_of: "inc_words (words_of k v) = words_of k (Suc v)"
proof (induction k arbitrary: v)
  case (Suc k)
  have s: "(of_nat v :: u32) + 1 = of_nat (Suc v)" by (simp add: add.commute)
  show ?case
  proof (cases "(of_nat (Suc v) :: u32) = 0")
    case True
    show ?thesis unfolding words_of.simps inc_words.simps s carry if_P[OF True] by (simp only: Suc.IH)
  next
    case False
    show ?thesis unfolding words_of.simps inc_words.simps s carry if_not_P[OF False] by (rule refl)
  qed
qed simp

lemma words_of_length: "length (words_of k v) = k"
  by (induction k arbitrary: v) simp_all

lemma counter_of_length [simp]: "length (counter_of v) = 4"
  by (simp add: counter_of_def words_of_length)

lemma advanceCounter_counter_of: "advanceCounter (counter_of v) = counter_of (Suc v)"
proof -
  have "advanceCounter c = inc_words c" if "length c = 4" for c
    by (subst (1 2) list4[OF that]) (simp add: advanceCounter_def Let_def numeral_eq_Suc)
  from this[OF counter_of_length] show ?thesis by (simp only: counter_of_def inc_words_of)
qed

section \<open>Where an engine starts\<close>

text \<open>
  The counter after the constructor has skipped the subsequence and \<open>blocks\<close> blocks. The last
  summand is not the carry of an addition: \<^verbatim>\<open>skip4\<close> compares the lowest word with the word of
  the subsequence.
\<close>

definition start_block :: "u64 \<Rightarrow> u64 \<Rightarrow> nat" where
  "start_block subsequence blocks = unat blocks + 2 ^ 64 * (unat subsequence
     + (if low32Bits blocks < low32Bits subsequence then 2 ^ 32 else 0))"

lemma low32Bits_of_nat: "low32Bits x = of_nat (unat x)"
  by (simp add: low32Bits_ucast)

lemma high32Bits_of_nat: "high32Bits x = of_nat (unat x div 2 ^ 32)"
proof -
  have "unat (drop_bit 32 x) = unat x div 2 ^ 32" by (simp add: drop_bit_eq_div unat_div)
  then show ?thesis unfolding high32Bits_def by (metis of_nat_unat)
qed

lemma words_of_add: "words_of k (v + 2 ^ (32 * k) * q) = words_of k v"
proof (induction k arbitrary: v)
  case (Suc k)
  have e: "2 ^ (32 * Suc k) * q = 2 ^ 32 * (2 ^ (32 * k) * q)" by (simp only: mult_Suc_right power_add mult.assoc)
  have "(of_nat (2 ^ 32 * m) :: u32) = 0" for m by (rule word_of_nat_eq_0_iff[THEN iffD2]) simp
  then have "(of_nat (v + 2 ^ (32 * Suc k) * q) :: u32) = of_nat v" unfolding e of_nat_add by (simp only: add_0_right)
  moreover have "(v + 2 ^ (32 * Suc k) * q) div 2 ^ 32 = v div 2 ^ 32 + 2 ^ (32 * k) * q" unfolding e by simp
  ultimately show ?case by (simp only: words_of.simps Suc.IH)
qed simp

lemma words_of_append: "words_of (k + m) v = words_of k v @ words_of m (v div 2 ^ (32 * k))"
proof (induction k arbitrary: v)
  case (Suc k)
  have "v div 2 ^ 32 div 2 ^ (32 * k) = v div 2 ^ (32 * Suc k)"
    by (simp only: div_mult2_eq[symmetric] power_add[symmetric] mult_Suc_right)
  then show ?case by (simp only: add_Suc words_of.simps Suc.IH append.simps)
qed simp

lemma words_of_u64: "words_of 2 (unat (x :: u64)) = [low32Bits x, high32Bits x]"
  unfolding low32Bits_of_nat high32Bits_of_nat by (simp add: numeral_2_eq_2)

lemma counter_of_u64:
  fixes x y :: u64
  shows "counter_of (unat x + 2 ^ 64 * (unat y + 2 ^ 32 * z)) = [low32Bits x, high32Bits x, low32Bits y, high32Bits y + of_nat z]"
proof -
  let ?v = "unat x + 2 ^ 64 * (unat y + 2 ^ 32 * z)"
  have "unat x < 2 ^ 64" by (rule unsigned_less[THEN order_less_le_trans]) simp
  then have d: "?v div 2 ^ (32 * 2) = unat y + 2 ^ 32 * z" by simp
  have "words_of 2 ?v = words_of 2 (unat x)" using words_of_add[of 2 "unat x" "unat y + 2 ^ 32 * z"] by simp
  then have lo: "words_of 2 ?v = [low32Bits x, high32Bits x]" by (simp only: words_of_u64)
  have "(unat y + 2 ^ 32 * z) div 2 ^ 32 = unat y div 2 ^ 32 + z" by simp
  moreover have "(of_nat (2 ^ 32 * z) :: u32) = 0" by (rule word_of_nat_eq_0_iff[THEN iffD2]) simp
  ultimately have hi: "words_of 2 (unat y + 2 ^ 32 * z) = [low32Bits y, high32Bits y + of_nat z]"
    unfolding numeral_2_eq_2 words_of.simps of_nat_add low32Bits_of_nat high32Bits_of_nat by simp
  have "counter_of ?v = words_of (2 + 2) ?v" by (simp add: counter_of_def)
  also have "\<dots> = words_of 2 ?v @ words_of 2 (?v div 2 ^ (32 * 2))" by (rule words_of_append)
  finally show ?thesis unfolding lo d hi by simp
qed

lemma skips_counter_of:
  "skip4 blocks (skipSubsequence subsequence [0, 0, 0, 0]) = counter_of (start_block subsequence blocks)"
proof -
  have "start_block subsequence blocks
      = unat blocks + 2 ^ 64 * (unat subsequence + 2 ^ 32 * (if low32Bits blocks < low32Bits subsequence then 1 else 0))"
    by (simp add: start_block_def)
  then have "counter_of (start_block subsequence blocks) = [low32Bits blocks, high32Bits blocks, low32Bits subsequence,
      high32Bits subsequence + of_nat (if low32Bits blocks < low32Bits subsequence then 1 else 0)]"
    by (simp only: counter_of_u64)
  moreover have "skip4 blocks (skipSubsequence subsequence [0, 0, 0, 0]) = [low32Bits blocks, high32Bits blocks, low32Bits subsequence,
      high32Bits subsequence + of_nat (if low32Bits blocks < low32Bits subsequence then 1 else 0)]"
    by (simp add: skip4_def skipSubsequence_def Let_def numeral_eq_Suc)
  ultimately show ?thesis by (simp only:)
qed

section \<open>The numbers of an engine\<close>

text \<open>
  The words of the successive blocks under the key of a seed, and the state of the single engine
  whose next number is the \<open>j\<close>-th of them.
\<close>

definition philox_key :: "u64 \<Rightarrow> u32 vec" where "philox_key seed = [low32Bits seed, high32Bits seed]"

definition philox_block :: "u64 \<Rightarrow> nat \<Rightarrow> u32 vec" where "philox_block seed v = nRounds (counter_of v) (philox_key seed)"

definition philox_number :: "u64 \<Rightarrow> nat \<Rightarrow> u32" where "philox_number seed j = philox_block seed (j div 4) ! (j mod 4)"

definition single_at :: "u64 \<Rightarrow> nat \<Rightarrow> philoxSingleState" where
  "single_at seed j = \<lparr>ps_counter = counter_of (j div 4), ps_key = philox_key seed,
     ps_result = (shiftResult ^^ (j mod 4)) (philox_block seed (j div 4)), ps_position = of_nat (j mod 4)\<rparr>"

lemma philox_block_length [simp]: "length (philox_block seed v) = 4"
  using rounds_length[of "counter_of v"] by (simp only: philox_block_def nRounds_fold counter_of_length)

lemma shiftResult_nth:
  assumes "length r = 4" "p < 4"
  shows "(shiftResult ^^ p) r ! 0 = r ! p"
proof -
  have p: "p = 0 \<or> p = 1 \<or> p = 2 \<or> p = 3" using assms(2) by auto
  show ?thesis by (subst (1 2) list4[OF assms(1)]) (use p in \<open>auto simp: shiftResult_def numeral_eq_Suc\<close>)
qed

lemma nextNumber_single_at: "nextNumber (single_at seed j) = (philox_number seed j, single_at seed (Suc j))"
proof -
  let ?b = "philox_block seed (j div 4)"
  have first: "ps_result (single_at seed j) ! 0 = philox_number seed j"
    by (simp add: single_at_def philox_number_def shiftResult_nth)
  consider "j mod 4 = 3" | "j mod 4 = 0 \<or> j mod 4 = 1 \<or> j mod 4 = 2" by linarith
  then show ?thesis
  proof cases
    case 1
    then have "Suc j div 4 = Suc (j div 4)" "Suc j mod 4 = 0" by (simp_all add: div_Suc mod_Suc)
    then show ?thesis using 1 first
      by (simp add: nextNumber_def advanceState_def Let_def single_at_def advanceCounter_counter_of philox_block_def)
  next
    case 2
    then have "Suc j div 4 = j div 4" "Suc j mod 4 = Suc (j mod 4)" by (auto simp: div_Suc mod_Suc)
    then show ?thesis using 2 first
      by (auto simp: nextNumber_def Let_def single_at_def)
  qed
qed

definition vector_at :: "u64 \<Rightarrow> nat \<Rightarrow> philoxState" where
  "vector_at seed v = \<lparr>ps_counter = counter_of v, ps_key = philox_key seed\<rparr>"

lemma nextVector_vector_at: "nextVector (vector_at seed v) = (philox_block seed (Suc v), vector_at seed (Suc v))"
  by (simp add: nextVector_def vector_at_def advanceCounter_counter_of philox_block_def Let_def)

lemma draws_stream:
  assumes "\<And>j. next (at j) = (value_of j, at (Suc j))"
  shows "draws next n (at j) = (map value_of [j..<j + n], at (j + n))"
proof (induction n arbitrary: j)
  case (Suc n)
  have "[j..<j + Suc n] = j # [Suc j..<Suc j + n]" by (simp add: upt_conv_Cons)
  then show ?case by (simp add: assms Suc.IH)
qed simp

lemma offset_position: "(ucast (offset AND 3 :: u64) :: u32) < 4"
proof -
  have "offset AND 3 \<le> 3" by (rule word_and_le1)
  then have "unat (offset AND 3) \<le> 3" by (simp add: word_le_nat_alt)
  then have "unat (ucast (offset AND 3) :: u32) \<le> 3" by (simp add: unsigned_ucast_eq take_bit_eq_mod)
  then show ?thesis by (simp add: word_less_nat_alt)
qed

lemma philoxSingle_start: "philoxSingle seed subsequence offset = single_at seed (4 * Suc (start_block subsequence (offset div 4)))"
  using offset_position[of offset]
  by (simp add: philoxSingle_def philoxSingle_skip_def advanceState_def Let_def single_at_def skips_counter_of
      advanceCounter_counter_of philox_block_def philox_key_def)

lemma philoxVector_start: "philoxVector seed subsequence offset = vector_at seed (Suc (start_block subsequence offset))"
proof -
  have "philoxVector seed subsequence offset = snd (nextVector (vector_at seed (start_block subsequence offset)))"
    by (simp add: philoxVector_def philoxVector_skip_def vector_at_def philox_key_def Let_def skips_counter_of)
  then show ?thesis by (simp add: nextVector_vector_at)
qed

lemma words_of_inject: "words_of k v = words_of k w \<Longrightarrow> v mod 2 ^ (32 * k) = w mod 2 ^ (32 * k)"
proof (induction k arbitrary: v w)
  case (Suc k)
  then have h: "(of_nat v :: u32) = of_nat w" and t: "words_of k (v div 2 ^ 32) = words_of k (w div 2 ^ 32)"
    by (simp_all only: words_of.simps list.inject)
  have IH: "v div 2 ^ 32 mod 2 ^ (32 * k) = w div 2 ^ 32 mod 2 ^ (32 * k)" by (rule Suc.IH[OF t])
  have "take_bit LENGTH(32) v = take_bit LENGTH(32) w" using h by (simp only: word_of_nat_eq_iff)
  then have "v mod 2 ^ 32 = w mod 2 ^ 32" by (simp only: take_bit_eq_mod len_of_numeral_defs) simp
  then show ?case using IH by (simp only: mult_Suc_right power_add mod_mult2_eq)
qed simp

text \<open>
  Property C14. The shuffle can be undone: from the generated block and the key the counter is recovered.
  So under one key no two counters give the same block, and the engines return each block once
  before the 128-bit counter wraps.
\<close>

theorem philox_roundtrip:
  assumes "length c = 4" and "v < 2 ^ 128" and "w < 2 ^ 128"
  shows "nRoundsInv (generate c k) k = c \<and> (philox_block seed v = philox_block seed w \<longleftrightarrow> v = w)"
proof -
  have "counter_of v = counter_of w" if "philox_block seed v = philox_block seed w"
    using that unfolding philox_block_def by (metis nRounds_inverse counter_of_length)
  then have "v mod 2 ^ (32 * 4) = w mod 2 ^ (32 * 4)" if "philox_block seed v = philox_block seed w"
    using that unfolding counter_of_def by (blast intro: words_of_inject)
  then show ?thesis using nRounds_inverse[OF assms(1)] assms(2, 3) by (auto simp: generate_def)
qed

theorem philox_roundtrip_witness:
  "nRoundsInv (generate [1, 2, 3, 4] [5, 6]) [5, 6] = [1, 2, 3, 4] \<and> philox_block 7 0 \<noteq> philox_block 7 (2 ^ 96)"
  using philox_roundtrip[of "[1, 2, 3, 4]" 0 "2 ^ 96" "[5, 6]" 7] by simp

text \<open>
  The 64-bit values of the distributions: from the engine for single numbers the next two words, from
  the vector engine the first two words of the next block.
\<close>

lemma adapt4to8_single_at:
  "adapt4to8 nextNumber (single_at seed j)
   = (push_bit 32 (ucast (philox_number seed j)) OR ucast (philox_number seed (Suc j)), single_at seed (j + 2))"
  by (simp add: adapt4to8_def nextNumber_single_at)

lemma vectorDispatch8_vector_at:
  "vectorDispatch8 nextVector (vector_at seed v)
   = (push_bit 32 (ucast (philox_number seed (4 * Suc v))) OR ucast (philox_number seed (Suc (4 * Suc v))), vector_at seed (Suc v))"
proof -
  have "Suc (4 * Suc v) div 4 = Suc v" "Suc (4 * Suc v) mod 4 = 1" by presburger+
  then show ?thesis by (simp add: vectorDispatch8_def nextVector_vector_at philox_number_def)
qed

text \<open>
  Property C13. What the engine for single numbers returns, for every seed, subsequence and offset and any
  number of draws: the consecutive words of the blocks of consecutive 128-bit counters under the
  key of the seed, from the block after the start of the subsequence and the offset on.
\<close>

theorem philox_stream:
  "draws nextNumber n (Philox4x32x10 seed subsequence offset)
   = (let j = 4 * Suc (start_block subsequence (offset div 4))
      in (map (philox_number seed) [j..<j + n], single_at seed (j + n)))"
  unfolding Philox4x32x10_def philoxSingle_start Let_def
  by (rule draws_stream[where at = "single_at seed", OF nextNumber_single_at])

text \<open>
  Property C15. The vector engine returns the same numbers as the engine for single numbers, in blocks of
  four, when its offset is given in blocks; but its constructor has already drawn the first block.
\<close>

theorem philox_vector_eq_single:
  assumes "unat offset < 2 ^ 62"
  shows "concat (fst (draws nextVector n (philoxVector seed subsequence offset)))
       = drop 4 (fst (draws nextNumber (4 + 4 * n) (philoxSingle seed subsequence (4 * offset))))"
proof -
  have o: "4 * offset div 4 = offset"
  proof -
    have "unat (4 * offset) = 4 * unat offset" using assms by (simp add: unat_word_ariths)
    then show ?thesis by (simp add: word_unat_eq_iff unat_div)
  qed
  define v where "v = Suc (start_block subsequence offset)"
  have "concat (fst (draws nextVector n (philoxVector seed subsequence offset))) = concat (map (\<lambda>v. philox_block seed (Suc v)) [v..<v + n])"
    unfolding philoxVector_start v_def draws_stream[where at = "vector_at seed", OF nextVector_vector_at] by simp
  also have "\<dots> = map (philox_number seed) [4 * Suc v..<4 * Suc v + 4 * n]"
  proof (induction n)
    case (Suc n)
    have "map (philox_number seed) [4 * (Suc v + n)..<4 * (Suc v + n) + 4] = philox_block seed (Suc v + n)"
    proof (rule nth_equalityI)
      fix i assume "i < length (map (philox_number seed) [4 * (Suc v + n)..<4 * (Suc v + n) + 4])"
      then have i: "i < 4" by simp
      then have "(4 * (Suc v + n) + i) div 4 = Suc v + n" "(4 * (Suc v + n) + i) mod 4 = i" by presburger+
      then show "map (philox_number seed) [4 * (Suc v + n)..<4 * (Suc v + n) + 4] ! i = philox_block seed (Suc v + n) ! i"
        using i by (simp only: nth_map_upt add_diff_cancel_left' philox_number_def)
    qed simp
    moreover have "[4 * Suc v..<4 * Suc v + 4 * Suc n] = [4 * Suc v..<4 * Suc v + 4 * n] @ [4 * (Suc v + n)..<4 * (Suc v + n) + 4]"
      using upt_add_eq_append[of "4 * Suc v" "4 * Suc v + 4 * n" 4] by (simp add: algebra_simps)
    ultimately show ?case using Suc by simp
  qed simp
  also have "\<dots> = drop 4 (map (philox_number seed) [4 * v..<4 * v + (4 + 4 * n)])"
    by (simp add: drop_map ac_simps)
  finally show ?thesis
    unfolding philoxSingle_start o v_def[symmetric] draws_stream[where at = "single_at seed", OF nextNumber_single_at] by simp
qed

theorem philox_vector_eq_single_witness:
  "concat (fst (draws nextVector 2 (philoxVector 7 0 5))) = drop 4 (fst (draws nextNumber 12 (philoxSingle 7 0 20)))"
  using philox_vector_eq_single[of 5 2 7 0] by simp

text \<open>
  Property C16. Where offsets and subsequences differ from their documentation. Within subsequence 0 the
  offset skips whole blocks of four numbers, so an offset of 1 skips nothing. In another
  subsequence an engine without offset does not continue where an engine with an offset of four
  numbers starts, and two subsequences overlap: after four numbers of subsequence 1 the engine is
  the one of subsequence \<open>2 ^ 32 + 1\<close> with an offset of 4.
\<close>

theorem philox_offset_errors:
  "Philox4x32x10 seed 0 offset = single_at seed (4 * Suc (unat offset div 4))
   \<and> Philox4x32x10 seed subsequence 1 = Philox4x32x10 seed subsequence 0
   \<and> snd (draws nextNumber 4 (Philox4x32x10 seed 1 0)) \<noteq> Philox4x32x10 seed 1 4
   \<and> snd (draws nextNumber 4 (Philox4x32x10 seed 1 0)) = Philox4x32x10 seed (2 ^ 32 + 1) 4"
proof -
  let ?w = "2 ^ 32 + 1 :: u64"
  have low: "low32Bits 0 = 0" "low32Bits 1 = 1" by (simp_all add: low32Bits_ucast)
  have "unat (ucast ?w :: u32) = 1" by (simp add: unsigned_ucast_eq take_bit_eq_mod)
  then have w: "low32Bits ?w = 1" unfolding low32Bits_ucast by (metis unsigned_1 word_unat_eq_iff)
  have b: "start_block 0 x = unat x" for x by (simp add: start_block_def low)
  have s: "start_block 1 0 = 2 ^ 64 * (1 + 2 ^ 32)" by (simp add: start_block_def low)
  have s1: "start_block 1 1 = 1 + 2 ^ 64" by (simp add: start_block_def low)
  have sw: "start_block ?w 1 = 1 + 2 ^ 64 * (2 ^ 32 + 1)" unfolding start_block_def low w by simp
  have o: "(4 :: u64) div 4 = 1" "(1 :: u64) div 4 = 0" "(0 :: u64) div 4 = 0" by simp_all
  have d: "snd (draws nextNumber 4 (single_at seed j)) = single_at seed (j + 4)" for j
    using draws_stream[where at = "single_at seed", OF nextNumber_single_at] by simp
  have c: "ps_counter (single_at seed (4 * v)) = counter_of v" for v by (simp add: single_at_def)
  have 1: "Philox4x32x10 seed 0 offset = single_at seed (4 * Suc (unat offset div 4))"
    by (simp add: Philox4x32x10_def philoxSingle_start b unat_div)
  have 2: "Philox4x32x10 seed subsequence 1 = Philox4x32x10 seed subsequence 0"
    by (simp only: Philox4x32x10_def philoxSingle_start o)
  have after: "snd (draws nextNumber 4 (Philox4x32x10 seed 1 0)) = single_at seed (4 * Suc (1 + 2 ^ 64 * (1 + 2 ^ 32)))"
    unfolding Philox4x32x10_def philoxSingle_start o s d by simp
  have 4: "snd (draws nextNumber 4 (Philox4x32x10 seed 1 0)) = Philox4x32x10 seed ?w 4"
    unfolding after unfolding Philox4x32x10_def philoxSingle_start o sw by (simp only: add.commute)
  have 3: "snd (draws nextNumber 4 (Philox4x32x10 seed 1 0)) \<noteq> Philox4x32x10 seed 1 4"
  proof
    assume "snd (draws nextNumber 4 (Philox4x32x10 seed 1 0)) = Philox4x32x10 seed 1 4"
    then have "counter_of (Suc (1 + 2 ^ 64 * (1 + 2 ^ 32))) = counter_of (Suc (1 + 2 ^ 64))"
      unfolding after unfolding Philox4x32x10_def philoxSingle_start o s1 by (metis c)
    moreover have "Suc (1 + 2 ^ 64 * (1 + 2 ^ 32)) = unat (2 :: u64) + 2 ^ 64 * (unat (1 :: u64) + 2 ^ 32 * 1)"
      "Suc (1 + 2 ^ 64) = unat (2 :: u64) + 2 ^ 64 * (unat (1 :: u64) + 2 ^ 32 * 0)" by simp_all
    ultimately have "[low32Bits 2, high32Bits 2, low32Bits 1, high32Bits 1 + of_nat 1]
        = [low32Bits 2, high32Bits 2, low32Bits 1, high32Bits 1 + of_nat 0]"
      by (simp only: counter_of_u64)
    then show False by simp
  qed
  show ?thesis using 1 2 3 4 by blast
qed

end
