(* ===== verification/SharedMem.thy ===== *)
theory SharedMem
  imports Prelude
begin

text \<open>
  The memory that the threads of a block share on the host (\<^verbatim>\<open>api/host/block/mem/\<close>): an array of bytes in
  which every variable is preceded by a header with its identifier and the offset of its end, so
  that a second declaration with the same identifier finds the variable again. The theorems say that
  declarations never overlap and are found again, and what is wrong with dynamic shared memory.
\<close>

section \<open>The storage\<close>

text \<open>
  Of a C++ type its size and its alignment count. The address of the array \<^verbatim>\<open>m_data\<close>, the template
  argument \<^verbatim>\<open>T_minDataAlignBytes\<close> and the macro for the size in KiB are the configuration. Of the contents of
  \<^verbatim>\<open>m_data\<close> the model keeps the headers, by the offset at which they start; the variables belong to the kernel.
\<close>

record ctype =
  ct_sizeof :: u64
  ct_alignof :: u64

record shared_cfg =
  sh_base :: u64
  sh_minDataAlignBytes :: u64
  sh_kib :: u32

record meta_data =
  mt_id :: u64
  mt_offset :: u32

record shared_storage =
  ss_headers :: "u64 \<rightharpoonup> meta_data"
  ss_allocdBytes :: u32

definition SharedStorage :: shared_storage where
  "SharedStorage = \<lparr>ss_headers = Map.empty, ss_allocdBytes = 0\<rparr>"

text \<open>\<^verbatim>\<open>struct alignas(T_minDataAlignBytes) MetaData\<close>: 8 bytes, 4 bytes and padding.\<close>

definition MetaData :: "shared_cfg \<Rightarrow> ctype" where
  "MetaData cfg = (let align = max (sh_minDataAlignBytes cfg) 8 in \<lparr>ct_sizeof = (16 + align - 1) div align * align, ct_alignof = align\<rparr>)"

definition totalSharedBytes :: "shared_cfg \<Rightarrow> u32" where
  "totalSharedBytes cfg = push_bit 10 (sh_kib cfg)"

definition varChunkEnd :: "shared_cfg \<Rightarrow> ctype \<Rightarrow> u32 \<Rightarrow> u32 \<Rightarrow> u32" where
  "varChunkEnd cfg T byteOffset numBytes =
     (let ptr = sh_base cfg + ucast byteOffset;
          align = max (sh_minDataAlignBytes cfg) (ct_alignof T);
          newPtrAdress = (ptr + align - 1) div align * align + ucast numBytes
      in ucast (newPtrAdress - sh_base cfg))"

text \<open>Pointers into the array are offsets from its beginning.\<close>

definition getLatestVarPtr :: "ctype \<Rightarrow> shared_storage \<Rightarrow> u64" where
  "getLatestVarPtr T s = ucast (ss_allocdBytes s) - ct_sizeof T"

text \<open>A failing assertion is \<open>None\<close>.\<close>

definition shared_allocBytes :: "shared_cfg \<Rightarrow> ctype \<Rightarrow> u64 \<Rightarrow> u32 \<Rightarrow> shared_storage \<Rightarrow> shared_storage option" where
  "shared_allocBytes cfg T ident numBytes s =
     (let s = s\<lparr>ss_allocdBytes := varChunkEnd cfg (MetaData cfg) (ss_allocdBytes s) (ucast (ct_sizeof (MetaData cfg)))\<rparr>
      in if \<not> ss_allocdBytes s \<le> totalSharedBytes cfg then None
      else let meta = getLatestVarPtr (MetaData cfg) s;
               s = s\<lparr>ss_allocdBytes := varChunkEnd cfg T (ss_allocdBytes s) numBytes\<rparr>
        in if \<not> ss_allocdBytes s \<le> totalSharedBytes cfg then None
        else Some (s\<lparr>ss_headers := (ss_headers s)(meta \<mapsto> \<lparr>mt_id = ident, mt_offset = ss_allocdBytes s\<rparr>)\<rparr>))"

definition shared_alloc :: "shared_cfg \<Rightarrow> ctype \<Rightarrow> u64 \<Rightarrow> shared_storage \<Rightarrow> shared_storage option" where
  "shared_alloc cfg T ident s = shared_allocBytes cfg T ident (ucast (ct_sizeof T)) s"

definition shared_allocDynamic :: "shared_cfg \<Rightarrow> ctype \<Rightarrow> u64 \<Rightarrow> u32 \<Rightarrow> shared_storage \<Rightarrow> shared_storage option" where
  "shared_allocDynamic cfg T ident numBytes s = shared_allocBytes cfg T ident numBytes s"

text \<open>
  The search over the headers; \<open>None\<close> is a failing assertion, the reading of a header that was never
  written or a loop that does not end, \<open>Some None\<close> the null pointer.
\<close>

partial_function (option) getVarPtr_loop :: "shared_cfg \<Rightarrow> ctype \<Rightarrow> u64 \<Rightarrow> shared_storage \<Rightarrow> u32 \<Rightarrow> u64 option option" where
  "getVarPtr_loop cfg T ident s off =
     (if off < ss_allocdBytes s
      then let metaSize = ucast (ct_sizeof (MetaData cfg));
               alignedMetaDataOffset = varChunkEnd cfg (MetaData cfg) off metaSize - metaSize
        in if \<not> alignedMetaDataOffset + metaSize \<le> ss_allocdBytes s then None
        else case ss_headers s (ucast alignedMetaDataOffset) of
            None \<Rightarrow> None
          | Some meta \<Rightarrow>
              if mt_id meta = ident then Some (Some (ucast (mt_offset meta) - ct_sizeof T))
              else getVarPtr_loop cfg T ident s (mt_offset meta)
      else Some None)"

definition getVarPtr :: "shared_cfg \<Rightarrow> ctype \<Rightarrow> u64 \<Rightarrow> shared_storage \<Rightarrow> u64 option option" where
  "getVarPtr cfg T ident s = getVarPtr_loop cfg T ident s 0"

section \<open>The providers of an accelerator\<close>

text \<open>
  \<^verbatim>\<open>SingleThreadStaticShared\<close>, and \<^verbatim>\<open>OmpStaticShared\<close> seen by the team as a whole: between its two
  barriers one thread allocates, the others then read the latest pointer.
\<close>

definition allocVar :: "shared_cfg \<Rightarrow> ctype \<Rightarrow> u64 \<Rightarrow> shared_storage \<Rightarrow> (u64 \<times> shared_storage) option" where
  "allocVar cfg T ident s =
     (case getVarPtr cfg T ident s of
        None \<Rightarrow> None
      | Some (Some p) \<Rightarrow> Some (p, s)
      | Some None \<Rightarrow> (case shared_alloc cfg T ident s of None \<Rightarrow> None | Some s \<Rightarrow> Some (getLatestVarPtr T s, s)))"

definition allocDynamic :: "shared_cfg \<Rightarrow> ctype \<Rightarrow> u64 \<Rightarrow> u32 \<Rightarrow> shared_storage \<Rightarrow> (u64 \<times> shared_storage) option" where
  "allocDynamic cfg T ident numBytes s =
     (case getVarPtr cfg T ident s of
        None \<Rightarrow> None
      | Some (Some p) \<Rightarrow> Some (p, s)
      | Some None \<Rightarrow> (case shared_allocDynamic cfg T ident numBytes s of None \<Rightarrow> None | Some s \<Rightarrow> Some (getLatestVarPtr T s, s)))"

text \<open>At the end of a block nothing is done.\<close>

definition shared_reset :: "shared_storage \<Rightarrow> shared_storage" where "shared_reset s = s"

text \<open>\<^verbatim>\<open>declareSharedMdArray\<close> changes the identifier, so that a variable and an array can have the same.\<close>

definition sharedArrayId :: "u64 \<Rightarrow> u64" where "sharedArrayId ident = xor ident 0x9e3779b97f4a7c15"

text \<open>The declarations of a kernel, one after the other, over all blocks that use the storage.\<close>

fun allocVars :: "shared_cfg \<Rightarrow> (ctype \<times> u64) list \<Rightarrow> shared_storage \<Rightarrow> (u64 list \<times> shared_storage) option" where
  "allocVars cfg [] s = Some ([], s)"
| "allocVars cfg ((T, ident) # ds) s =
     (case allocVar cfg T ident s of
        None \<Rightarrow> None
      | Some (p, s) \<Rightarrow> (case allocVars cfg ds s of None \<Rightarrow> None | Some (ps, s) \<Rightarrow> Some (p # ps, s)))"

section \<open>Ends of chunks as exact numbers\<close>

definition align_up :: "nat \<Rightarrow> nat \<Rightarrow> nat \<Rightarrow> nat" where
  "align_up base align off = (base + off + align - 1) div align * align - base"

lemma align_up_address:
  assumes "0 < align"
  shows "base + align_up base align off = (base + off + align - 1) div align * align"
    and "base + off \<le> (base + off + align - 1) div align * align"
    and "(base + off + align - 1) div align * align < base + off + align"
proof -
  have d: "(base + off + align - 1) div align * align + (base + off + align - 1) mod align = base + off + align - 1" by simp
  have m: "(base + off + align - 1) mod align < align" using assms by simp
  show l: "base + off \<le> (base + off + align - 1) div align * align" using d m by linarith
  show "(base + off + align - 1) div align * align < base + off + align" using d assms by linarith
  show "base + align_up base align off = (base + off + align - 1) div align * align" using l unfolding align_up_def by linarith
qed

lemma align_up_bounds:
  assumes "0 < align"
  shows "off \<le> align_up base align off" and "align_up base align off < off + align"
    and "(base + align_up base align off) mod align = 0"
  using align_up_address[OF assms, of base off] by (linarith, linarith, simp)

text \<open>
  The array lies in the address space with room to spare, and no size or alignment is absurd; then
  nothing wraps.
\<close>

definition cfg_ok :: "shared_cfg \<Rightarrow> bool" where
  "cfg_ok cfg \<longleftrightarrow> unat (sh_base cfg) < 2 ^ 63 \<and> 8 \<le> sh_minDataAlignBytes cfg \<and> sh_minDataAlignBytes cfg \<le> 4096 \<and> sh_kib cfg \<le> 2 ^ 20"

definition type_ok :: "ctype \<Rightarrow> bool" where
  "type_ok T \<longleftrightarrow> ct_sizeof T \<le> 2 ^ 30 \<and> ct_alignof T \<le> 4096"

abbreviation type_align :: "shared_cfg \<Rightarrow> ctype \<Rightarrow> nat" where
  "type_align cfg T \<equiv> max (unat (sh_minDataAlignBytes cfg)) (unat (ct_alignof T))"

lemma unat_max: "unat (max a b :: 'a::len word) = max (unat a) (unat b)"
  by (simp add: max_def word_le_nat_alt)

lemma varChunkEnd_unat:
  assumes "cfg_ok cfg" and "ct_alignof T \<le> 4096" and "unat off \<le> 2 ^ 31" and "unat n \<le> 2 ^ 30"
  shows "unat (varChunkEnd cfg T off n) = align_up (unat (sh_base cfg)) (type_align cfg T) (unat off) + unat n"
proof -
  define b a o' where "b = unat (sh_base cfg)" and "a = type_align cfg T" and "o' = unat off"
  have a: "0 < a" "a \<le> 4096" and b: "b < 2 ^ 63"
    using assms(1,2) by (auto simp: a_def b_def cfg_ok_def word_le_nat_alt)
  have w: "unat (max (sh_minDataAlignBytes cfg) (ct_alignof T)) = a" by (simp add: a_def unat_max)
  note up = align_up_address[OF a(1), of b o']
  have small: "b + o' + a < 2 ^ 64" using a b assms(3) by (simp add: o'_def)
  have uo: "unat (ucast off :: u64) = o'" and un: "unat (ucast n :: u64) = unat n"
    using assms(3,4) by (simp_all add: o'_def unsigned_ucast_eq take_bit_eq_mod)
  have n: "unat n \<le> 2 ^ 30" by (rule assms(4))
  let ?A = "max (sh_minDataAlignBytes cfg) (ct_alignof T)"
  let ?up = "(b + o' + a - 1) div a * a"
  have 1: "unat (sh_base cfg + ucast off) = b + o'"
    using small by (subst unat_add_bound) (simp_all add: uo b_def)
  have 2: "unat (sh_base cfg + ucast off + ?A) = b + o' + a"
    using small 1 w by (subst unat_add_bound) (simp_all add: uo b_def)
  have 3: "unat (sh_base cfg + ucast off + ?A - 1) = b + o' + a - 1"
    using a(1) 2 by (subst unat_sub_bound) (simp_all add: word_le_nat_alt)
  have upb: "?up < 2 ^ 64" using up(3) small by linarith
  have 4: "unat ((sh_base cfg + ucast off + ?A - 1) div ?A * ?A) = ?up"
    using upb w 3 by (subst unat_mult_bound) (simp_all add: unat_div)
  have pow: "2 ^ 63 + 2 ^ 31 + 4096 + 2 ^ 30 < (2 :: nat) ^ 64" "2 ^ 31 + 4096 + 2 ^ 30 < (2 :: nat) ^ 32" by simp_all
  have f: "?up + unat n < 2 ^ 64" using pow(1) up(3) a b n assms(3) unfolding o'_def by linarith
  have 5: "unat ((sh_base cfg + ucast off + ?A - 1) div ?A * ?A + ucast n) = ?up + unat n"
    using f 4 un by (subst unat_add_bound) simp_all
  have 6: "unat ((sh_base cfg + ucast off + ?A - 1) div ?A * ?A + ucast n - sh_base cfg) = ?up + unat n - b"
    using 5 up(2) by (subst unat_sub_bound) (simp_all add: word_le_nat_alt b_def)
  have r: "?up + unat n - b = align_up b a o' + unat n" using up(1,2) by linarith
  have "align_up b a o' + unat n < 2 ^ 32"
    using pow(2) align_up_bounds(2)[OF a(1), where off = o' and base = b] a n assms(3) unfolding o'_def by linarith
  then show ?thesis
    unfolding varChunkEnd_def Let_def unsigned_ucast_eq take_bit_eq_mod 6 r b_def[symmetric] a_def[symmetric] o'_def[symmetric] by simp
qed

section \<open>The chain of headers\<close>

text \<open>
  A chunk is a variable with its identifier; the headers form a chain through the chunks in the
  order they were allocated.
\<close>

record chunk =
  ck_id :: u64
  ck_start :: nat
  ck_end :: nat

abbreviation header_size :: "shared_cfg \<Rightarrow> nat" where "header_size cfg \<equiv> unat (ct_sizeof (MetaData cfg))"

definition header_at :: "shared_cfg \<Rightarrow> nat \<Rightarrow> nat" where
  "header_at cfg off = align_up (unat (sh_base cfg)) (unat (sh_minDataAlignBytes cfg)) off"

definition new_chunk :: "shared_cfg \<Rightarrow> ctype \<Rightarrow> u64 \<Rightarrow> nat \<Rightarrow> nat \<Rightarrow> chunk" where
  "new_chunk cfg T ident n off =
     (let start = align_up (unat (sh_base cfg)) (type_align cfg T) (header_at cfg off + header_size cfg)
      in \<lparr>ck_id = ident, ck_start = start, ck_end = start + n\<rparr>)"

fun chain :: "shared_cfg \<Rightarrow> (u64 \<rightharpoonup> meta_data) \<Rightarrow> nat \<Rightarrow> chunk list \<Rightarrow> nat \<Rightarrow> bool" where
  "chain cfg m off [] stop \<longleftrightarrow> off = stop"
| "chain cfg m off (c # cs) stop \<longleftrightarrow>
     m (of_nat (header_at cfg off)) = Some \<lparr>mt_id = ck_id c, mt_offset = of_nat (ck_end c)\<rparr>
     \<and> header_at cfg off + header_size cfg \<le> ck_start c \<and> ck_start c \<le> ck_end c \<and> chain cfg m (ck_end c) cs stop"

definition storage_inv :: "shared_cfg \<Rightarrow> shared_storage \<Rightarrow> chunk list \<Rightarrow> bool" where
  "storage_inv cfg s cs \<longleftrightarrow> chain cfg (ss_headers s) 0 cs (unat (ss_allocdBytes s))
     \<and> ss_allocdBytes s \<le> totalSharedBytes cfg \<and> distinct (map ck_id cs)
     \<and> (\<forall>h \<in> dom (ss_headers s). unat h + header_size cfg \<le> unat (ss_allocdBytes s)
         \<and> (\<forall>c \<in> set cs. unat h + header_size cfg \<le> ck_start c \<or> ck_end c \<le> unat h))"

lemma MetaData_type:
  assumes "cfg_ok cfg"
  shows "ct_alignof (MetaData cfg) = sh_minDataAlignBytes cfg" and "type_ok (MetaData cfg)"
    and "16 \<le> header_size cfg" and "header_size cfg \<le> 2 ^ 13" and "type_align cfg (MetaData cfg) = unat (sh_minDataAlignBytes cfg)"
proof -
  let ?a = "sh_minDataAlignBytes cfg"
  have a: "8 \<le> unat ?a" "unat ?a \<le> 4096" using assms by (simp_all add: cfg_ok_def word_le_nat_alt)
  have m: "max ?a 8 = ?a" using assms by (simp add: cfg_ok_def)
  have 1: "unat (16 + ?a - 1) = 15 + unat ?a" using a by (subst unat_sub_bound) (simp_all add: unat_add_bound word_le_nat_alt)
  note up = align_up_address[of "unat ?a" 0 16]
  have "16 + unat ?a - Suc 0 = 15 + unat ?a" by simp
  then have 2: "16 \<le> (15 + unat ?a) div unat ?a * unat ?a" "(15 + unat ?a) div unat ?a * unat ?a < 16 + unat ?a"
    using up(2,3) a by auto
  have 3: "header_size cfg = (15 + unat ?a) div unat ?a * unat ?a"
    unfolding MetaData_def Let_def m using a 1 2 by (simp add: unat_mult_bound unat_div)
  show al: "ct_alignof (MetaData cfg) = ?a" by (simp add: MetaData_def Let_def m)
  show "type_ok (MetaData cfg)" using a 2 3 al by (simp add: type_ok_def word_le_nat_alt)
  show "16 \<le> header_size cfg" "header_size cfg \<le> 2 ^ 13" using 2 3 a by simp_all
  show "type_align cfg (MetaData cfg) = unat ?a" by (simp add: al)
qed

lemma header_at_bounds:
  assumes "cfg_ok cfg"
  shows "off \<le> header_at cfg off" and "header_at cfg off < off + 4096"
    and "header_at cfg off < off + unat (sh_minDataAlignBytes cfg)"
proof -
  have a: "0 < unat (sh_minDataAlignBytes cfg)" "unat (sh_minDataAlignBytes cfg) \<le> 4096"
    using assms by (auto simp: cfg_ok_def word_le_nat_alt)
  show "off \<le> header_at cfg off" and l: "header_at cfg off < off + unat (sh_minDataAlignBytes cfg)"
    using align_up_bounds[OF a(1), where off = off] unfolding header_at_def by simp_all
  show "header_at cfg off < off + 4096" using l a(2) by linarith
qed

lemma chain_le: "cfg_ok cfg \<Longrightarrow> chain cfg m off cs stop \<Longrightarrow> off \<le> stop"
proof (induction cs arbitrary: off)
  case (Cons c cs)
  then have "ck_end c \<le> stop" by simp
  then show ?case using Cons.prems header_at_bounds(1)[OF Cons.prems(1), of off] by simp
qed simp

lemma chain_append:
  "chain cfg m off (cs @ ds) stop \<longleftrightarrow> (\<exists>mid. chain cfg m off cs mid \<and> chain cfg m mid ds stop)"
  by (induction cs arbitrary: off) auto

text \<open>A header behind the chain does not disturb it.\<close>

lemma chain_update:
  assumes "cfg_ok cfg" and "chain cfg m off cs stop" and "stop \<le> h" and "h < 2 ^ 64"
  shows "chain cfg (m(of_nat h \<mapsto> x)) off cs stop"
  using assms(2)
proof (induction cs arbitrary: off)
  case (Cons c cs)
  have "ck_end c \<le> stop" using chain_le[OF assms(1), of m "ck_end c" cs stop] Cons.prems by simp
  then have "header_at cfg off < h" using Cons.prems assms(3) MetaData_type(3)[OF assms(1)] by simp
  then have "(of_nat (header_at cfg off) :: u64) \<noteq> of_nat h"
    using assms(4) by (simp add: word_of_nat_eq_iff take_bit_eq_mod)
  then show ?case using Cons by simp
qed simp

section \<open>Searching and allocating\<close>

lemma storage_inv_init: "storage_inv cfg SharedStorage []"
  by (simp add: storage_inv_def SharedStorage_def)

lemma total_bound: "cfg_ok cfg \<Longrightarrow> unat (totalSharedBytes cfg) \<le> 2 ^ 30"
proof -
  assume "cfg_ok cfg"
  then have "unat (sh_kib cfg) \<le> 2 ^ 20" by (simp add: cfg_ok_def word_le_nat_alt)
  then show ?thesis by (simp add: totalSharedBytes_def push_bit_eq_mult unat_mult_bound)
qed

lemma header_end:
  assumes "cfg_ok cfg" and "unat off \<le> 2 ^ 30"
  shows "unat (varChunkEnd cfg (MetaData cfg) off (ucast (ct_sizeof (MetaData cfg)))) = header_at cfg (unat off) + header_size cfg"
    and "header_size cfg \<le> 2 ^ 13"
    and "unat (ucast (ct_sizeof (MetaData cfg)) :: u32) = header_size cfg"
proof -
  note mt = MetaData_type[OF assms(1)]
  note sz = mt(4)
  show "header_size cfg \<le> 2 ^ 13" by (rule sz)
  show u: "unat (ucast (ct_sizeof (MetaData cfg)) :: u32) = header_size cfg"
    using sz by (simp add: unsigned_ucast_eq take_bit_eq_mod)
  show "unat (varChunkEnd cfg (MetaData cfg) off (ucast (ct_sizeof (MetaData cfg)))) = header_at cfg (unat off) + header_size cfg"
    using assms mt(2) sz u unfolding header_at_def
    by (subst varChunkEnd_unat) (simp_all add: mt(5) type_ok_def)
qed

lemma getVarPtr_loop_chain:
  assumes "cfg_ok cfg" and "chain cfg (ss_headers s) (unat off) cs (unat (ss_allocdBytes s))"
    and "unat (ss_allocdBytes s) \<le> 2 ^ 30"
  shows "getVarPtr_loop cfg T ident s off
       = Some (map_option (\<lambda>c. of_nat (ck_end c) - ct_sizeof T) (find (\<lambda>c. ck_id c = ident) cs))"
  using assms(2)
proof (induction cs arbitrary: off)
  case Nil
  then show ?case by (subst getVarPtr_loop.simps) (simp add: word_less_nat_alt)
next
  case (Cons c cs)
  let ?h = "header_at cfg (unat off)" and ?z = "ucast (ct_sizeof (MetaData cfg)) :: u32"
  let ?e = "varChunkEnd cfg (MetaData cfg) off ?z"
  have rest: "chain cfg (ss_headers s) (ck_end c) cs (unat (ss_allocdBytes s))"
    and hd: "ss_headers s (of_nat ?h) = Some \<lparr>mt_id = ck_id c, mt_offset = of_nat (ck_end c)\<rparr>"
    and fit: "?h + header_size cfg \<le> ck_start c" "ck_start c \<le> ck_end c" using Cons.prems by simp_all
  have e: "ck_end c \<le> unat (ss_allocdBytes s)" using chain_le[OF assms(1) rest] .
  note hb = header_at_bounds(1)[OF assms(1), of "unat off"] and hz = MetaData_type(3)[OF assms(1)]
  have off: "unat off < unat (ss_allocdBytes s)" "unat off \<le> 2 ^ 30" using hb hz fit e assms(3) by simp_all
  note he = header_end[OF assms(1) off(2)]
  have sub: "unat (?e - ?z) = ?h" using he(1,3) by (subst unat_sub_bound) (simp_all add: word_le_nat_alt)
  then have at: "(ucast (?e - ?z) :: u64) = of_nat ?h" by (metis of_nat_unat)
  have in_range: "?e - ?z + ?z \<le> ss_allocdBytes s" using he(1) fit e by (simp add: word_le_nat_alt)
  have u: "unat (of_nat (ck_end c) :: u32) = ck_end c" using e assms(3) by (simp add: take_bit_eq_mod unsigned_of_nat)
  then have tail: "getVarPtr_loop cfg T ident s (of_nat (ck_end c))
      = Some (map_option (\<lambda>c. of_nat (ck_end c) - ct_sizeof T) (find (\<lambda>c. ck_id c = ident) cs))"
    using Cons.IH[of "of_nat (ck_end c)"] rest by simp
  have uc: "(ucast (of_nat (ck_end c) :: u32) :: u64) = of_nat (ck_end c)" by (metis u of_nat_unat)
  have "off < ss_allocdBytes s" using off(1) by (simp add: word_less_nat_alt)
  then show ?case
    by (subst getVarPtr_loop.simps) (use in_range in \<open>simp add: Let_def at hd tail uc\<close>)
qed

lemma getVarPtr_chain:
  assumes "cfg_ok cfg" and "storage_inv cfg s cs"
  shows "getVarPtr cfg T ident s = Some (map_option (\<lambda>c. of_nat (ck_end c) - ct_sizeof T) (find (\<lambda>c. ck_id c = ident) cs))"
  unfolding getVarPtr_def
proof (rule getVarPtr_loop_chain[OF assms(1)])
  show "chain cfg (ss_headers s) (unat 0) cs (unat (ss_allocdBytes s))" using assms(2) by (simp add: storage_inv_def)
  show "unat (ss_allocdBytes s) \<le> 2 ^ 30" using assms(2) total_bound[OF assms(1)] by (auto simp: storage_inv_def word_le_nat_alt)
qed

lemma chain_members:
  assumes "cfg_ok cfg" and "chain cfg m off cs stop" and "c \<in> set cs"
  shows "off \<le> ck_start c \<and> ck_end c \<le> stop"
  using assms(2,3)
proof (induction cs arbitrary: off)
  case (Cons d cs)
  have "ck_end d \<le> stop" using chain_le[OF assms(1), of m "ck_end d" cs stop] Cons.prems by simp
  moreover have "off \<le> ck_start d" using Cons.prems header_at_bounds(1)[OF assms(1), of off] by simp
  ultimately show ?case using Cons.IH[of "ck_end d"] Cons.prems by auto
qed simp

lemma new_chunk_bounds:
  assumes "cfg_ok cfg" and "ct_alignof T \<le> 4096"
  shows "header_at cfg off + header_size cfg \<le> ck_start (new_chunk cfg T ident n off)"
    and "ck_end (new_chunk cfg T ident n off) = ck_start (new_chunk cfg T ident n off) + n"
    and "ck_id (new_chunk cfg T ident n off) = ident"
    and "(unat (sh_base cfg) + ck_start (new_chunk cfg T ident n off)) mod type_align cfg T = 0"
    and "ck_start (new_chunk cfg T ident n off) < off + unat (sh_minDataAlignBytes cfg) + header_size cfg + type_align cfg T"
proof -
  have a: "0 < type_align cfg T" "type_align cfg T \<le> 4096"
    using assms by (auto simp: cfg_ok_def word_le_nat_alt)
  note b = align_up_bounds[OF a(1), where base = "unat (sh_base cfg)" and off = "header_at cfg off + header_size cfg"]
  have st: "ck_start (new_chunk cfg T ident n off)
      = align_up (unat (sh_base cfg)) (type_align cfg T) (header_at cfg off + header_size cfg)"
    by (simp add: new_chunk_def Let_def)
  show "header_at cfg off + header_size cfg \<le> ck_start (new_chunk cfg T ident n off)"
    unfolding st by (rule b(1))
  show "ck_start (new_chunk cfg T ident n off) < off + unat (sh_minDataAlignBytes cfg) + header_size cfg + type_align cfg T"
    unfolding st using b(2) header_at_bounds(3)[OF assms(1), of off] by linarith
  show "(unat (sh_base cfg) + ck_start (new_chunk cfg T ident n off)) mod type_align cfg T = 0"
    using b(3) by (simp add: new_chunk_def Let_def)
qed (simp_all add: new_chunk_def Let_def)

text \<open>
  An allocation with a new identifier appends a chunk to the chain if the chunk fits and stops at an
  assertion otherwise.
\<close>

lemma shared_allocBytes_appends:
  assumes "cfg_ok cfg" and "ct_alignof T \<le> 4096" and "unat n \<le> 2 ^ 30" and "storage_inv cfg s cs"
    and "ident \<notin> ck_id ` set cs" and c: "c = new_chunk cfg T ident (unat n) (unat (ss_allocdBytes s))"
  shows "if ck_end c \<le> unat (totalSharedBytes cfg)
    then \<exists>s'. shared_allocBytes cfg T ident n s = Some s' \<and> unat (ss_allocdBytes s') = ck_end c \<and> storage_inv cfg s' (cs @ [c])
    else shared_allocBytes cfg T ident n s = None"
proof -
  let ?a = "unat (ss_allocdBytes s)" and ?t = "unat (totalSharedBytes cfg)"
  let ?z = "ucast (ct_sizeof (MetaData cfg)) :: u32"
  define a1 where "a1 = varChunkEnd cfg (MetaData cfg) (ss_allocdBytes s) ?z"
  define a2 where "a2 = varChunkEnd cfg T a1 n"
  have t: "?t \<le> 2 ^ 30" by (rule total_bound[OF assms(1)])
  have a: "?a \<le> ?t" "?a \<le> 2 ^ 30" using assms(4) t by (auto simp: storage_inv_def word_le_nat_alt)
  note he = header_end[OF assms(1) a(2)] and nb = new_chunk_bounds[OF assms(1,2)]
  have e1: "unat a1 = header_at cfg ?a + header_size cfg" unfolding a1_def by (rule he(1))
  have "unat a1 \<le> 2 ^ 31" using e1 he(2) header_at_bounds(2)[OF assms(1), of ?a] a(2) by simp
  then have e2: "unat a2 = ck_end c"
    using assms(1-3) unfolding a2_def c by (subst varChunkEnd_unat) (simp_all add: new_chunk_def Let_def e1)
  have le: "unat a1 \<le> ck_end c" using nb(1,2)[where off = ?a and ident = ident and n = "unat n"] unfolding e1 c by simp
  have step: "shared_allocBytes cfg T ident n s =
      (if \<not> a1 \<le> totalSharedBytes cfg then None else if \<not> a2 \<le> totalSharedBytes cfg then None
       else Some (s\<lparr>ss_allocdBytes := a2, ss_headers := (ss_headers s)(ucast a1 - ct_sizeof (MetaData cfg) \<mapsto> \<lparr>mt_id = ident, mt_offset = a2\<rparr>)\<rparr>))"
    by (simp add: shared_allocBytes_def Let_def getLatestVarPtr_def a1_def a2_def)
  have at: "ucast a1 - ct_sizeof (MetaData cfg) = of_nat (header_at cfg ?a)"
  proof -
    have "(ucast a1 :: u64) = of_nat (header_at cfg ?a + header_size cfg)" by (metis e1 of_nat_unat)
    then show ?thesis by simp
  qed
  show ?thesis
  proof (cases "ck_end c \<le> ?t")
    case True
    define s' where "s' = s\<lparr>ss_allocdBytes := a2, ss_headers := (ss_headers s)(of_nat (header_at cfg ?a) \<mapsto> \<lparr>mt_id = ident, mt_offset = a2\<rparr>)\<rparr>"
    have res: "shared_allocBytes cfg T ident n s = Some s'"
      unfolding step at s'_def using True le e2 by (auto simp: word_le_nat_alt)
    have "chain cfg (ss_headers s') 0 cs ?a"
      unfolding s'_def using assms(4) header_at_bounds[OF assms(1), of ?a] a(2)
      by (auto simp: storage_inv_def intro!: chain_update[OF assms(1)])
    moreover have "a2 = of_nat (ck_end c)" unfolding e2[symmetric] by simp
    then have "chain cfg (ss_headers s') ?a [c] (ck_end c)"
      using nb(1,2,3)[where off = ?a and ident = ident and n = "unat n"] unfolding c s'_def by simp
    ultimately have "chain cfg (ss_headers s') 0 (cs @ [c]) (ck_end c)" unfolding chain_append by blast
    moreover have "ss_allocdBytes s' \<le> totalSharedBytes cfg" "unat (ss_allocdBytes s') = ck_end c"
      using True e2 by (simp_all add: s'_def word_le_nat_alt)
    moreover have "distinct (map ck_id (cs @ [c]))"
      using assms(4,5) nb(3)[where off = ?a and ident = ident and n = "unat n"] by (auto simp: storage_inv_def c)
    moreover have "unat h + header_size cfg \<le> ck_end c \<and> (\<forall>d \<in> set (cs @ [c]). unat h + header_size cfg \<le> ck_start d \<or> ck_end d \<le> unat h)"
      if h: "h \<in> dom (ss_headers s')" for h
    proof (cases "h = of_nat (header_at cfg ?a)")
      case True
      have u: "unat h = header_at cfg ?a"
        using header_at_bounds(2)[OF assms(1), of ?a] a(2) unfolding True by (simp add: unsigned_of_nat take_bit_eq_mod)
      have "ck_end d \<le> ?a" if "d \<in> set cs" for d
        using chain_members[OF assms(1), of "ss_headers s" 0 cs ?a d] assms(4) that by (simp add: storage_inv_def)
      then show ?thesis
        using e1 le nb(1)[where off = ?a and ident = ident and n = "unat n", folded c] header_at_bounds(1)[OF assms(1), of ?a]
        by (fastforce simp: u)
    next
      case False
      then have "h \<in> dom (ss_headers s)" using h by (simp add: s'_def)
      then have "unat h + header_size cfg \<le> ?a" "\<forall>d \<in> set cs. unat h + header_size cfg \<le> ck_start d \<or> ck_end d \<le> unat h"
        using assms(4) by (simp_all add: storage_inv_def)
      then show ?thesis
        using e1 le nb(1)[where off = ?a and ident = ident and n = "unat n", folded c] header_at_bounds(1)[OF assms(1), of ?a] by simp
    qed
    ultimately have "storage_inv cfg s' (cs @ [c])" by (simp add: storage_inv_def)
    then show ?thesis using True res e2 by (simp add: s'_def)
  next
    case False
    then have "\<not> a2 \<le> totalSharedBytes cfg" using e2 by (simp add: word_le_nat_alt)
    then show ?thesis using False unfolding step by simp
  qed
qed

section \<open>Variables do not overlap and are found again\<close>

lemma chain_disjoint:
  assumes "cfg_ok cfg" and "chain cfg m off cs stop" and "c \<in> set cs" and "d \<in> set cs" and "ck_id c \<noteq> ck_id d"
  shows "ck_end c \<le> ck_start d \<or> ck_end d \<le> ck_start c"
  using assms(2-4)
proof (induction cs arbitrary: off)
  case (Cons e cs)
  then have t: "chain cfg m (ck_end e) cs stop" by simp
  from Cons.prems consider "c = e" "d \<in> set cs" | "d = e" "c \<in> set cs" | "c \<in> set cs" "d \<in> set cs"
    using assms(5) by auto
  then show ?case using chain_members[OF assms(1) t] Cons.IH[OF t] by cases auto
qed simp

text \<open>Every identifier is used with one type; the chunks are as large and as aligned as it demands.\<close>

definition typed :: "shared_cfg \<Rightarrow> (u64 \<Rightarrow> ctype) \<Rightarrow> chunk list \<Rightarrow> bool" where
  "typed cfg ty cs \<longleftrightarrow> (\<forall>c \<in> set cs. ck_end c = ck_start c + unat (ct_sizeof (ty (ck_id c)))
     \<and> (unat (sh_base cfg) + ck_start c) mod type_align cfg (ty (ck_id c)) = 0)"

abbreviation find_chunk :: "u64 \<Rightarrow> chunk list \<Rightarrow> chunk option" where
  "find_chunk i cs \<equiv> find (\<lambda>c. ck_id c = i) cs"

lemma find_chunk_None: "find_chunk i cs = None \<longleftrightarrow> i \<notin> ck_id ` set cs"
  by (auto simp: find_None_iff)

lemma find_chunk_Some: "find_chunk i cs = Some c \<Longrightarrow> c \<in> set cs \<and> ck_id c = i"
  by (auto simp: find_Some_iff in_set_conv_nth)

lemma allocVar_step:
  assumes "cfg_ok cfg" and "type_ok (ty i)" and "storage_inv cfg s cs" and "typed cfg ty cs"
  shows "case find_chunk i cs of
      Some c \<Rightarrow> allocVar cfg (ty i) i s = Some (of_nat (ck_start c), s)
    | None \<Rightarrow> let c = new_chunk cfg (ty i) i (unat (ct_sizeof (ty i))) (unat (ss_allocdBytes s))
        in if ck_end c \<le> unat (totalSharedBytes cfg)
        then \<exists>s'. allocVar cfg (ty i) i s = Some (of_nat (ck_start c), s') \<and> unat (ss_allocdBytes s') = ck_end c
          \<and> storage_inv cfg s' (cs @ [c]) \<and> typed cfg ty (cs @ [c])
        else allocVar cfg (ty i) i s = None"
proof (cases "find_chunk i cs")
  case (Some c)
  then have "ck_end c = ck_start c + unat (ct_sizeof (ty i))"
    using find_chunk_Some[OF Some] assms(4) by (auto simp: typed_def)
  then show ?thesis using Some by (simp add: allocVar_def getVarPtr_chain[OF assms(1,3)])
next
  case None
  define c where "c = new_chunk cfg (ty i) i (unat (ct_sizeof (ty i))) (unat (ss_allocdBytes s))"
  have ty: "ct_alignof (ty i) \<le> 4096" "unat (ct_sizeof (ty i)) \<le> 2 ^ 30" using assms(2) by (simp_all add: type_ok_def word_le_nat_alt)
  then have n: "unat (ucast (ct_sizeof (ty i)) :: u32) = unat (ct_sizeof (ty i))"
    by (simp add: unsigned_ucast_eq take_bit_eq_mod)
  note nb = new_chunk_bounds[OF assms(1) ty(1), where ident = i and n = "unat (ct_sizeof (ty i))" and off = "unat (ss_allocdBytes s)", folded c_def]
  have al: "if ck_end c \<le> unat (totalSharedBytes cfg)
    then \<exists>s'. shared_alloc cfg (ty i) i s = Some s' \<and> unat (ss_allocdBytes s') = ck_end c \<and> storage_inv cfg s' (cs @ [c])
    else shared_alloc cfg (ty i) i s = None"
    unfolding shared_alloc_def
    by (rule shared_allocBytes_appends[OF assms(1) ty(1) _ assms(3)]) (use None ty(2) in \<open>simp_all add: n c_def find_chunk_None\<close>)
  have tc: "typed cfg ty (cs @ [c])" using assms(4) nb(2,3,4) by (auto simp: typed_def)
  have p: "getLatestVarPtr (ty i) s' = of_nat (ck_start c)" if "unat (ss_allocdBytes s') = ck_end c" for s'
  proof -
    have "(ucast (ss_allocdBytes s') :: u64) = of_nat (ck_start c + unat (ct_sizeof (ty i)))"
      by (metis that nb(2) of_nat_unat)
    then show ?thesis by (simp add: getLatestVarPtr_def)
  qed
  show ?thesis
  proof (cases "ck_end c \<le> unat (totalSharedBytes cfg)")
    case True
    then obtain s' where s': "shared_alloc cfg (ty i) i s = Some s'" "unat (ss_allocdBytes s') = ck_end c" "storage_inv cfg s' (cs @ [c])"
      using al by auto
    then show ?thesis using None True tc by (simp add: allocVar_def getVarPtr_chain[OF assms(1,3)] c_def[symmetric] Let_def p)
  next
    case False
    then show ?thesis using None al by (simp add: allocVar_def getVarPtr_chain[OF assms(1,3)] c_def[symmetric] Let_def)
  qed
qed

abbreviation declarations :: "(u64 \<Rightarrow> ctype) \<Rightarrow> u64 list \<Rightarrow> (ctype \<times> u64) list" where
  "declarations ty ids \<equiv> map (\<lambda>i. (ty i, i)) ids"

definition chunk_of :: "chunk list \<Rightarrow> u64 \<Rightarrow> chunk" where "chunk_of cs i = the (find_chunk i cs)"

lemma find_append: "find P (xs @ ys) = (case find P xs of Some x \<Rightarrow> Some x | None \<Rightarrow> find P ys)"
  by (induction xs) simp_all

lemma allocVars_spec:
  assumes "cfg_ok cfg" and "\<forall>i \<in> set ids. type_ok (ty i)" and "storage_inv cfg s cs" and "typed cfg ty cs"
    and "allocVars cfg (declarations ty ids) s = Some (ps, s')"
  shows "\<exists>ds. storage_inv cfg s' (cs @ ds) \<and> typed cfg ty (cs @ ds) \<and> set ids \<subseteq> ck_id ` set (cs @ ds)
    \<and> ps = map (\<lambda>i. of_nat (ck_start (chunk_of (cs @ ds) i))) ids"
  using assms(2-5)
proof (induction ids arbitrary: s cs ps)
  case Nil
  then show ?case by (intro exI[of _ "[]"]) simp
next
  case (Cons i ids)
  then have t: "type_ok (ty i)" "\<forall>i \<in> set ids. type_ok (ty i)" by simp_all
  note step = allocVar_step[where i = i and ty = ty, OF assms(1) t(1) Cons.prems(2,3)]
  show ?case
  proof (cases "find_chunk i cs")
    case (Some c)
    with step Cons.prems(4) obtain ps' where a: "ps = of_nat (ck_start c) # ps'" "allocVars cfg (declarations ty ids) s = Some (ps', s')"
      by (auto split: option.splits)
    from Cons.IH[OF t(2) Cons.prems(2,3) a(2)] obtain ds where ds: "storage_inv cfg s' (cs @ ds)" "typed cfg ty (cs @ ds)"
      "set ids \<subseteq> ck_id ` set (cs @ ds)" "ps' = map (\<lambda>i. of_nat (ck_start (chunk_of (cs @ ds) i))) ids" by blast
    have "i \<in> ck_id ` set (cs @ ds)" using find_chunk_Some[OF Some] by auto
    moreover have "chunk_of (cs @ ds) i = c" by (simp add: chunk_of_def find_append Some)
    ultimately show ?thesis using ds a(1) by (intro exI[of _ ds]) simp
  next
    case None
    define c where "c = new_chunk cfg (ty i) i (unat (ct_sizeof (ty i))) (unat (ss_allocdBytes s))"
    note step' = step[unfolded None option.case Let_def, folded c_def]
    have "allocVar cfg (ty i) i s \<noteq> None" using Cons.prems(4) by (auto split: option.splits)
    then obtain s1 where s1: "allocVar cfg (ty i) i s = Some (of_nat (ck_start c), s1)" "storage_inv cfg s1 (cs @ [c])" "typed cfg ty (cs @ [c])"
      using step' by (auto split: if_splits)
    then obtain ps' where a: "ck_id c = i" "storage_inv cfg s1 (cs @ [c])" "typed cfg ty (cs @ [c])"
      "ps = of_nat (ck_start c) # ps'" "allocVars cfg (declarations ty ids) s1 = Some (ps', s')"
      using Cons.prems(4) by (auto simp: c_def new_chunk_def Let_def split: option.splits)
    from Cons.IH[OF t(2) a(2,3,5)] obtain ds where ds: "storage_inv cfg s' (cs @ c # ds)" "typed cfg ty (cs @ c # ds)"
      "set ids \<subseteq> ck_id ` set (cs @ c # ds)" "ps' = map (\<lambda>i. of_nat (ck_start (chunk_of (cs @ c # ds) i))) ids" by auto
    have "chunk_of (cs @ c # ds) i = c" by (simp add: chunk_of_def find_append None a(1))
    then show ?thesis using ds a(1,4) by (intro exI[of _ "c # ds"]) auto
  qed
qed

text \<open>Declaring the same variables again, in the next block for example, changes nothing.\<close>

lemma allocVars_again:
  assumes "cfg_ok cfg" and "\<forall>i \<in> set ids. type_ok (ty i)" and "storage_inv cfg s cs" and "typed cfg ty cs"
    and "set ids \<subseteq> ck_id ` set cs"
  shows "allocVars cfg (declarations ty ids) s = Some (map (\<lambda>i. of_nat (ck_start (chunk_of cs i))) ids, s)"
  using assms(2,5)
proof (induction ids)
  case (Cons i ids)
  then have "find_chunk i cs \<noteq> None" by (simp add: find_chunk_None)
  then obtain c where c: "find_chunk i cs = Some c" by blast
  have "allocVar cfg (ty i) i s = Some (of_nat (ck_start c), s)"
    using allocVar_step[where i = i and ty = ty, OF assms(1) _ assms(3,4)] Cons.prems c by simp
  then show ?case using Cons by (simp add: chunk_of_def c)
qed simp

text \<open>The bytes that suffice for a variable: itself, a header and the padding before both.\<close>

definition bytes_needed :: "shared_cfg \<Rightarrow> ctype \<Rightarrow> nat" where
  "bytes_needed cfg T = unat (ct_sizeof T) + header_size cfg + unat (sh_minDataAlignBytes cfg) + type_align cfg T"

lemma allocVars_fits:
  assumes "cfg_ok cfg" and "\<forall>i \<in> set ids. type_ok (ty i)" and "storage_inv cfg s cs" and "typed cfg ty cs"
    and "unat (ss_allocdBytes s) + (\<Sum>i \<in> set ids - ck_id ` set cs. bytes_needed cfg (ty i)) \<le> unat (totalSharedBytes cfg)"
  shows "allocVars cfg (declarations ty ids) s \<noteq> None"
  using assms(2-5)
proof (induction ids arbitrary: s cs)
  case (Cons i ids)
  then have t: "type_ok (ty i)" "\<forall>i \<in> set ids. type_ok (ty i)" by simp_all
  note step = allocVar_step[where i = i and ty = ty, OF assms(1) t(1) Cons.prems(2,3)]
  show ?case
  proof (cases "find_chunk i cs")
    case (Some c)
    then have "set (i # ids) - ck_id ` set cs = set ids - ck_id ` set cs" using find_chunk_Some[OF Some] by auto
    with Cons.IH[OF t(2) Cons.prems(2,3)] Cons.prems(4)
    have "allocVars cfg (declarations ty ids) s \<noteq> None" by simp
    then show ?thesis using step Some by (auto split: option.splits)
  next
    case None
    define c where "c = new_chunk cfg (ty i) i (unat (ct_sizeof (ty i))) (unat (ss_allocdBytes s))"
    have al: "ct_alignof (ty i) \<le> 4096" using t(1) by (simp add: type_ok_def)
    note nb = new_chunk_bounds[OF assms(1) al, where ident = i and n = "unat (ct_sizeof (ty i))" and off = "unat (ss_allocdBytes s)", folded c_def]
    have "set (i # ids) - ck_id ` set cs = insert i (set ids - ck_id ` set (cs @ [c]))" "i \<notin> set ids - ck_id ` set (cs @ [c])"
      using None nb(3) by (auto simp: find_chunk_None)
    then have sum: "unat (ss_allocdBytes s) + (bytes_needed cfg (ty i) + (\<Sum>i \<in> set ids - ck_id ` set (cs @ [c]). bytes_needed cfg (ty i)))
        \<le> unat (totalSharedBytes cfg)"
      using Cons.prems(4) by simp
    have e: "ck_end c \<le> unat (ss_allocdBytes s) + bytes_needed cfg (ty i)" using nb(2,5) by (simp add: bytes_needed_def)
    then have "ck_end c \<le> unat (totalSharedBytes cfg)" using sum by linarith
    then obtain s1 where s1: "allocVar cfg (ty i) i s = Some (of_nat (ck_start c), s1)" "unat (ss_allocdBytes s1) = ck_end c"
      "storage_inv cfg s1 (cs @ [c])" "typed cfg ty (cs @ [c])"
      using step None by (auto simp: c_def Let_def)
    have "allocVars cfg (declarations ty ids) s1 \<noteq> None"
      by (rule Cons.IH[OF t(2) s1(3,4)]) (use sum e s1(2) in linarith)
    then show ?thesis using s1(1) by (auto split: option.splits)
  qed
qed simp

text \<open>
  Block shared variables on the host. Declarations succeed when the array has room for the variables,
  their headers and the padding. Each variable is aligned as its type and the SIMD width demand, lies inside the
  array, and shares no byte with another variable or with a header; repeating a declaration gives
  the same variable, in the same block or in the next block that uses the storage.
\<close>

theorem shared_variables:
  assumes "cfg_ok cfg" and "\<forall>i \<in> set ids. type_ok (ty i)"
  shows "((\<Sum>i \<in> set ids. bytes_needed cfg (ty i)) \<le> unat (totalSharedBytes cfg)
      \<longrightarrow> allocVars cfg (declarations ty ids) SharedStorage \<noteq> None)
    \<and> (\<forall>ps s. allocVars cfg (declarations ty ids) SharedStorage = Some (ps, s) \<longrightarrow>
      allocVars cfg (declarations ty ids) (shared_reset s) = Some (ps, s) \<and>
      (\<exists>address. ps = map (\<lambda>i. of_nat (address i)) ids \<and>
        (\<forall>i \<in> set ids. address i + unat (ct_sizeof (ty i)) \<le> unat (totalSharedBytes cfg)
          \<and> (unat (sh_base cfg) + address i) mod max (unat (sh_minDataAlignBytes cfg)) (unat (ct_alignof (ty i))) = 0
          \<and> (\<forall>j \<in> set ids. i \<noteq> j \<longrightarrow> address i + unat (ct_sizeof (ty i)) \<le> address j \<or> address j + unat (ct_sizeof (ty j)) \<le> address i)
          \<and> (\<forall>h \<in> dom (ss_headers s). unat h + unat (ct_sizeof (MetaData cfg)) \<le> address i \<or> address i + unat (ct_sizeof (ty i)) \<le> unat h))))"
proof (intro conjI allI impI)
  have t0: "typed cfg ty []" by (simp add: typed_def)
  show "allocVars cfg (declarations ty ids) SharedStorage \<noteq> None"
    if "(\<Sum>i \<in> set ids. bytes_needed cfg (ty i)) \<le> unat (totalSharedBytes cfg)"
    using allocVars_fits[OF assms storage_inv_init t0] that by (simp add: SharedStorage_def)
  fix ps s
  assume "allocVars cfg (declarations ty ids) SharedStorage = Some (ps, s)"
  from allocVars_spec[OF assms storage_inv_init t0 this] obtain cs where cs: "storage_inv cfg s cs" "typed cfg ty cs"
    "set ids \<subseteq> ck_id ` set cs" "ps = map (\<lambda>i. of_nat (ck_start (chunk_of cs i))) ids" by auto
  show "allocVars cfg (declarations ty ids) (shared_reset s) = Some (ps, s)"
    using allocVars_again[OF assms cs(1-3)] cs(4) by (simp add: shared_reset_def)
  have ch: "chain cfg (ss_headers s) 0 cs (unat (ss_allocdBytes s))" and tot: "unat (ss_allocdBytes s) \<le> unat (totalSharedBytes cfg)"
    using cs(1) by (simp_all add: storage_inv_def word_le_nat_alt)
  have c: "chunk_of cs i \<in> set cs" "ck_id (chunk_of cs i) = i" "ck_end (chunk_of cs i) = ck_start (chunk_of cs i) + unat (ct_sizeof (ty i))"
    "(unat (sh_base cfg) + ck_start (chunk_of cs i)) mod type_align cfg (ty i) = 0"
    "ck_end (chunk_of cs i) \<le> unat (totalSharedBytes cfg)" if "i \<in> set ids" for i
  proof -
    have "find_chunk i cs \<noteq> None" unfolding find_chunk_None using cs(3) that by auto
    then obtain c where "find_chunk i cs = Some c" by blast
    note f = this
    show c: "chunk_of cs i \<in> set cs" "ck_id (chunk_of cs i) = i" using find_chunk_Some[OF f] by (simp_all add: chunk_of_def f)
    show "ck_end (chunk_of cs i) = ck_start (chunk_of cs i) + unat (ct_sizeof (ty i))"
      "(unat (sh_base cfg) + ck_start (chunk_of cs i)) mod type_align cfg (ty i) = 0" using c cs(2) by (auto simp: typed_def)
    show "ck_end (chunk_of cs i) \<le> unat (totalSharedBytes cfg)" using chain_members[OF assms(1) ch c(1)] tot by simp
  qed
  show "\<exists>address. ps = map (\<lambda>i. of_nat (address i)) ids \<and>
      (\<forall>i \<in> set ids. address i + unat (ct_sizeof (ty i)) \<le> unat (totalSharedBytes cfg)
        \<and> (unat (sh_base cfg) + address i) mod max (unat (sh_minDataAlignBytes cfg)) (unat (ct_alignof (ty i))) = 0
        \<and> (\<forall>j \<in> set ids. i \<noteq> j \<longrightarrow> address i + unat (ct_sizeof (ty i)) \<le> address j \<or> address j + unat (ct_sizeof (ty j)) \<le> address i)
        \<and> (\<forall>h \<in> dom (ss_headers s). unat h + unat (ct_sizeof (MetaData cfg)) \<le> address i \<or> address i + unat (ct_sizeof (ty i)) \<le> unat h))"
  proof (intro exI[of _ "\<lambda>i. ck_start (chunk_of cs i)"] conjI ballI impI)
    fix i assume i: "i \<in> set ids"
    show "ck_start (chunk_of cs i) + unat (ct_sizeof (ty i)) \<le> unat (totalSharedBytes cfg)" using c(3,5)[OF i] by simp
    show "unat h + header_size cfg \<le> ck_start (chunk_of cs i) \<or> ck_start (chunk_of cs i) + unat (ct_sizeof (ty i)) \<le> unat h"
      if "h \<in> dom (ss_headers s)" for h
      using cs(1) that c(1)[OF i] unfolding c(3)[OF i, symmetric] by (simp add: storage_inv_def)
    show "ck_start (chunk_of cs i) + unat (ct_sizeof (ty i)) \<le> ck_start (chunk_of cs j)
        \<or> ck_start (chunk_of cs j) + unat (ct_sizeof (ty j)) \<le> ck_start (chunk_of cs i)" if "j \<in> set ids" "i \<noteq> j" for j
      using chain_disjoint[OF assms(1) ch c(1)[OF i] c(1)[OF that(1)]] c(2)[OF i] c(2)[OF that(1)] that(2)
      unfolding c(3)[OF i, symmetric] c(3)[OF that(1), symmetric] by simp
  qed (use c(4) cs(4) in auto)
qed

text \<open>
  Two variables and dynamic memory on an array at address 4096: a variable of 4 bytes and an array
  of 40 bytes; then 64 bytes of dynamic memory for elements of 4 bytes, followed by a variable.
\<close>

definition example_cfg :: shared_cfg where
  "example_cfg = \<lparr>sh_base = 4096, sh_minDataAlignBytes = 64, sh_kib = 64\<rparr>"

definition example_type :: "u64 \<Rightarrow> ctype" where
  "example_type i = (if i = 1 then \<lparr>ct_sizeof = 4, ct_alignof = 4\<rparr> else \<lparr>ct_sizeof = 40, ct_alignof = 8\<rparr>)"

lemma example_cfg_ok: "cfg_ok example_cfg" "type_ok (example_type i)"
  by (simp_all add: cfg_ok_def example_cfg_def type_ok_def example_type_def)

lemmas shared_eval = allocVar_def allocDynamic_def getVarPtr_def getVarPtr_loop.simps shared_alloc_def shared_allocDynamic_def
  shared_allocBytes_def varChunkEnd_def totalSharedBytes_def MetaData_def getLatestVarPtr_def SharedStorage_def
  example_cfg_def example_type_def

lemma example_dynamic:
  "allocDynamic example_cfg (example_type 1) 7 64 SharedStorage
   = Some (124, \<lparr>ss_headers = [0 \<mapsto> \<lparr>mt_id = 7, mt_offset = 128\<rparr>], ss_allocdBytes = 128\<rparr>)"
  by (simp add: shared_eval Let_def)

lemma example_variables:
  "map_option fst (allocVars example_cfg (declarations example_type [1, 2, 1]) SharedStorage) = Some [64, 192, 64]"
  by (simp add: shared_eval Let_def)

theorem shared_variables_witness:
  "\<exists>s. allocVars example_cfg (declarations example_type [1, 2, 1]) SharedStorage = Some ([64, 192, 64], s)
     \<and> allocVars example_cfg (declarations example_type [1, 2, 1]) (shared_reset s) = Some ([64, 192, 64], s)"
proof -
  obtain s where s: "allocVars example_cfg (declarations example_type [1, 2, 1]) SharedStorage = Some ([64, 192, 64], s)"
    using example_variables by auto
  then show ?thesis
    using shared_variables[of example_cfg "[1, 2, 1]" example_type] example_cfg_ok by blast
qed

text \<open>
  Dynamic shared memory on the host. The bytes that are asked for are reserved, but the pointer that
  is returned is the one of their last element instead of their first: only an array of a single
  element, as with one thread per block and one element per thread, lies in the reserved memory. The pointer is found again in the
  next block.
\<close>

theorem dynamic_shared_memory:
  assumes "cfg_ok cfg" and "type_ok T" and "unat (ct_sizeof T) \<le> unat n" and "unat n \<le> 2 ^ 30"
    and "storage_inv cfg s cs" and "ident \<notin> ck_id ` set cs"
    and "allocDynamic cfg T ident n s = Some (p, s')"
  shows "allocDynamic cfg T ident n (shared_reset s') = Some (p, s')
    \<and> (\<exists>start. unat (ss_allocdBytes s) \<le> start \<and> start + unat n = unat (ss_allocdBytes s') \<and> ss_allocdBytes s' \<le> totalSharedBytes cfg
        \<and> unat p = start + (unat n - unat (ct_sizeof T)))"
proof -
  define c where "c = new_chunk cfg T ident (unat n) (unat (ss_allocdBytes s))"
  have al: "ct_alignof T \<le> 4096" using assms(2) by (simp add: type_ok_def)
  note nb = new_chunk_bounds[OF assms(1) al, where ident = ident and n = "unat n" and off = "unat (ss_allocdBytes s)", folded c_def]
  have "find_chunk ident cs = None" using assms(6) by (simp add: find_chunk_None)
  then have d: "allocDynamic cfg T ident n s = (case shared_allocBytes cfg T ident n s of None \<Rightarrow> None | Some s \<Rightarrow> Some (getLatestVarPtr T s, s))"
    by (simp add: allocDynamic_def getVarPtr_chain[OF assms(1,5)] shared_allocDynamic_def)
  then have s': "shared_allocBytes cfg T ident n s = Some s'" and p: "p = getLatestVarPtr T s'"
    using assms(7) by (auto split: option.splits)
  have inv: "unat (ss_allocdBytes s') = ck_end c" "storage_inv cfg s' (cs @ [c])" "ck_end c \<le> unat (totalSharedBytes cfg)"
    using shared_allocBytes_appends[OF assms(1) al assms(4-6) c_def] s' by (auto split: if_splits)
  have "find_chunk ident (cs @ [c]) = Some c" using \<open>find_chunk ident cs = None\<close> nb(3) by (simp add: find_append)
  then have again: "allocDynamic cfg T ident n s' = Some (of_nat (ck_end c) - ct_sizeof T, s')"
    by (simp add: allocDynamic_def getVarPtr_chain[OF assms(1) inv(2)])
  have uc: "unat (ucast (ss_allocdBytes s') :: u64) = ck_end c"
    using inv(1,3) total_bound[OF assms(1)] by (simp add: unsigned_ucast_eq take_bit_eq_mod)
  have "p = of_nat (ck_end c) - ct_sizeof T" unfolding p getLatestVarPtr_def by (metis inv(1) of_nat_unat)
  moreover have "unat p = ck_end c - unat (ct_sizeof T)"
    unfolding p getLatestVarPtr_def using uc nb(2) assms(3) by (subst unat_sub_bound) (simp_all add: word_le_nat_alt)
  ultimately show ?thesis
    using again inv(1,3) nb(1,2) header_at_bounds(1)[OF assms(1), of "unat (ss_allocdBytes s)"] assms(3)
    by (intro conjI exI[of _ "ck_start c"]) (simp_all add: shared_reset_def word_le_nat_alt)
qed

theorem dynamic_shared_memory_witness:
  "\<exists>s' start. allocDynamic example_cfg (example_type 1) 7 64 SharedStorage = Some (124, s')
     \<and> start + unat (64 :: u32) = unat (ss_allocdBytes s') \<and> unat (124 :: u64) = start + (unat (64 :: u32) - unat (ct_sizeof (example_type 1)))"
  using dynamic_shared_memory[of example_cfg "example_type 1" 64 SharedStorage "[]" 7 124, OF example_cfg_ok(1,2) _ _ storage_inv_init _ example_dynamic]
    example_dynamic
  by (auto simp: example_type_def)

text \<open>The second of sixteen elements is then the header of the next variable, which a kernel overwrites.\<close>

lemma dynamic_overlaps_example:
  "\<exists>s s'. allocDynamic example_cfg (example_type 1) 7 64 SharedStorage = Some (124, s)
     \<and> allocVar example_cfg (example_type 1) 1 s = Some (192, s') \<and> 124 + 1 * 4 \<in> dom (ss_headers s')"
  unfolding example_dynamic by (simp add: shared_eval Let_def)

end
