(* ===== verification/Spec2Isabelle.thy ===== *)
theory Spec2Isabelle
  imports Scan QueueProgress Buffers Reduce Philox SharedMem
begin

text \<open>
  A verification library for alpaka, a header-only C++20 library that runs one kernel on several
  kinds of device. A problem has a multi-dimensional extent; the host turns the extent into a
  launch configuration and enqueues the kernel; on the device every thread asks the accelerator
  for its position, turns a range of indices into its own share and loops over the share; memory
  is reached through spans over pitched buffers, which are allocated, copied and released through
  queues. The theories follow these steps. All paths below are relative to
  \<^verbatim>\<open>include/alpaka/\<close>.

  \<^bold>\<open>How the code is modelled.\<close> A \<^verbatim>\<open>Vec\<close> is a list (its dimension is the length of the list, the last
  component runs fastest), a struct is a record with the members of the struct, an enumeration or a
  tag type a datatype, a member function a function of the object that returns the new object.
  Functions over an unsigned index type are polymorphic in the type where the code is generic:
  the same definition is used at \<open>nat\<close>, where arithmetic is exact, and at \<open>'w word\<close>, where it wraps
  as in C++; a theorem at \<open>nat\<close> is about indices that fit, the theorems at \<open>word\<close> state when they
  do, and the lemmas named \<open>_example\<close> evaluate what happens when they do not. Loops with a run-time
  condition are \<open>partial_function (option)\<close>, so that \<open>Some\<close> contains the claim that the loop ends; no
  fuel is used anywhere. Accesses outside an array give \<open>None\<close>. So does a division by zero where a caller can
  bring it about, which is \<open>mapToND_checked\<close>; \<open>mapToND\<close> is the same loop where the divisors
  are known to be positive, and \<open>linearize_mapToND\<close> says exactly when that is. Other divisors are positive by
  the hypotheses of the theorems (extents, strides, numbers of threads and workers, widths of packs).
  Template parameters (the element type's size, the width of a pack, the API, the device kind)
  are arguments.

  \<^bold>\<open>Arithmetic and vectors.\<close>
  \<^descr> \<open>Prelude\<close>: counted loops, \<^verbatim>\<open>for(x : range)\<close> over a pair of iterators, the locale \<open>forward_iter\<close>, which
    is what such a loop needs of its iterator; every iterator of the library interprets it.
  \<^descr> \<open>IntUtil\<close>: \<^verbatim>\<open>utility.hpp\<close> (\<^verbatim>\<open>divCeil\<close>, \<^verbatim>\<open>divExZero\<close>, \<^verbatim>\<open>intPow\<close>, \<^verbatim>\<open>ipow\<close>, \<^verbatim>\<open>nthRootFloor\<close>,
    \<^verbatim>\<open>roundDownToPowerOfTwo\<close>) and the functors of \<^verbatim>\<open>operation.hpp\<close>.
  \<^descr> \<open>VecModel\<close>: \<^verbatim>\<open>Vec.hpp\<close> and \<^verbatim>\<open>CVec.hpp\<close>: constructors, operators, swizzles and their assignment,
    the tree reduction and its equality with the left loop, compile-time selections.
  \<^descr> \<open>Linear\<close>: \<^verbatim>\<open>linearize\<close> and \<^verbatim>\<open>mapToND\<close> are inverse and enumerate the index space in row-major
    order, on exact integers and on words; when a pitch is zero, \<^verbatim>\<open>mapToND\<close> divides by it; the pitches of \<^verbatim>\<open>mem/DataPitches.hpp\<close> are its byte strides;
    \<^verbatim>\<open>meta/NdLoop.hpp\<close> visits the same indices in the same order.

  \<^bold>\<open>Who computes what.\<close>
  \<^descr> \<open>IdxSpace\<close>: \<^verbatim>\<open>mem/IdxRange.hpp\<close>, \<^verbatim>\<open>mem/ThreadSpace.hpp\<close>, the index and extent queries of an accelerator
    (\<^verbatim>\<open>onAcc/internal/interfaceImpl.hpp\<close>, \<^verbatim>\<open>warp.hpp\<close>) and worker groups: every thread of a grid has an
    index of its own, and leaving out one dimension keeps the renumbered indices different.
  \<^descr> \<open>Odometer\<close>, \<open>FlatIdx\<close>, \<open>TiledIdx\<close>, \<open>IdxMap\<close>: the containers \<^verbatim>\<open>mem/FlatIdxContainer.hpp\<close> and
    \<^verbatim>\<open>mem/TiledIdxContainer.hpp\<close> in their strided and contiguous layouts, and \<^verbatim>\<open>makeIdxMap\<close>
    (\<^verbatim>\<open>onAcc/interface.hpp\<close>, \<^verbatim>\<open>internal/MakeIter.hpp\<close>). What they share, partitions of a progression and an
    odometer of digits, is in \<open>Odometer\<close>. The main result: the loops of all workers of a group
    end and together visit each index of the range exactly once.
  \<^descr> \<open>MdIter\<close>, \<open>Boundary\<close>: the iterator over the elements of a span (\<^verbatim>\<open>mem/MdForwardIter.hpp\<close>) and the
    iterator over the faces, edges, corners and core of a volume (\<^verbatim>\<open>mem/BoundaryIter.hpp\<close>), whose
    sub-ranges tile the volume when its stride is one; with another stride they do not.
  \<^descr> \<open>SimdAlgo\<close>: the widths of packs (\<^verbatim>\<open>onAcc/SimdAlgo.hpp\<close>, \<^verbatim>\<open>api/trait.hpp\<close>) and \<^verbatim>\<open>concurrent\<close>
    (\<^verbatim>\<open>onAcc/internal/SimdConcurrent.hpp\<close>): packs and single elements of all threads touch each element once,
    although the iterators advance several steps between two comparisons.
  \<^descr> \<open>Launch\<close>: frame and thread specifications, the frame heuristics (at \<open>nat\<close>: extents stay below the maximum of
    the type by more than a frame) and the limits of a device: \<^verbatim>\<open>adjustToLimit\<close> computes in the index type, and
    meets its limit when the limit and the product fit it.

  \<^bold>\<open>Kernels with barriers.\<close>
  \<^descr> \<open>Store\<close>: arrays with checked accesses and the locale \<open>parallel_phase\<close>: between two barriers the threads
    write disjoint cells and read no cell another one writes, so every order gives the same result.
  \<^descr> \<open>Sweep\<close>, \<open>Scan\<close>: the prefix sum of \<^verbatim>\<open>onHost/algo/internal/scan.hpp\<close>: both sweeps interpret the locale; the
    kernel over chunks, the kernel that adds the increments, the size of the auxiliary buffer and the
    recursion of the host. The recursion ends and the result is the prefix sum for every input size, when the threads of a
    block divide 2048 and, on a CPU, the size of an element divides 32768; \<open>scan_register_overrun\<close> is what
    happens otherwise.
  \<^descr> \<open>Reduce\<close>: transform and reduce (\<^verbatim>\<open>onAcc/internal/SimdTransformReduce.hpp\<close>,
    \<^verbatim>\<open>onHost/algo/internal/transformReduce.hpp\<close>). The locale \<open>reduction\<close> is what a reduction functor
    owes (associative, commutative, a neutral element), interpreted on the functors of
    \<^verbatim>\<open>operation.hpp\<close>. What a thread reduces refines \<^verbatim>\<open>concurrent\<close>, the tree over the lanes of a block
    interprets \<open>parallel_phase\<close>, and the launch always has a power of two of threads in a block,
    which the tree relies on: the result is the reduction of the whole range on every executor.

  \<^bold>\<open>Random numbers.\<close>
  \<^descr> \<open>Philox\<close>: the engines of \<^verbatim>\<open>rand/engine/philox/\<close>: the shuffle can be inverted, the counter is a 128-bit
    number, and the numbers an engine returns are given for every seed, subsequence and offset,
    with the differences from the documentation of the latter two.

  \<^bold>\<open>Queues.\<close>
  \<^descr> \<open>HostQueue\<close>: \<^verbatim>\<open>core/CallbackThread.hpp\<close>, \<^verbatim>\<open>api/host/Queue.hpp\<close> and \<^verbatim>\<open>api/host/Event.hpp\<close> as a step
    relation. A step is what a thread does while it holds a mutex, so the interleavings of the
    model are those of the code; a future is a number, a task is what the code submits (a user task,
    the resolution of an event, the wait for one).
  \<^descr> \<open>QueueInvariant\<close>: the invariant of every reachable state, by rule induction.
  \<^descr> \<open>QueueProgress\<close>: what users rely on. A queue runs a prefix of what was submitted, in order; an event
    recorded in a non-blocking queue orders two queues, while a blocking queue does not count the functions that were deferred
    in it (\<open>deferred_not_counted\<close>); the workers refine an ordered list of futures; and (locale \<open>draining\<close>, interpreted on the
    worker's steps) they finish what was submitted within a bounded number of steps in every schedule.

  \<^bold>\<open>Memory.\<close>
  \<^descr> \<open>Span\<close>, \<open>Views\<close>: element addresses and sub-views (\<^verbatim>\<open>mem/MdSpan.hpp\<close>, \<^verbatim>\<open>mem/View.hpp\<close>), the layout of an
    allocation (\<^verbatim>\<open>api/util.hpp\<close>), the sub-views of a halo, nested C arrays (\<^verbatim>\<open>mem/MdSpanArray.hpp\<close>) and
    the index generator. Offsets are computed in the index type, sizes in \<^verbatim>\<open>size_t\<close> (64 bits).
  \<^descr> \<open>Memcpy\<close>: copies and fills of the host queue on a memory of bytes in which accesses outside the
    allocation, and overlapping copies, are errors.
  \<^descr> \<open>SharedMem\<close>: the memory of a block on the host (\<^verbatim>\<open>api/host/block/mem/\<close>): declared variables are aligned,
    disjoint from each other and from the headers between them, and found again; the pointer to dynamic memory is wrong.
  \<^descr> \<open>Buffers\<close>: \<^verbatim>\<open>onHost/mem/SharedBuffer.hpp\<close> and \<^verbatim>\<open>ManagedDealloc.hpp\<close>: the use counts behind copies,
    moves, sub-buffers and keep-alive tasks, and when destructor actions and the release run.

  \<^bold>\<open>Not modelled, and why.\<close> The CUDA, HIP and SYCL back ends and the collective OpenMP queue are calls
  of run-time systems that are not part of the repository; of their devices \<open>Launch\<close> has the adjustment of the
  threads, with the limits as parameters. Mathematical functions and the random distributions compute in IEEE floating point. The
  front end (\<^verbatim>\<open>onHost/Queue.hpp\<close>, \<^verbatim>\<open>onHost/Device.hpp\<close>) and \<^verbatim>\<open>meta/\<close>, \<^verbatim>\<open>core/\<close> dispatch on types and have no
  run-time behaviour of their own. Logging and hardware discovery read or write the outside world. The
  memory model is sequentially consistent: data races between kernels are not modelled, only
  the order of the operations that the mutexes and barriers of the code separate.
\<close>

end
